(* ===== verification/HPrelude.thy ===== *)
theory HPrelude
  imports Main "HOL-Library.Word"
begin

section \<open>Prelude: C integers, bytes, outcomes and the shared automation\<close>

text \<open>
  What every component of the model uses. Machine integers come in two forms. Code that works
  on bit patterns (checksums, bitmaps, slab maps) is modelled on \<open>8 word\<close>, \<open>32 word\<close> and
  \<open>64 word\<close>. Code that works on numbers (the parsers, the calendar, the containers' counters)
  is modelled on \<open>int\<close> with every C operation that can leave its type wrapped explicitly by
  \<open>i32\<close>, \<open>u32\<close>, \<open>i64\<close> or \<open>u64\<close>; the bounds lemmas of the components then say
  where the wrapping is the identity. The target is Linux x86_64 (README.md): \<open>int\<close> has 32
  bits, \<open>size_t\<close>, \<open>ssize_t\<close>, \<open>long\<close> and pointers have 64, and bytes are little-endian.

  A read or write outside the object the code was given is the value \<open>Fault\<close> of
  \<open>run\<close>; a loop that may not end is a \<^theory_text>\<open>partial_function (option)\<close>, with
  \<open>None\<close> for not returning.
\<close>

unbundle bit_operations_syntax

subsection \<open>Collections of facts\<close>

named_theorems wrap_simps \<open>wrapping of C integers, where the value is in range\<close>

named_theorems byte_simps \<open>character classes of bytes\<close>

named_theorems heap_simps \<open>reads after writes of the pointer components\<close>

subsection \<open>Types\<close>

type_synonym byte = "8 word"

type_synonym word32 = "32 word"

type_synonym word64 = "64 word"

text \<open>An outcome of straight-line C code: a value, or an access outside the given object.\<close>

datatype 'a run = Ret 'a | Fault

fun bind_run :: "'a run \<Rightarrow> ('a \<Rightarrow> 'b run) \<Rightarrow> 'b run" where
  "bind_run (Ret a) k = k a"
| "bind_run Fault k = Fault"

lemma bind_run_Ret_iff:
  "bind_run r k = Ret b \<longleftrightarrow> (\<exists>a. r = Ret a \<and> k a = Ret b)"
  by (cases r) auto

subsection \<open>Return codes (include/hcore_constant.h)\<close>

abbreviation (input) HCORE_OK :: int where "HCORE_OK \<equiv> 0"

abbreviation (input) HCORE_ERROR :: int where "HCORE_ERROR \<equiv> -1"

abbreviation (input) HCORE_AGAIN :: int where "HCORE_AGAIN \<equiv> -2"

abbreviation (input) HCORE_MAX_INT32_VALUE :: int where "HCORE_MAX_INT32_VALUE \<equiv> 2147483647"

abbreviation (input) HCORE_MAX_UINT32_VALUE :: int where "HCORE_MAX_UINT32_VALUE \<equiv> 4294967295"

abbreviation (input) HCORE_MAX_INT64_VALUE :: int where
  "HCORE_MAX_INT64_VALUE \<equiv> 9223372036854775807"

abbreviation (input) HCORE_MAX_INT_T_VALUE :: int where
  "HCORE_MAX_INT_T_VALUE \<equiv> HCORE_MAX_INT32_VALUE"

abbreviation (input) HCORE_MAX_SSIZE_T_VALUE :: int where
  "HCORE_MAX_SSIZE_T_VALUE \<equiv> HCORE_MAX_INT64_VALUE"

subsection \<open>Wrapped integers\<close>

definition i32 :: "int \<Rightarrow> int" where
  "i32 x = (x + 2147483648) mod 4294967296 - 2147483648"

definition u32 :: "int \<Rightarrow> int" where
  "u32 x = x mod 4294967296"

definition i64 :: "int \<Rightarrow> int" where
  "i64 x = (x + 9223372036854775808) mod 18446744073709551616 - 9223372036854775808"

definition u64 :: "int \<Rightarrow> int" where
  "u64 x = x mod 18446744073709551616"

lemma i32_id [wrap_simps]: "-2147483648 \<le> x \<Longrightarrow> x \<le> 2147483647 \<Longrightarrow> i32 x = x"
  by (simp add: i32_def)

lemma u32_id [wrap_simps]: "0 \<le> x \<Longrightarrow> x < 4294967296 \<Longrightarrow> u32 x = x"
  by (simp add: u32_def)

lemma i64_id [wrap_simps]:
  "-9223372036854775808 \<le> x \<Longrightarrow> x \<le> 9223372036854775807 \<Longrightarrow> i64 x = x"
  by (simp add: i64_def)

lemma u64_id [wrap_simps]: "0 \<le> x \<Longrightarrow> x < 18446744073709551616 \<Longrightarrow> u64 x = x"
  by (simp add: u64_def)

lemma u32_range: "0 \<le> u32 x \<and> u32 x < 4294967296"
  by (simp add: u32_def)

lemma u64_range: "0 \<le> u64 x \<and> u64 x < 18446744073709551616"
  by (simp add: u64_def)

lemma i32_range: "-2147483648 \<le> i32 x \<and> i32 x \<le> 2147483647"
  using pos_mod_bound [of 4294967296 "x + 2147483648"] pos_mod_sign [of 4294967296 "x + 2147483648"]
  by (simp add: i32_def)

lemma i32_multiple: "\<exists>k. i32 x = x - k * 4294967296"
  by (rule exI [of _ "(x + 2147483648) div 4294967296"])
    (simp add: i32_def minus_div_mult_eq_mod [symmetric])

text \<open>C division truncates towards zero.\<close>

definition cdiv :: "int \<Rightarrow> int \<Rightarrow> int" where
  "cdiv a b = sgn a * sgn b * (\<bar>a\<bar> div \<bar>b\<bar>)"

subsection \<open>Bytes and characters\<close>

definition bytes :: "string \<Rightarrow> byte list" where
  "bytes s = map of_char s"

definition is_digit :: "byte \<Rightarrow> bool" where
  "is_digit c \<longleftrightarrow> 48 \<le> c \<and> c \<le> 57"

definition digit_val :: "byte \<Rightarrow> int" where
  "digit_val c = uint c - 48"

lemma is_digit_uint [byte_simps]: "is_digit c \<longleftrightarrow> 48 \<le> uint c \<and> uint c \<le> 57"
  by (simp add: is_digit_def word_le_def)

lemma byte_bit_bound: "bit (c::byte) n \<Longrightarrow> n < 8"
  using bit_imp_le_length [of c n] by simp

lemma digit_val_range: "is_digit c \<Longrightarrow> 0 \<le> digit_val c \<and> digit_val c \<le> 9"
  by (simp add: digit_val_def byte_simps)

end
