(* ===== verification/HCrc32.thy ===== *)
theory HCrc32
  imports HPrelude
begin

section \<open>CRC-32 (include/hcore_crc32.h, src/hcore_crc32.c)\<close>

text \<open>
  The two table-driven checksums, the incremental interface and the tables themselves. The
  reference is the bit-serial CRC of the reflected polynomial 0xEDB88320: a lookup table for
  \<open>w\<close> bits is right when entry \<open>i\<close> is \<open>w\<close> bit steps from \<open>i\<close>, which the
  locale \<open>crc_table\<close> states and from which the step of the code follows. Both tables of
  the source interpret it.
\<close>

unbundle bit_operations_syntax

subsection \<open>The tables\<close>

definition hcore_crc32_table16 :: "word32 list" where
  "hcore_crc32_table16 = [
    0x00000000, 0x1db71064, 0x3b6e20c8, 0x26d930ac, 0x76dc4190, 0x6b6b51f4,
    0x4db26158, 0x5005713c, 0xedb88320, 0xf00f9344, 0xd6d6a3e8, 0xcb61b38c,
    0x9b64c2b0, 0x86d3d2d4, 0xa00ae278, 0xbdbdf21c]"

definition hcore_crc32_table256 :: "word32 list" where
  "hcore_crc32_table256 = [
    0x00000000, 0x77073096, 0xee0e612c, 0x990951ba, 0x076dc419, 0x706af48f,
    0xe963a535, 0x9e6495a3, 0x0edb8832, 0x79dcb8a4, 0xe0d5e91e, 0x97d2d988,
    0x09b64c2b, 0x7eb17cbd, 0xe7b82d07, 0x90bf1d91, 0x1db71064, 0x6ab020f2,
    0xf3b97148, 0x84be41de, 0x1adad47d, 0x6ddde4eb, 0xf4d4b551, 0x83d385c7,
    0x136c9856, 0x646ba8c0, 0xfd62f97a, 0x8a65c9ec, 0x14015c4f, 0x63066cd9,
    0xfa0f3d63, 0x8d080df5, 0x3b6e20c8, 0x4c69105e, 0xd56041e4, 0xa2677172,
    0x3c03e4d1, 0x4b04d447, 0xd20d85fd, 0xa50ab56b, 0x35b5a8fa, 0x42b2986c,
    0xdbbbc9d6, 0xacbcf940, 0x32d86ce3, 0x45df5c75, 0xdcd60dcf, 0xabd13d59,
    0x26d930ac, 0x51de003a, 0xc8d75180, 0xbfd06116, 0x21b4f4b5, 0x56b3c423,
    0xcfba9599, 0xb8bda50f, 0x2802b89e, 0x5f058808, 0xc60cd9b2, 0xb10be924,
    0x2f6f7c87, 0x58684c11, 0xc1611dab, 0xb6662d3d, 0x76dc4190, 0x01db7106,
    0x98d220bc, 0xefd5102a, 0x71b18589, 0x06b6b51f, 0x9fbfe4a5, 0xe8b8d433,
    0x7807c9a2, 0x0f00f934, 0x9609a88e, 0xe10e9818, 0x7f6a0dbb, 0x086d3d2d,
    0x91646c97, 0xe6635c01, 0x6b6b51f4, 0x1c6c6162, 0x856530d8, 0xf262004e,
    0x6c0695ed, 0x1b01a57b, 0x8208f4c1, 0xf50fc457, 0x65b0d9c6, 0x12b7e950,
    0x8bbeb8ea, 0xfcb9887c, 0x62dd1ddf, 0x15da2d49, 0x8cd37cf3, 0xfbd44c65,
    0x4db26158, 0x3ab551ce, 0xa3bc0074, 0xd4bb30e2, 0x4adfa541, 0x3dd895d7,
    0xa4d1c46d, 0xd3d6f4fb, 0x4369e96a, 0x346ed9fc, 0xad678846, 0xda60b8d0,
    0x44042d73, 0x33031de5, 0xaa0a4c5f, 0xdd0d7cc9, 0x5005713c, 0x270241aa,
    0xbe0b1010, 0xc90c2086, 0x5768b525, 0x206f85b3, 0xb966d409, 0xce61e49f,
    0x5edef90e, 0x29d9c998, 0xb0d09822, 0xc7d7a8b4, 0x59b33d17, 0x2eb40d81,
    0xb7bd5c3b, 0xc0ba6cad, 0xedb88320, 0x9abfb3b6, 0x03b6e20c, 0x74b1d29a,
    0xead54739, 0x9dd277af, 0x04db2615, 0x73dc1683, 0xe3630b12, 0x94643b84,
    0x0d6d6a3e, 0x7a6a5aa8, 0xe40ecf0b, 0x9309ff9d, 0x0a00ae27, 0x7d079eb1,
    0xf00f9344, 0x8708a3d2, 0x1e01f268, 0x6906c2fe, 0xf762575d, 0x806567cb,
    0x196c3671, 0x6e6b06e7, 0xfed41b76, 0x89d32be0, 0x10da7a5a, 0x67dd4acc,
    0xf9b9df6f, 0x8ebeeff9, 0x17b7be43, 0x60b08ed5, 0xd6d6a3e8, 0xa1d1937e,
    0x38d8c2c4, 0x4fdff252, 0xd1bb67f1, 0xa6bc5767, 0x3fb506dd, 0x48b2364b,
    0xd80d2bda, 0xaf0a1b4c, 0x36034af6, 0x41047a60, 0xdf60efc3, 0xa867df55,
    0x316e8eef, 0x4669be79, 0xcb61b38c, 0xbc66831a, 0x256fd2a0, 0x5268e236,
    0xcc0c7795, 0xbb0b4703, 0x220216b9, 0x5505262f, 0xc5ba3bbe, 0xb2bd0b28,
    0x2bb45a92, 0x5cb36a04, 0xc2d7ffa7, 0xb5d0cf31, 0x2cd99e8b, 0x5bdeae1d,
    0x9b64c2b0, 0xec63f226, 0x756aa39c, 0x026d930a, 0x9c0906a9, 0xeb0e363f,
    0x72076785, 0x05005713, 0x95bf4a82, 0xe2b87a14, 0x7bb12bae, 0x0cb61b38,
    0x92d28e9b, 0xe5d5be0d, 0x7cdcefb7, 0x0bdbdf21, 0x86d3d2d4, 0xf1d4e242,
    0x68ddb3f8, 0x1fda836e, 0x81be16cd, 0xf6b9265b, 0x6fb077e1, 0x18b74777,
    0x88085ae6, 0xff0f6a70, 0x66063bca, 0x11010b5c, 0x8f659eff, 0xf862ae69,
    0x616bffd3, 0x166ccf45, 0xa00ae278, 0xd70dd2ee, 0x4e048354, 0x3903b3c2,
    0xa7672661, 0xd06016f7, 0x4969474d, 0x3e6e77db, 0xaed16a4a, 0xd9d65adc,
    0x40df0b66, 0x37d83bf0, 0xa9bcae53, 0xdebb9ec5, 0x47b2cf7f, 0x30b5ffe9,
    0xbdbdf21c, 0xcabac28a, 0x53b39330, 0x24b4a3a6, 0xbad03605, 0xcdd70693,
    0x54de5729, 0x23d967bf, 0xb3667a2e, 0xc4614ab8, 0x5d681b02, 0x2a6f2b94,
    0xb40bbe37, 0xc30c8ea1, 0x5a05df1b, 0x2d02ef8d]"

subsection \<open>The code\<close>

text \<open>A buffer \<open>p\<close> of \<open>len\<close> bytes is the list of its bytes.\<close>

definition crc32_short_step :: "word32 \<Rightarrow> byte \<Rightarrow> word32" where
  "crc32_short_step crc c =
     (let crc = hcore_crc32_table16 ! unat ((crc XOR (ucast (c AND 0xf))) AND 0xf) XOR drop_bit 4 crc
      in hcore_crc32_table16 ! unat ((crc XOR (ucast (drop_bit 4 c))) AND 0xf) XOR drop_bit 4 crc)"

fun crc32_short_loop :: "word32 \<Rightarrow> byte list \<Rightarrow> word32" where
  "crc32_short_loop crc [] = crc"
| "crc32_short_loop crc (c # p) = crc32_short_loop (crc32_short_step crc c) p"

definition hcore_crc32_short :: "byte list \<Rightarrow> word32" where
  "hcore_crc32_short p = crc32_short_loop 0xffffffff p XOR 0xffffffff"

definition crc32_long_step :: "word32 \<Rightarrow> byte \<Rightarrow> word32" where
  "crc32_long_step crc c =
     hcore_crc32_table256 ! unat ((crc XOR ucast c) AND 0xff) XOR drop_bit 8 crc"

fun crc32_long_loop :: "word32 \<Rightarrow> byte list \<Rightarrow> word32" where
  "crc32_long_loop crc [] = crc"
| "crc32_long_loop crc (c # p) = crc32_long_loop (crc32_long_step crc c) p"

definition hcore_crc32_long :: "byte list \<Rightarrow> word32" where
  "hcore_crc32_long p = crc32_long_loop 0xffffffff p XOR 0xffffffff"

definition hcore_crc32_init :: word32 where
  "hcore_crc32_init = 0xffffffff"

definition hcore_crc32_update :: "word32 \<Rightarrow> byte list \<Rightarrow> word32" where
  "hcore_crc32_update crc p = crc32_long_loop crc p"

definition hcore_crc32_final :: "word32 \<Rightarrow> word32" where
  "hcore_crc32_final crc = crc XOR 0xffffffff"

subsection \<open>The reference: one bit at a time\<close>

definition crc_bit :: "word32 \<Rightarrow> word32" where
  "crc_bit x = (if bit x 0 then drop_bit 1 x XOR 0xEDB88320 else drop_bit 1 x)"

definition crc_ref_step :: "word32 \<Rightarrow> byte \<Rightarrow> word32" where
  "crc_ref_step crc c = (crc_bit ^^ 8) (crc XOR ucast c)"

definition crc32_ref :: "byte list \<Rightarrow> word32" where
  "crc32_ref p = foldl crc_ref_step 0xffffffff p XOR 0xffffffff"

lemma crc_bit_xor: "crc_bit (x XOR y) = crc_bit x XOR crc_bit y"
  by (rule bit_word_eqI) (auto simp: crc_bit_def bit_simps)

lemma crc_bits_xor: "(crc_bit ^^ n) (x XOR y) = (crc_bit ^^ n) x XOR (crc_bit ^^ n) y"
  by (induction n) (simp_all add: crc_bit_xor)

lemma crc_bits_high:
  "take_bit n x = 0 \<Longrightarrow> (crc_bit ^^ n) x = drop_bit n x"
proof (induction n arbitrary: x)
  case 0
  then show ?case by simp
next
  case (Suc n)
  have "\<not> bit x 0"
    using arg_cong [OF Suc.prems, of "\<lambda>y. bit y 0"] by (simp add: bit_simps)
  then have step: "crc_bit x = drop_bit 1 x" by (simp add: crc_bit_def)
  have "take_bit n (drop_bit 1 x) = 0"
    using Suc.prems by (simp add: take_bit_drop_bit)
  then have "(crc_bit ^^ n) (drop_bit 1 x) = drop_bit n (drop_bit 1 x)" by (rule Suc.IH)
  with step show ?case by (simp add: funpow_Suc_right del: funpow.simps)
qed

subsection \<open>What a lookup table has to be\<close>

locale crc_table =
  fixes tab :: "word32 list"
    and w :: nat
  assumes tab_entry: "i < 2 ^ w \<Longrightarrow> tab ! i = (crc_bit ^^ w) (word_of_nat i)"
    and w_le: "w \<le> 8"
begin

lemma lookup: "tab ! unat (x AND mask w) = (crc_bit ^^ w) (x AND mask w)"
proof -
  have "unat (x AND mask w) < 2 ^ w"
    by (metis take_bit_eq_mask take_bit_nat_less_exp unsigned_take_bit_eq)
  from tab_entry [OF this] show ?thesis by simp
qed

lemma step: "tab ! unat (x AND mask w) XOR drop_bit w x = (crc_bit ^^ w) x"
proof -
  let ?hi = "x AND NOT (mask w)"
  have "take_bit w ?hi = 0"
    by (rule bit_word_eqI) (auto simp: bit_simps)
  then have hi: "(crc_bit ^^ w) ?hi = drop_bit w ?hi" by (rule crc_bits_high)
  have drop: "drop_bit w ?hi = drop_bit w x"
    by (rule bit_word_eqI) (auto simp: bit_simps dest: bit_imp_le_length)
  have split: "(x AND mask w) XOR ?hi = x"
    by (rule bit_word_eqI) (auto simp: bit_simps)
  have "(crc_bit ^^ w) x = (crc_bit ^^ w) (x AND mask w) XOR (crc_bit ^^ w) ?hi"
    by (simp add: split flip: crc_bits_xor)
  then show ?thesis by (simp only: lookup hi drop)
qed

end

text \<open>Rewrite rules that evaluate a bit step of a literal, innermost first.\<close>

lemma crc_bit_4: "(crc_bit ^^ 4) x = crc_bit (crc_bit (crc_bit (crc_bit x)))"
  by (simp add: numeral_eq_Suc)

lemma crc_bit_8: "(crc_bit ^^ 8) x = (crc_bit ^^ 4) ((crc_bit ^^ 4) x)"
  by (simp flip: funpow_add [THEN fun_cong, unfolded comp_apply])

lemma crc_bit_eval:
  "crc_bit (numeral (num.Bit1 n)) = drop_bit 1 (numeral (num.Bit1 n)) XOR 0xEDB88320"
  "crc_bit (numeral (num.Bit0 n)) = drop_bit 1 (numeral (num.Bit0 n))"
  "crc_bit 1 = 0xEDB88320"
  "crc_bit 0 = 0"
  by (simp_all add: crc_bit_def bit_0)

lemma table16_entries: "hcore_crc32_table16 = map (\<lambda>i. (crc_bit ^^ 4) (word_of_nat i)) [0..<16]"
  by (simp add: hcore_crc32_table16_def crc_bit_4 crc_bit_eval upt_rec)

lemma table256_entries: "hcore_crc32_table256 = map (\<lambda>i. (crc_bit ^^ 8) (word_of_nat i)) [0..<256]"
  by (simp add: hcore_crc32_table256_def crc_bit_8 crc_bit_4 crc_bit_eval upt_rec)

interpretation crc16: crc_table hcore_crc32_table16 4
  by unfold_locales (simp_all add: table16_entries)

interpretation crc256: crc_table hcore_crc32_table256 8
  by unfold_locales (simp_all add: table256_entries)

subsection \<open>The code computes the reference\<close>

lemma mask_nibble: "mask 4 = (0xf :: word32)" and mask_byte: "mask 8 = (0xff :: word32)"
  by (simp_all add: mask_eq_exp_minus_1)

lemma low_nibble: "(c::byte) AND 0xf = take_bit 4 c"
  by (simp add: take_bit_eq_mask mask_eq_exp_minus_1)

lemma high_nibble: "(c::byte) AND 0xf0 = push_bit 4 (drop_bit 4 c)"
proof -
  have "NOT (mask 4) = (0xf0 :: byte)" by (simp add: mask_eq_exp_minus_1)
  moreover have "c AND NOT (mask 4) = push_bit 4 (drop_bit 4 c)"
    by (rule bit_word_eqI) (auto simp: bit_simps)
  ultimately show ?thesis by metis
qed

lemma drop_low_nibble: "drop_bit 4 (ucast ((c::byte) AND 0xf) :: word32) = 0"
  by (auto intro!: bit_word_eqI simp: bit_simps low_nibble)

lemma crc_high_nibble:
  "(crc_bit ^^ 4) (ucast ((c::byte) AND 0xf0)) = ucast (drop_bit 4 c)"
proof -
  have "take_bit 4 (ucast (c AND 0xf0) :: word32) = 0"
    by (auto intro!: bit_word_eqI simp: bit_simps high_nibble)
  from crc_bits_high [OF this] show ?thesis
    by (auto intro!: bit_word_eqI simp: bit_simps high_nibble dest!: byte_bit_bound)
qed

lemma split_byte: "(ucast (c AND 0xf) :: word32) XOR ucast ((c::byte) AND 0xf0) = ucast c"
  by (auto intro!: bit_word_eqI simp: bit_simps low_nibble high_nibble dest: byte_bit_bound)

lemma nibble_hi_small: "drop_bit 4 (ucast (drop_bit 4 (c::byte)) :: word32) = 0"
  by (auto intro!: bit_word_eqI simp: bit_simps dest: byte_bit_bound)

lemma crc32_short_step_ref: "crc32_short_step crc c = crc_ref_step crc c"
proof -
  let ?lo = "ucast (c AND 0xf) :: word32" and ?hi = "ucast (c AND 0xf0) :: word32"
  have first: "hcore_crc32_table16 ! unat ((crc XOR ?lo) AND 0xf) XOR drop_bit 4 crc
      = (crc_bit ^^ 4) (crc XOR ?lo)" for crc
    using crc16.step [of "crc XOR ?lo"] by (simp add: mask_nibble drop_low_nibble)
  have second: "hcore_crc32_table16 ! unat ((crc XOR ucast (drop_bit 4 c)) AND 0xf)
      XOR drop_bit 4 crc = (crc_bit ^^ 4) (crc XOR ucast (drop_bit 4 c))" for crc
    using crc16.step [of "crc XOR ucast (drop_bit 4 c)"]
    by (simp add: mask_nibble nibble_hi_small)
  have "crc32_short_step crc c
      = (crc_bit ^^ 4) ((crc_bit ^^ 4) (crc XOR ?lo) XOR (crc_bit ^^ 4) ?hi)"
    by (simp only: crc32_short_step_def Let_def first second crc_high_nibble)
  also have "\<dots> = (crc_bit ^^ 8) (crc XOR (?lo XOR ?hi))"
    by (simp only: crc_bit_8 xor.assoc flip: crc_bits_xor)
  finally show ?thesis by (simp only: crc_ref_step_def split_byte)
qed

lemma crc32_long_step_ref: "crc32_long_step crc c = crc_ref_step crc c"
proof -
  have "drop_bit 8 (ucast c :: word32) = 0"
    by (auto intro!: bit_word_eqI simp: bit_simps dest: byte_bit_bound)
  then show ?thesis
    using crc256.step [of "crc XOR ucast c"]
    by (simp add: crc32_long_step_def crc_ref_step_def mask_byte)
qed

lemma crc32_short_loop_ref: "crc32_short_loop crc p = foldl crc_ref_step crc p"
  by (induction p arbitrary: crc) (simp_all add: crc32_short_step_ref)

lemma crc32_long_loop_ref: "crc32_long_loop crc p = foldl crc_ref_step crc p"
  by (induction p arbitrary: crc) (simp_all add: crc32_long_step_ref)

lemma crc32_long_ref: "hcore_crc32_long p = crc32_ref p"
  by (simp add: hcore_crc32_long_def crc32_ref_def crc32_long_loop_ref)

text \<open>C18: the short-table checksum hcore_crc32_short, the long-table checksum hcore_crc32_long
  and the bit-serial CRC-32 of polynomial 0xEDB88320 agree on every buffer: both lookup tables
  and both loops are right.\<close>

theorem crc32_short_eq_long_eq_ref:
  "hcore_crc32_short p = crc32_ref p \<and> hcore_crc32_long p = crc32_ref p"
  by (simp add: crc32_long_ref hcore_crc32_short_def crc32_ref_def crc32_short_loop_ref)

text \<open>Feeding a buffer to hcore_crc32_update in any two pieces, between hcore_crc32_init and
  hcore_crc32_final, gives the one-shot checksum of the whole.\<close>

theorem crc32_update_incremental:
  "hcore_crc32_final (hcore_crc32_update (hcore_crc32_update hcore_crc32_init p) q)
     = hcore_crc32_short (p @ q)"
  by (simp add: hcore_crc32_final_def hcore_crc32_update_def hcore_crc32_init_def
      crc32_long_loop_ref hcore_crc32_short_def crc32_short_loop_ref)

end
