(* ===== verification/HOrder.thy ===== *)
theory HOrder
  imports HPrelude "HOL-Library.Multiset"
begin

section \<open>The contract of a C comparison callback\<close>

text \<open>
  hcore_queue_sort, hcore_list_sort, hcore_list_insert and hcore_list_search all take a
  callback that returns a negative, zero or positive \<open>int\<close>. The locale states what they
  need of it, on the set of the values it is called on, and what follows for an insertion that
  scans from the right and for lists in order.
\<close>

locale comparator =
  fixes cmp :: "'a \<Rightarrow> 'a \<Rightarrow> int"
    and S :: "'a set"
  assumes cmp_swap: "a \<in> S \<Longrightarrow> b \<in> S \<Longrightarrow> cmp a b < 0 \<longleftrightarrow> 0 < cmp b a"
    and cmp_trans: "a \<in> S \<Longrightarrow> b \<in> S \<Longrightarrow> c \<in> S \<Longrightarrow> cmp a b \<le> 0 \<Longrightarrow> cmp b c \<le> 0 \<Longrightarrow> cmp a c \<le> 0"
begin

lemma cmp_refl: "a \<in> S \<Longrightarrow> cmp a a = 0"
  using cmp_swap [of a a] by linarith

lemma cmp_zero_sym: "a \<in> S \<Longrightarrow> b \<in> S \<Longrightarrow> cmp a b = 0 \<longleftrightarrow> cmp b a = 0"
  using cmp_swap [of a b] cmp_swap [of b a] by linarith

lemma cmp_total: "a \<in> S \<Longrightarrow> b \<in> S \<Longrightarrow> 0 < cmp a b \<Longrightarrow> cmp b a \<le> 0"
  using cmp_swap [of b a] by linarith

lemma cmp_le_lt_trans: "a \<in> S \<Longrightarrow> b \<in> S \<Longrightarrow> c \<in> S \<Longrightarrow> cmp a b \<le> 0 \<Longrightarrow> cmp b c < 0 \<Longrightarrow> cmp a c < 0"
  using cmp_trans [of a b c] cmp_trans [of c a b] cmp_swap [of a c] cmp_swap [of b c]
  by force

lemma cmp_zero_trans: "a \<in> S \<Longrightarrow> b \<in> S \<Longrightarrow> c \<in> S \<Longrightarrow> cmp a b = 0 \<Longrightarrow> cmp b c = 0 \<Longrightarrow> cmp a c = 0"
  using cmp_trans [of a b c] cmp_trans [of c b a] cmp_zero_sym [of a b] cmp_zero_sym [of b c]
    cmp_zero_sym [of a c] cmp_swap [of a c] by linarith

end

text \<open>A list in the order of a callback.\<close>

definition sorted_cmp :: "('a \<Rightarrow> 'a \<Rightarrow> int) \<Rightarrow> 'a list \<Rightarrow> bool" where
  "sorted_cmp cmp = sorted_wrt (\<lambda>a b. cmp a b \<le> 0)"

lemma sorted_cmp_Nil [simp]: "sorted_cmp cmp []"
  by (simp add: sorted_cmp_def)

lemma sorted_cmp_append:
  "sorted_cmp cmp (xs @ ys) \<longleftrightarrow>
     sorted_cmp cmp xs \<and> sorted_cmp cmp ys \<and> (\<forall>x\<in>set xs. \<forall>y\<in>set ys. cmp x y \<le> 0)"
  by (simp add: sorted_cmp_def sorted_wrt_append)

lemma sorted_cmp_Cons:
  "sorted_cmp cmp (x # xs) \<longleftrightarrow> (\<forall>y\<in>set xs. cmp x y \<le> 0) \<and> sorted_cmp cmp xs"
  by (simp add: sorted_cmp_def)

text \<open>
  Insertion that scans from the right end: after the last element that is not greater. The
  argument is the list in reverse.
\<close>

fun insert_scan :: "('a \<Rightarrow> 'a \<Rightarrow> int) \<Rightarrow> 'a \<Rightarrow> 'a list \<Rightarrow> 'a list" where
  "insert_scan cmp q [] = [q]"
| "insert_scan cmp q (p # ps) = (if cmp p q \<le> 0 then q # p # ps else p # insert_scan cmp q ps)"

definition insert_right :: "('a \<Rightarrow> 'a \<Rightarrow> int) \<Rightarrow> 'a \<Rightarrow> 'a list \<Rightarrow> 'a list" where
  "insert_right cmp q xs = rev (insert_scan cmp q (rev xs))"

lemma insert_scan_split:
  "\<exists>us vs. ps = us @ vs \<and> insert_scan cmp q ps = us @ q # vs
     \<and> (\<forall>u\<in>set us. 0 < cmp u q) \<and> (vs \<noteq> [] \<longrightarrow> cmp (hd vs) q \<le> 0)"
proof (induction ps)
  case Nil
  then show ?case by simp
next
  case (Cons p ps)
  show ?case
  proof (cases "cmp p q \<le> 0")
    case True
    then show ?thesis by (intro exI [of _ "[]"] exI [of _ "p # ps"]) simp
  next
    case False
    from Cons obtain us vs where "ps = us @ vs" "insert_scan cmp q ps = us @ q # vs"
      "\<forall>u\<in>set us. 0 < cmp u q" "vs \<noteq> [] \<longrightarrow> cmp (hd vs) q \<le> 0" by blast
    with False show ?thesis by (intro exI [of _ "p # us"] exI [of _ vs]) auto
  qed
qed

lemma insert_right_split:
  obtains us vs where "xs = us @ vs" "insert_right cmp q xs = us @ q # vs"
    "\<forall>v\<in>set vs. 0 < cmp v q" "us \<noteq> [] \<Longrightarrow> cmp (last us) q \<le> 0"
proof -
  from insert_scan_split [of "rev xs" cmp q]
  obtain us vs where *: "rev xs = us @ vs" "insert_scan cmp q (rev xs) = us @ q # vs"
    "\<forall>u\<in>set us. 0 < cmp u q" "vs \<noteq> [] \<longrightarrow> cmp (hd vs) q \<le> 0" by blast
  from *(1) have "xs = rev vs @ rev us" by (metis rev_append rev_rev_ident)
  with * show thesis
    by (intro that [of "rev vs" "rev us"]) (auto simp: insert_right_def last_rev)
qed

lemma mset_insert_right [simp]: "mset (insert_right cmp q xs) = add_mset q (mset xs)"
proof -
  have "mset (insert_scan cmp q ps) = add_mset q (mset ps)" for ps by (induction ps) auto
  then show ?thesis by (simp add: insert_right_def)
qed

lemma set_insert_right [simp]: "set (insert_right cmp q xs) = insert q (set xs)"
  by (metis mset_insert_right set_mset_add_mset_insert set_mset_mset)

context comparator
begin

lemma sorted_insert_right:
  assumes "sorted_cmp cmp xs" and "set xs \<subseteq> S" and "q \<in> S"
  shows "sorted_cmp cmp (insert_right cmp q xs)"
proof (rule insert_right_split [of xs cmp q])
  fix us vs
  assume xs: "xs = us @ vs" and r: "insert_right cmp q xs = us @ q # vs"
    and vs: "\<forall>v\<in>set vs. 0 < cmp v q" and us: "us \<noteq> [] \<Longrightarrow> cmp (last us) q \<le> 0"
  have "cmp u q \<le> 0" if u: "u \<in> set us" for u
  proof -
    from u have ne: "us \<noteq> []" by auto
    then have us_split: "us = butlast us @ [last us]" by simp
    have "cmp u (last us) \<le> 0"
    proof (cases "u = last us")
      case True
      with u assms(2) xs show ?thesis by (simp add: cmp_refl subset_iff)
    next
      case False
      with u ne have "u \<in> set (butlast us)" by (metis in_set_conv_decomp
          append_butlast_last_id rotate1.simps(2) set_ConsD set_rotate1)
      moreover have "sorted_cmp cmp us" using assms(1) xs by (simp add: sorted_cmp_append)
      ultimately show ?thesis
        by (subst (asm) us_split) (auto simp: sorted_cmp_append)
    qed
    moreover have "cmp (last us) q \<le> 0" using us ne by simp
    ultimately show ?thesis
      using cmp_trans [of u "last us" q] u last_in_set [OF ne] assms(2,3) xs by auto
  qed
  moreover have "cmp q v \<le> 0" if "v \<in> set vs" for v
    using that vs cmp_total [of v q] assms(2,3) xs by auto
  ultimately show ?thesis
    using assms(1) xs r vs by (auto simp: sorted_cmp_append sorted_cmp_Cons)
qed

text \<open>The scan passes only elements greater than the new one, so equal ones keep their order.\<close>

lemma filter_insert_right:
  assumes "set xs \<subseteq> S" and "q \<in> S" and "k \<in> S"
  shows "filter (\<lambda>x. cmp x k = 0) (insert_right cmp q xs) = filter (\<lambda>x. cmp x k = 0) (xs @ [q])"
proof (rule insert_right_split [of xs cmp q])
  fix us vs
  assume xs: "xs = us @ vs" and r: "insert_right cmp q xs = us @ q # vs"
    and vs: "\<forall>v\<in>set vs. 0 < cmp v q"
  show ?thesis
  proof (cases "cmp q k = 0")
    case True
    have "cmp v k \<noteq> 0" if v: "v \<in> set vs" for v
      using v vs cmp_zero_trans [of v k q] cmp_zero_sym [of q k] True assms xs
      by fastforce
    then have "filter (\<lambda>x. cmp x k = 0) vs = []" by (simp add: filter_empty_conv)
    with xs r True show ?thesis by simp
  next
    case False
    with xs r show ?thesis by simp
  qed
qed

end

subsection \<open>Insertion sort from the left, the meaning of hcore_queue_sort\<close>

definition insertion_sort :: "('a \<Rightarrow> 'a \<Rightarrow> int) \<Rightarrow> 'a list \<Rightarrow> 'a list" where
  "insertion_sort cmp xs = foldl (\<lambda>acc q. insert_right cmp q acc) [] xs"

lemma insertion_sort_snoc:
  "insertion_sort cmp (xs @ [q]) = insert_right cmp q (insertion_sort cmp xs)"
  by (simp add: insertion_sort_def)

lemma mset_insertion_sort [simp]: "mset (insertion_sort cmp xs) = mset xs"
  by (induction xs rule: rev_induct) (simp_all add: insertion_sort_snoc, simp add: insertion_sort_def)

lemma set_insertion_sort [simp]: "set (insertion_sort cmp xs) = set xs"
  by (metis mset_insertion_sort set_mset_mset)

context comparator
begin

lemma sorted_insertion_sort: "set xs \<subseteq> S \<Longrightarrow> sorted_cmp cmp (insertion_sort cmp xs)"
proof (induction xs rule: rev_induct)
  case Nil
  then show ?case by (simp add: insertion_sort_def)
next
  case (snoc q xs)
  then show ?case by (simp add: insertion_sort_snoc sorted_insert_right)
qed

lemma stable_insertion_sort:
  "set xs \<subseteq> S \<Longrightarrow> k \<in> S \<Longrightarrow>
     filter (\<lambda>x. cmp x k = 0) (insertion_sort cmp xs) = filter (\<lambda>x. cmp x k = 0) xs"
proof (induction xs rule: rev_induct)
  case Nil
  then show ?case by (simp add: insertion_sort_def)
next
  case (snoc q xs)
  then show ?case by (simp add: insertion_sort_snoc filter_insert_right)
qed

end

end
