(* ===== verification/HQueue.thy ===== *)
theory HQueue
  imports HOrder
begin

section \<open>The intrusive circular queue (include/hcore_queue.h, src/hcore_queue.c)\<close>

text \<open>
  A queue is a ring of nodes linked both ways through a sentinel node, the head. The state is
  the heap of the two link fields; every macro is the sequence of its assignments, each reading
  the heap the previous one left. Loops over the ring are partial functions: \<open>None\<close> is a
  loop that does not end. The comparison callback of hcore_queue_sort is a parameter.
\<close>

subsection \<open>Nodes and the macros\<close>

type_synonym qnode = nat

record qheap =
  qprev :: "qnode \<Rightarrow> qnode"
  qnext :: "qnode \<Rightarrow> qnode"

definition set_qprev :: "qheap \<Rightarrow> qnode \<Rightarrow> qnode \<Rightarrow> qheap" where
  "set_qprev s a v = s\<lparr>qprev := (qprev s)(a := v)\<rparr>"

definition set_qnext :: "qheap \<Rightarrow> qnode \<Rightarrow> qnode \<Rightarrow> qheap" where
  "set_qnext s a v = s\<lparr>qnext := (qnext s)(a := v)\<rparr>"

definition hcore_queue_init :: "qheap \<Rightarrow> qnode \<Rightarrow> qheap" where
  "hcore_queue_init s q = (let s = set_qprev s q q in set_qnext s q q)"

definition hcore_queue_empty :: "qheap \<Rightarrow> qnode \<Rightarrow> bool" where
  "hcore_queue_empty s h \<longleftrightarrow> h = qprev s h"

definition hcore_queue_insert_head :: "qheap \<Rightarrow> qnode \<Rightarrow> qnode \<Rightarrow> qheap" where
  "hcore_queue_insert_head s h x =
     (let s = set_qnext s x (qnext s h);
          s = set_qprev s (qnext s x) x;
          s = set_qprev s x h
      in set_qnext s h x)"

abbreviation hcore_queue_insert_after :: "qheap \<Rightarrow> qnode \<Rightarrow> qnode \<Rightarrow> qheap" where
  "hcore_queue_insert_after \<equiv> hcore_queue_insert_head"

definition hcore_queue_insert_tail :: "qheap \<Rightarrow> qnode \<Rightarrow> qnode \<Rightarrow> qheap" where
  "hcore_queue_insert_tail s h x =
     (let s = set_qprev s x (qprev s h);
          s = set_qnext s (qprev s x) x;
          s = set_qnext s x h
      in set_qprev s h x)"

definition hcore_queue_head :: "qheap \<Rightarrow> qnode \<Rightarrow> qnode" where
  "hcore_queue_head s h = qnext s h"

definition hcore_queue_last :: "qheap \<Rightarrow> qnode \<Rightarrow> qnode" where
  "hcore_queue_last s h = qprev s h"

definition hcore_queue_next :: "qheap \<Rightarrow> qnode \<Rightarrow> qnode" where
  "hcore_queue_next s q = qnext s q"

definition hcore_queue_prev :: "qheap \<Rightarrow> qnode \<Rightarrow> qnode" where
  "hcore_queue_prev s q = qprev s q"

text \<open>The release build's removal, which leaves the links of the removed node as they are.\<close>

definition hcore_queue_remove :: "qheap \<Rightarrow> qnode \<Rightarrow> qheap" where
  "hcore_queue_remove s x =
     (let s = set_qprev s (qnext s x) (qprev s x)
      in set_qnext s (qprev s x) (qnext s x))"

definition hcore_queue_split :: "qheap \<Rightarrow> qnode \<Rightarrow> qnode \<Rightarrow> qnode \<Rightarrow> qheap" where
  "hcore_queue_split s h q n =
     (let s = set_qprev s n (qprev s h);
          s = set_qnext s (qprev s n) n;
          s = set_qnext s n q;
          s = set_qprev s h (qprev s q);
          s = set_qnext s (qprev s h) h
      in set_qprev s q n)"

definition hcore_queue_add :: "qheap \<Rightarrow> qnode \<Rightarrow> qnode \<Rightarrow> qheap" where
  "hcore_queue_add s h n =
     (let s = set_qnext s (qprev s h) (qnext s n);
          s = set_qprev s (qnext s n) (qprev s h);
          s = set_qprev s h (qprev s n)
      in set_qnext s (qprev s h) h)"

definition hcore_queue_add_head :: "qheap \<Rightarrow> qnode \<Rightarrow> qnode \<Rightarrow> qheap" where
  "hcore_queue_add_head s h n =
     (let s = set_qprev s (qnext s h) (qprev s n);
          s = set_qnext s (qprev s n) (qnext s h);
          s = set_qnext s h (qnext s n)
      in set_qprev s (qnext s h) h)"

subsection \<open>hcore_queue_middle\<close>

partial_function (option) queue_middle_loop ::
  "qheap \<Rightarrow> qnode \<Rightarrow> qnode \<Rightarrow> qnode \<Rightarrow> qnode option" where
  "queue_middle_loop s queue middle nxt =
     (let middle = hcore_queue_next s middle; nxt = hcore_queue_next s nxt in
      if nxt = hcore_queue_last s queue then Some middle
      else (let nxt = hcore_queue_next s nxt in
            if nxt = hcore_queue_last s queue then Some middle
            else queue_middle_loop s queue middle nxt))"

definition hcore_queue_middle :: "qheap \<Rightarrow> qnode \<Rightarrow> qnode option" where
  "hcore_queue_middle s queue =
     (let middle = hcore_queue_head s queue in
      if middle = hcore_queue_last s queue then Some middle
      else queue_middle_loop s queue middle (hcore_queue_head s queue))"

subsection \<open>hcore_queue_sort\<close>

text \<open>The do-while loop that looks for the place of \<open>q\<close>, going left from \<open>prev\<close>.\<close>

partial_function (option) queue_sort_scan ::
  "(qnode \<Rightarrow> qnode \<Rightarrow> int) \<Rightarrow> qheap \<Rightarrow> qnode \<Rightarrow> qnode \<Rightarrow> qnode \<Rightarrow> qnode option" where
  "queue_sort_scan cmp s queue prev q =
     (if cmp prev q \<le> 0 then Some prev
      else (let prev = hcore_queue_prev s prev in
            if prev \<noteq> queue then queue_sort_scan cmp s queue prev q else Some prev))"

partial_function (option) queue_sort_loop ::
  "(qnode \<Rightarrow> qnode \<Rightarrow> int) \<Rightarrow> qheap \<Rightarrow> qnode \<Rightarrow> qnode \<Rightarrow> qheap option" where
  "queue_sort_loop cmp s queue q =
     (if q = queue then Some s
      else (let prev = hcore_queue_prev s q; nxt = hcore_queue_next s q;
                s = hcore_queue_remove s q
            in Option.bind (queue_sort_scan cmp s queue prev q)
                 (\<lambda>prev. queue_sort_loop cmp (hcore_queue_insert_after s prev q) queue nxt)))"

definition hcore_queue_sort :: "(qnode \<Rightarrow> qnode \<Rightarrow> int) \<Rightarrow> qheap \<Rightarrow> qnode \<Rightarrow> qheap option" where
  "hcore_queue_sort cmp s queue =
     (let q = hcore_queue_head s queue in
      if q = hcore_queue_last s queue then Some s
      else queue_sort_loop cmp s queue (hcore_queue_next s q))"

subsection \<open>Rings and the lists they hold\<close>

text \<open>\<open>linked s a xs b\<close>: from \<open>a\<close> the links lead through \<open>xs\<close> to \<open>b\<close>, and back.\<close>

fun linked :: "qheap \<Rightarrow> qnode \<Rightarrow> qnode list \<Rightarrow> qnode \<Rightarrow> bool" where
  "linked s a [] b \<longleftrightarrow> qnext s a = b \<and> qprev s b = a"
| "linked s a (x # xs) b \<longleftrightarrow> qnext s a = x \<and> qprev s x = a \<and> linked s x xs b"

definition is_queue :: "qheap \<Rightarrow> qnode \<Rightarrow> qnode list \<Rightarrow> bool" where
  "is_queue s h xs \<longleftrightarrow> distinct (h # xs) \<and> linked s h xs h"

lemma link_reads [heap_simps]:
  "qnext (set_qnext s a v) b = (if b = a then v else qnext s b)"
  "qprev (set_qnext s a v) b = qprev s b"
  "qprev (set_qprev s a v) b = (if b = a then v else qprev s b)"
  "qnext (set_qprev s a v) b = qnext s b"
  by (simp_all add: set_qnext_def set_qprev_def)

lemma linked_set_qnext [heap_simps]:
  "c \<noteq> a \<Longrightarrow> c \<notin> set xs \<Longrightarrow> linked (set_qnext s c v) a xs b = linked s a xs b"
  by (induction xs arbitrary: a) (auto simp: heap_simps)

lemma linked_set_qprev [heap_simps]:
  "c \<noteq> b \<Longrightarrow> c \<notin> set xs \<Longrightarrow> linked (set_qprev s c v) a xs b = linked s a xs b"
  by (induction xs arbitrary: a) (auto simp: heap_simps)

lemma linked_append [simp]:
  "linked s a (xs @ y # ys) b \<longleftrightarrow> linked s a xs y \<and> linked s y ys b"
  by (induction xs arbitrary: a) auto

lemma linked_first: "linked s a xs b \<Longrightarrow> qnext s a = hd (xs @ [b])"
  by (cases xs) auto

lemma linked_last: "linked s a xs b \<Longrightarrow> qprev s b = last (a # xs)"
  by (cases xs rule: rev_cases) auto

lemma is_queue_first: "is_queue s h xs \<Longrightarrow> qnext s h = hd (xs @ [h])"
  by (simp add: is_queue_def linked_first)

lemma is_queue_last: "is_queue s h xs \<Longrightarrow> qprev s h = last (h # xs)"
  by (metis is_queue_def linked_last)

text \<open>A queue is determined by its ring.\<close>

lemma linked_unique:
  "linked s a xs h \<Longrightarrow> linked s a ys h \<Longrightarrow> h \<notin> set xs \<Longrightarrow> h \<notin> set ys \<Longrightarrow> xs = ys"
proof (induction xs arbitrary: a ys)
  case Nil
  then show ?case by (cases ys) auto
next
  case (Cons x xs)
  then show ?case by (cases ys) auto
qed

lemma is_queue_unique: "is_queue s h xs \<Longrightarrow> is_queue s h ys \<Longrightarrow> xs = ys"
  by (auto simp: is_queue_def dest: linked_unique)

lemmas queue_macros =
  hcore_queue_insert_head_def hcore_queue_insert_tail_def hcore_queue_remove_def
  hcore_queue_split_def hcore_queue_add_def hcore_queue_add_head_def hcore_queue_init_def
  Let_def

lemma is_queue_init: "is_queue (hcore_queue_init s h) h []"
  by (simp add: is_queue_def queue_macros heap_simps)

lemma is_queue_empty: "is_queue s h xs \<Longrightarrow> hcore_queue_empty s h \<longleftrightarrow> xs = []"
  by (cases xs rule: rev_cases) (auto simp: is_queue_def hcore_queue_empty_def)

text \<open>Insertion after any node of the ring.\<close>

lemma is_queue_insert_after:
  assumes "is_queue s h (xs @ ys)" and "q \<noteq> h" and "q \<notin> set (xs @ ys)"
  shows "is_queue (hcore_queue_insert_after s (last (h # xs)) q) h (xs @ q # ys)"
  using assms
  by (cases xs rule: rev_cases; cases ys) (auto simp: is_queue_def queue_macros heap_simps)

lemma is_queue_insert_head:
  "is_queue s h xs \<Longrightarrow> q \<noteq> h \<Longrightarrow> q \<notin> set xs \<Longrightarrow>
     is_queue (hcore_queue_insert_head s h q) h (q # xs)"
  using is_queue_insert_after [of s h "[]" xs q] by simp

lemma is_queue_insert_tail:
  "is_queue s h xs \<Longrightarrow> q \<noteq> h \<Longrightarrow> q \<notin> set xs \<Longrightarrow>
     is_queue (hcore_queue_insert_tail s h q) h (xs @ [q])"
  by (cases xs rule: rev_cases) (auto simp: is_queue_def queue_macros heap_simps)

lemma is_queue_remove:
  "is_queue s h (xs @ q # ys) \<Longrightarrow> is_queue (hcore_queue_remove s q) h (xs @ ys)"
  by (cases xs rule: rev_cases; cases ys) (auto simp: is_queue_def queue_macros heap_simps)

lemma is_queue_split:
  assumes "is_queue s h (xs @ q # ys)" and "n \<noteq> h" and "n \<notin> set (xs @ q # ys)"
  shows "is_queue (hcore_queue_split s h q n) h xs \<and> is_queue (hcore_queue_split s h q n) n (q # ys)"
  using assms
  by (cases xs rule: rev_cases; cases ys rule: rev_cases)
    (auto simp: is_queue_def queue_macros heap_simps)

lemma is_queue_add:
  assumes "is_queue s h xs" and "is_queue s n ys" and "set (h # xs) \<inter> set (n # ys) = {}"
  shows "is_queue (hcore_queue_add s h n) h (xs @ ys)"
  using assms
  by (cases xs rule: rev_cases; cases ys; cases "tl ys" rule: rev_cases)
    (auto simp: is_queue_def queue_macros heap_simps)

lemma is_queue_add_head:
  assumes "is_queue s h xs" and "is_queue s n ys" and "set (h # xs) \<inter> set (n # ys) = {}"
  shows "is_queue (hcore_queue_add_head s h n) h (ys @ xs)"
  using assms
  by (cases xs; cases ys; cases "tl ys" rule: rev_cases)
    (auto simp: is_queue_def queue_macros heap_simps)

subsection \<open>The middle\<close>

lemma is_queue_nth_next:
  assumes "is_queue s h xs" and "i < length xs"
  shows "hcore_queue_next s (xs ! i) = (if Suc i < length xs then xs ! Suc i else h)"
proof -
  have split: "xs = take i xs @ xs ! i # drop (Suc i) xs"
    using assms(2) by (simp add: id_take_nth_drop)
  from assms(1) have "linked s (xs ! i) (drop (Suc i) xs) h"
    by (subst (asm) split) (simp add: is_queue_def)
  from linked_first [OF this] show ?thesis
    by (cases "Suc i < length xs") (auto simp: hcore_queue_next_def hd_drop_conv_nth hd_append)
qed

lemma is_queue_nth_last:
  assumes "is_queue s h xs" and "i < length xs"
  shows "xs ! i = hcore_queue_last s h \<longleftrightarrow> Suc i = length xs"
proof -
  from assms have "hcore_queue_last s h = xs ! (length xs - 1)"
    by (auto simp: hcore_queue_last_def is_queue_last last_conv_nth)
  with assms show ?thesis by (auto simp: is_queue_def nth_eq_iff_index_eq)
qed

lemma queue_middle_loop_correct:
  assumes "is_queue s h xs"
  shows "Suc (2 * k) < length xs \<Longrightarrow>
    queue_middle_loop s h (xs ! k) (xs ! (2 * k)) = Some (xs ! (length xs div 2))"
proof (induction "length xs - 2 * k" arbitrary: k rule: less_induct)
  case less
  let ?n = "length xs"
  note nxt = is_queue_nth_next [OF assms] and lst = is_queue_nth_last [OF assms]
  consider "Suc (Suc (2 * k)) = ?n" | "Suc (Suc (Suc (2 * k))) = ?n"
    | "Suc (Suc (Suc (2 * k))) < ?n" using less.prems by linarith
  then show ?case
  proof cases
    case 1
    then have "?n div 2 = Suc k" by linarith
    with 1 less.prems show ?thesis
      by (subst queue_middle_loop.simps) (simp add: Let_def nxt lst)
  next
    case 2
    then have "?n div 2 = Suc k" by linarith
    with 2 less.prems show ?thesis
      by (subst queue_middle_loop.simps) (simp add: Let_def nxt lst)
  next
    case 3
    have "queue_middle_loop s h (xs ! Suc k) (xs ! (2 * Suc k)) = Some (xs ! (?n div 2))"
      using 3 less.prems by (intro less.hyps) auto
    with 3 show ?thesis
      by (subst queue_middle_loop.simps) (simp add: Let_def nxt lst)
  qed
qed

text \<open>C19: hcore_queue_middle returns, and on a queue that holds n > 0 nodes its result is the
  node at position n div 2: the middle one, or the first of the second half.\<close>

theorem queue_middle_correct:
  assumes "is_queue s h xs" and "xs \<noteq> []"
  shows "hcore_queue_middle s h = Some (xs ! (length xs div 2))"
proof (cases "length xs = 1")
  case True
  then obtain x where "xs = [x]" by (auto simp: length_Suc_conv)
  with assms(1) show ?thesis
    by (simp add: hcore_queue_middle_def hcore_queue_head_def hcore_queue_last_def is_queue_def)
next
  case False
  have "hcore_queue_head s h = xs ! 0"
    using assms by (cases xs) (simp_all add: hcore_queue_head_def is_queue_def)
  moreover have "xs ! 0 \<noteq> hcore_queue_last s h"
    using is_queue_nth_last [OF assms(1), of 0] assms(2) False by simp
  moreover have "queue_middle_loop s h (xs ! 0) (xs ! 0) = Some (xs ! (length xs div 2))"
    using queue_middle_loop_correct [OF assms(1), of 0] assms(2) False
    by (cases xs) auto
  ultimately show ?thesis by (simp add: hcore_queue_middle_def)
qed

theorem queue_middle_correct_witness:
  "hcore_queue_middle \<lparr>qprev = (\<lambda>_. 0)(0 := 3, 2 := 1, 3 := 2), qnext = (\<lambda>_. 0)(0 := 1, 1 := 2, 2 := 3)\<rparr> 0
     = Some 2"
proof -
  have "is_queue \<lparr>qprev = (\<lambda>_. 0)(0 := 3, 2 := 1, 3 := 2), qnext = (\<lambda>_. 0)(0 := 1, 1 := 2, 2 := 3)\<rparr> 0 [1, 2, 3]"
    by (simp add: is_queue_def)
  from queue_middle_correct [OF this] show ?thesis by simp
qed

subsection \<open>The sort\<close>

lemma queue_sort_scan_correct:
  assumes "is_queue s h (xs @ ys)" and "xs \<noteq> []"
  shows "\<exists>us vs. xs = us @ vs \<and> queue_sort_scan cmp s h (last xs) q = Some (last (h # us))
    \<and> insert_right cmp q xs = us @ q # vs"
  using assms
proof (induction xs arbitrary: ys rule: rev_induct)
  case Nil
  then show ?case by simp
next
  case (snoc p xs)
  show ?case
  proof (cases "cmp p q \<le> 0")
    case True
    then show ?thesis
      by (intro exI [of _ "xs @ [p]"] exI [of _ "[]"])
        (simp add: insert_right_def queue_sort_scan.simps)
  next
    case False
    have prev: "hcore_queue_prev s p = last (h # xs)"
      using snoc.prems(1) by (auto simp: is_queue_def hcore_queue_prev_def dest: linked_last)
    have ins: "insert_right cmp q (xs @ [p]) = insert_right cmp q xs @ [p]"
      using False by (simp add: insert_right_def)
    show ?thesis
    proof (cases "xs = []")
      case True
      with False prev ins show ?thesis
        by (intro exI [of _ "[]"] exI [of _ "[p]"])
          (simp add: queue_sort_scan.simps insert_right_def)
    next
      case xs: False
      then have ne: "last xs \<noteq> h"
        using snoc.prems(1) last_in_set [of xs] by (auto simp: is_queue_def)
      from snoc.IH [of "p # ys"] snoc.prems(1) xs obtain us vs
        where "xs = us @ vs" "queue_sort_scan cmp s h (last xs) q = Some (last (h # us))"
          "insert_right cmp q xs = us @ q # vs" by auto
      with False prev ins xs ne have "xs @ [p] = us @ (vs @ [p])
          \<and> queue_sort_scan cmp s h (last (xs @ [p])) q = Some (last (h # us))
          \<and> insert_right cmp q (xs @ [p]) = us @ q # (vs @ [p])"
        by (cases "us = []") (simp_all add: queue_sort_scan.simps [of cmp s h p] Let_def)
      then show ?thesis by blast
    qed
  qed
qed

lemma queue_sort_loop_correct:
  assumes "is_queue s h (xs @ ys)" and "xs \<noteq> []"
  shows "\<exists>s'. queue_sort_loop cmp s h (hd (ys @ [h])) = Some s'
    \<and> is_queue s' h (foldl (\<lambda>acc q. insert_right cmp q acc) xs ys)"
  using assms
proof (induction ys arbitrary: s xs)
  case Nil
  then show ?case by (simp add: queue_sort_loop.simps)
next
  case (Cons q ys)
  let ?s = "hcore_queue_remove s q"
  have q: "q \<noteq> h" "q \<notin> set (xs @ ys)" using Cons.prems(1) by (auto simp: is_queue_def)
  have links: "hcore_queue_prev s q = last xs" "hcore_queue_next s q = hd (ys @ [h])"
    using Cons.prems by (auto simp: is_queue_def hcore_queue_prev_def hcore_queue_next_def
        dest: linked_first linked_last)
  have rem: "is_queue ?s h (xs @ ys)" using Cons.prems(1) by (rule is_queue_remove)
  from queue_sort_scan_correct [OF rem Cons.prems(2), of cmp q] obtain us vs
    where xs: "xs = us @ vs" and scan: "queue_sort_scan cmp ?s h (last xs) q = Some (last (h # us))"
      and ins: "insert_right cmp q xs = us @ q # vs" by blast
  let ?t = "hcore_queue_insert_after ?s (last (h # us)) q"
  have "is_queue ?t h (insert_right cmp q xs @ ys)"
    using is_queue_insert_after [of ?s h us "vs @ ys" q] rem q xs ins by simp
  from Cons.IH [OF this] ins obtain s' where
    "queue_sort_loop cmp ?t h (hd (ys @ [h])) = Some s'"
    "is_queue s' h (foldl (\<lambda>acc q. insert_right cmp q acc) (insert_right cmp q xs) ys)" by auto
  then show ?case
    using q scan by (subst queue_sort_loop.simps) (simp add: Let_def links)
qed

text \<open>The ring after the sort, for any callback: it holds the insertion sort of its list.\<close>

lemma queue_sort_refines:
  assumes "is_queue s h xs"
  shows "\<exists>s'. hcore_queue_sort cmp s h = Some s' \<and> is_queue s' h (insertion_sort cmp xs)"
proof (cases "length xs < 2")
  case True
  then have "xs = [] \<or> (\<exists>x. xs = [x])" by (auto simp: less_Suc_eq numeral_2_eq_2 length_Suc_conv)
  then have "hcore_queue_head s h = hcore_queue_last s h" and "insertion_sort cmp xs = xs"
    using assms by (auto simp: hcore_queue_head_def hcore_queue_last_def is_queue_def
        insertion_sort_def insert_right_def)
  with assms show ?thesis by (simp add: hcore_queue_sort_def)
next
  case False
  then obtain x y ys where xs: "xs = x # y # ys" by (cases xs; cases "tl xs") auto
  with assms have "x \<noteq> hcore_queue_last s h" and "hcore_queue_head s h = x"
    and "hcore_queue_next s x = y"
    using is_queue_nth_last [OF assms, of 0]
    by (auto simp: is_queue_def hcore_queue_head_def hcore_queue_next_def)
  then show ?thesis
    using queue_sort_loop_correct [of s h "[x]" "y # ys" cmp] assms xs
    by (simp add: hcore_queue_sort_def insertion_sort_def insert_right_def)
qed

text \<open>C17: hcore_queue_sort terminates and leaves a well-formed ring that holds a permutation of
  its nodes, in the order of the callback, with equal nodes in their old order: it is a stable
  sort in place.\<close>

theorem queue_sort_correct:
  assumes "is_queue s h xs" and "comparator cmp (set xs)"
  shows "\<exists>s' ys. hcore_queue_sort cmp s h = Some s' \<and> is_queue s' h ys \<and> mset ys = mset xs
    \<and> sorted_cmp cmp ys
    \<and> (\<forall>k\<in>set xs. filter (\<lambda>x. cmp x k = 0) ys = filter (\<lambda>x. cmp x k = 0) xs)"
  using queue_sort_refines [OF assms(1), of cmp]
    comparator.sorted_insertion_sort [OF assms(2), of xs]
    comparator.stable_insertion_sort [OF assms(2), of xs]
  by fastforce

text \<open>Three nodes ordered by parity: 2 comes first, 1 and 3 are equal and keep their order.\<close>

theorem queue_sort_correct_witness:
  "\<exists>s' ys. hcore_queue_sort (\<lambda>a b. int (a mod 2) - int (b mod 2))
       \<lparr>qprev = (\<lambda>_. 0)(0 := 3, 2 := 1, 3 := 2), qnext = (\<lambda>_. 0)(0 := 1, 1 := 2, 2 := 3)\<rparr> 0 = Some s'
     \<and> is_queue s' 0 ys \<and> mset ys = {#1, 2, 3#}
     \<and> sorted_cmp (\<lambda>a b. int (a mod 2) - int (b mod 2)) ys"
proof -
  have q: "is_queue \<lparr>qprev = (\<lambda>_. 0)(0 := 3, 2 := 1, 3 := 2), qnext = (\<lambda>_. 0)(0 := 1, 1 := 2, 2 := 3)\<rparr> 0 [1, 2, 3]"
    by (simp add: is_queue_def)
  have "comparator (\<lambda>a b. int (a mod 2) - int (b mod 2)) (set [1, 2, 3])"
    by unfold_locales auto
  from queue_sort_correct [OF q this] show ?thesis by auto
qed

end
