(* ===== verification/HBase.thy ===== *)
theory HBase
  imports HPrelude
begin

section \<open>Base values and arithmetic helpers (hcore_base, hcore_count, hcore_hash)\<close>

text \<open>
  The page size and slab parameters that src/hcore_base.c caches in static variables, the
  alignment macro of include/hcore_base.h, the overflow tests of src/hcore_count.c and the hash
  of src/hcore_hash.c. The page size of the system, the result of getpagesize(), is the
  parameter \<open>sys\<close>.
\<close>

unbundle bit_operations_syntax

subsection \<open>The cached values (src/hcore_base.c)\<close>

record gvars =
  g_hcore_pagesize :: int
  g_hcore_pagesize_shift :: int
  g_hcore_slab_max_size :: int
  g_hcore_slab_exact_size :: int
  g_hcore_slab_exact_shift :: int

definition gvars_init :: gvars where
  "gvars_init = \<lparr>g_hcore_pagesize = -1, g_hcore_pagesize_shift = -1, g_hcore_slab_max_size = -1,
     g_hcore_slab_exact_size = -1, g_hcore_slab_exact_shift = -1\<rparr>"

definition hcore_getpagesize :: "int \<Rightarrow> gvars \<Rightarrow> int \<times> gvars" where
  "hcore_getpagesize sys g =
     (let g = (if g_hcore_pagesize g = -1 then g\<lparr>g_hcore_pagesize := sys\<rparr> else g)
      in (g_hcore_pagesize g, g))"

text \<open>The counting loop \<open>for (n = x; n >>= 1; shift++)\<close>.\<close>

fun shift_loop :: "nat \<Rightarrow> int \<Rightarrow> int" where
  "shift_loop n shift = (if n div 2 \<noteq> 0 then shift_loop (n div 2) (shift + 1) else shift)"

declare shift_loop.simps [simp del]

definition hcore_getpagesize_shift :: "int \<Rightarrow> gvars \<Rightarrow> int \<times> gvars" where
  "hcore_getpagesize_shift sys g =
     (let (pagesize, g) = hcore_getpagesize sys g;
          g = (if g_hcore_pagesize_shift g = -1
               then g\<lparr>g_hcore_pagesize_shift := shift_loop (nat pagesize) (g_hcore_pagesize_shift g)\<rparr>
               else g)
      in (g_hcore_pagesize_shift g, g))"

definition hcore_init_slab :: "int \<Rightarrow> gvars \<Rightarrow> gvars" where
  "hcore_init_slab sys g =
     (let (pagesize, g) = hcore_getpagesize sys g;
          g = g\<lparr>g_hcore_slab_max_size := pagesize div 2\<rparr>;
          g = g\<lparr>g_hcore_slab_exact_size := pagesize div (8 * 8)\<rparr>
      in g\<lparr>g_hcore_slab_exact_shift :=
             shift_loop (nat (g_hcore_slab_exact_size g)) (g_hcore_slab_exact_shift g)\<rparr>)"

definition hcore_get_slab_max_size :: "int \<Rightarrow> gvars \<Rightarrow> int \<times> gvars" where
  "hcore_get_slab_max_size sys g =
     (let g = (if g_hcore_slab_max_size g = -1 then hcore_init_slab sys g else g)
      in (g_hcore_slab_max_size g, g))"

definition hcore_get_slab_exact_size :: "int \<Rightarrow> gvars \<Rightarrow> int \<times> gvars" where
  "hcore_get_slab_exact_size sys g =
     (let g = (if g_hcore_slab_exact_size g = -1 then hcore_init_slab sys g else g)
      in (g_hcore_slab_exact_size g, g))"

definition hcore_get_slab_exact_shift :: "int \<Rightarrow> gvars \<Rightarrow> int \<times> gvars" where
  "hcore_get_slab_exact_shift sys g =
     (let g = (if g_hcore_slab_exact_shift g = -1 then hcore_init_slab sys g else g)
      in (g_hcore_slab_exact_shift g, g))"

definition hcore_process_invoke_once :: "int \<Rightarrow> gvars \<Rightarrow> gvars" where
  "hcore_process_invoke_once sys g =
     (let g = snd (hcore_getpagesize sys g);
          g = snd (hcore_getpagesize_shift sys g)
      in hcore_init_slab sys g)"

lemma shift_loop_power: "shift_loop (2 ^ k) shift = shift + int k"
proof (induction k arbitrary: shift)
  case 0
  then show ?case by (simp add: shift_loop.simps)
next
  case (Suc k)
  then show ?case by (subst shift_loop.simps) simp
qed

text \<open>Started from its initial value -1, the counting loop of hcore_getpagesize_shift stops
  one short: for a page of 2^k bytes the cached shift is k - 1, so shifting 1 by it gives half a
  page; hcore_get_slab_exact_shift is short by one in the same way.\<close>

lemma pagesize_shift_one_short:
  assumes "sys = 2 ^ k" and "7 \<le> k"
  shows "fst (hcore_getpagesize_shift sys gvars_init) = int k - 1
    \<and> 2 * 2 ^ nat (fst (hcore_getpagesize_shift sys gvars_init)) = sys
    \<and> fst (hcore_get_slab_exact_size sys gvars_init) = 2 ^ (k - 6)
    \<and> fst (hcore_get_slab_exact_shift sys gvars_init) = int (k - 6) - 1"
proof -
  have exact: "(2::int) ^ k div 64 = 2 ^ (k - 6)"
    using assms(2) power_diff [of "2::int" 6 k] by simp
  have loops: "shift_loop (nat (2 ^ k)) (- 1) = int k - 1"
    "shift_loop (nat (2 ^ (k - 6))) (- 1) = int (k - 6) - 1"
    by (simp_all add: nat_power_eq shift_loop_power)
  have nat_shift: "nat (int k - 1) = k - 1" using assms(2) by simp
  have "fst (hcore_getpagesize_shift sys gvars_init) = int k - 1"
    using loops assms(1)
    by (simp add: hcore_getpagesize_shift_def hcore_getpagesize_def gvars_init_def Let_def)
  moreover have "2 * 2 ^ nat (int k - 1) = sys"
    using assms unfolding nat_shift by (simp flip: power_Suc)
  moreover have "fst (hcore_get_slab_exact_size sys gvars_init) = 2 ^ (k - 6)"
    "fst (hcore_get_slab_exact_shift sys gvars_init) = int (k - 6) - 1"
    using loops exact assms(1)
    by (simp_all add: hcore_get_slab_exact_shift_def hcore_get_slab_exact_size_def
        hcore_init_slab_def hcore_getpagesize_def gvars_init_def Let_def)
  ultimately show ?thesis by simp
qed

lemma pagesize_shift_one_short_witness:
  "fst (hcore_getpagesize_shift 4096 gvars_init) = 11
     \<and> fst (hcore_get_slab_exact_size 4096 gvars_init) = 64
     \<and> fst (hcore_get_slab_exact_shift 4096 gvars_init) = 5"
  using pagesize_shift_one_short [of 4096 12] by simp

text \<open>Initialising twice counts twice: the loop goes on from the value it left.\<close>

lemma init_slab_not_idempotent:
  "g_hcore_slab_exact_shift (hcore_process_invoke_once 4096
     (snd (hcore_get_slab_exact_shift 4096 gvars_init))) = 11"
proof -
  have "shift_loop 64 s = s + 6" for s using shift_loop_power [of 6 s] by simp
  then show ?thesis
    by (simp add: hcore_process_invoke_once_def hcore_get_slab_exact_shift_def Let_def
        hcore_getpagesize_shift_def hcore_init_slab_def hcore_getpagesize_def gvars_init_def)
qed

subsection \<open>Alignment (include/hcore_base.h)\<close>

definition hcore_align_ptr :: "int \<Rightarrow> int \<Rightarrow> int" where
  "hcore_align_ptr p a = u64 (p + (a - 1)) AND NOT (a - 1)"

lemma and_not_mask_int: "(x::int) AND NOT (mask n) = x div 2 ^ n * 2 ^ n"
proof -
  have "x AND NOT (mask n) = push_bit n (drop_bit n x)"
    by (rule bit_eqI) (auto simp: bit_simps)
  then show ?thesis by (simp add: push_bit_eq_mult drop_bit_eq_div)
qed

lemma hcore_align_ptr_power:
  assumes "0 \<le> p" and "p + 2 ^ n \<le> 18446744073709551616"
  shows "hcore_align_ptr p (2 ^ n) = (p + (2 ^ n - 1)) div 2 ^ n * 2 ^ n"
proof -
  have "1 \<le> (2::int) ^ n" by simp
  then have "u64 (p + (2 ^ n - 1)) = p + (2 ^ n - 1)" using assms by (intro u64_id) linarith+
  then show ?thesis
    by (simp only: hcore_align_ptr_def and_not_mask_int flip: mask_eq_exp_minus_1)
qed

lemma div_mult_bounds:
  fixes p :: int
  assumes "0 < a"
  shows "p \<le> (p + (a - 1)) div a * a" and "(p + (a - 1)) div a * a < p + a"
    and "a dvd (p + (a - 1)) div a * a"
  using assms pos_mod_bound [of a "p + (a - 1)"] pos_mod_sign [of a "p + (a - 1)"]
  unfolding minus_mod_eq_div_mult [symmetric] by (linarith, linarith, simp add: dvd_minus_mod)

lemma hcore_align_ptr_8:
  assumes "0 \<le> p" and "p + 8 \<le> 18446744073709551616"
  shows "p \<le> hcore_align_ptr p 8" and "hcore_align_ptr p 8 < p + 8" and "8 dvd hcore_align_ptr p 8"
proof -
  have "hcore_align_ptr p (2 ^ 3) = (p + (2 ^ 3 - 1)) div 2 ^ 3 * 2 ^ 3"
    using assms by (intro hcore_align_ptr_power) auto
  then have eq: "hcore_align_ptr p 8 = (p + (8 - 1)) div 8 * 8" by simp
  show "p \<le> hcore_align_ptr p 8" "hcore_align_ptr p 8 < p + 8" "8 dvd hcore_align_ptr p 8"
    using div_mult_bounds [of 8 p] unfolding eq by simp_all
qed

lemma hcore_align_ptr_8_fixed:
  assumes "0 \<le> p" and "p + 8 \<le> 18446744073709551616" and "8 dvd p"
  shows "hcore_align_ptr p 8 = p"
  using hcore_align_ptr_8 [OF assms(1,2)] assms(3) by (auto elim!: dvdE)

subsection \<open>Products that overflow (src/hcore_count.c)\<close>

text \<open>
  A signed product that overflows wraps (gcc at run time; the C standard leaves it undefined).
  The division of the least \<open>int\<close> by -1 traps on x86_64: \<open>Fault\<close>.
\<close>

definition hcore_multip_is_overflow :: "int \<Rightarrow> int \<Rightarrow> bool run" where
  "hcore_multip_is_overflow a b =
     (let y = i32 (a * b) in
      if b = 0 then Ret False
      else if y = -2147483648 \<and> b = -1 then Fault
      else Ret (\<not> cdiv y b = a))"

definition hcore_multip_is_overflow_long :: "int \<Rightarrow> int \<Rightarrow> bool run" where
  "hcore_multip_is_overflow_long a b =
     (let y = i64 (a * b) in
      if b = 0 then Ret False
      else if y = -9223372036854775808 \<and> b = -1 then Fault
      else Ret (\<not> cdiv y b = a))"

lemma cdiv_mult_self:
  assumes "b \<noteq> 0"
  shows "cdiv (a * b) b = a"
proof -
  have "sgn b * sgn b = 1" using assms by (cases "0 < b") auto
  then have "sgn (a * b) * sgn b = sgn a" by (simp add: sgn_mult mult.assoc)
  moreover have "\<bar>a * b\<bar> div \<bar>b\<bar> = \<bar>a\<bar>" using assms by (simp add: abs_mult)
  ultimately show ?thesis by (simp add: cdiv_def sgn_mult_abs)
qed

lemma cdiv_remainder: "b \<noteq> 0 \<Longrightarrow> \<bar>y - cdiv y b * b\<bar> < \<bar>b\<bar>"
proof -
  assume b: "b \<noteq> 0"
  have "cdiv y b * b = sgn y * (\<bar>y\<bar> div \<bar>b\<bar> * \<bar>b\<bar>)"
    by (simp add: cdiv_def abs_sgn [of b])
  then have "y - cdiv y b * b = sgn y * (\<bar>y\<bar> mod \<bar>b\<bar>)"
    by (simp add: minus_div_mult_eq_mod [symmetric] right_diff_distrib sgn_mult_abs)
  then have "\<bar>y - cdiv y b * b\<bar> \<le> \<bar>y\<bar> mod \<bar>b\<bar>"
    using b by (simp add: abs_mult abs_sgn_eq pos_mod_sign)
  also have "\<dots> < \<bar>b\<bar>" using b by simp
  finally show ?thesis .
qed

text \<open>A wrapped product differs from the product by a multiple of the modulus, which no remainder
  of the division can make up for.\<close>

lemma overflow_test:
  fixes a b y M :: int
  assumes "b \<noteq> 0" and "\<bar>b\<bar> < M" and "y = a * b - k * M"
  shows "cdiv y b = a \<longleftrightarrow> y = a * b"
proof
  assume "cdiv y b = a"
  then have "\<bar>k\<bar> * M < M"
    using cdiv_remainder [OF assms(1), of y] assms(2,3) by (simp add: abs_mult)
  then have "k = 0" using assms(2) by (auto simp: mult_less_cancel_right2)
  with assms(3) show "y = a * b" by simp
qed (simp add: cdiv_mult_self [OF assms(1)])



subsection \<open>The string hash (src/hcore_hash.c)\<close>

fun hcore_hash_loop :: "word32 \<Rightarrow> byte list \<Rightarrow> word32" where
  "hcore_hash_loop key [] = key"
| "hcore_hash_loop key (c # data) = hcore_hash_loop (key * 31 + ucast c) data"

definition hcore_hash_key :: "byte list \<Rightarrow> word32" where
  "hcore_hash_key data = hcore_hash_loop 0 data"

end
