(* ===== verification/HPool.thy ===== *)
theory HPool
  imports HBase
begin

section \<open>The memory pool (src/hcore_pool.c, include/hcore_pool.h, src/hcore_lib.c)\<close>

text \<open>
  A pool is a chain of equally sized blocks that hand out memory by moving a \<open>last\<close>
  pointer, a list of large allocations taken from malloc, and a list of cleanup handlers.
  Addresses are integers below 2^64. The chain of blocks is the list \<open>pool_blocks\<close> in the
  order of the \<open>d.next\<close> links, the pool structure itself being in the first; a pointer to a
  block is its position in the list. What the code takes from outside, the answers of
  posix_memalign, malloc and a custom pool's callback, are the list \<open>answers\<close> of the
  environment, \<open>None\<close> for a failure; what it does outside (free, the callbacks) is logged in
  \<open>trace\<close>; \<open>mem\<close> is the memory the pool clears and copies.
\<close>

subsection \<open>Outside the pool\<close>

datatype pevent =
  EFree int
| ECustomFree "int option"
| ECustomDestroy
| ECleanup nat "int option"
| EChainFree nat int

record env =
  answers :: "int option list"
  trace :: "pevent list"
  mem :: "int \<Rightarrow> byte"

definition next_answer :: "env \<Rightarrow> int option \<times> env" where
  "next_answer e = (case answers e of [] \<Rightarrow> (None, e) | a # as \<Rightarrow> (a, e\<lparr>answers := as\<rparr>))"

definition log_event :: "pevent \<Rightarrow> env \<Rightarrow> env" where
  "log_event x e = e\<lparr>trace := trace e @ [x]\<rparr>"

definition hcore_malloc :: "int \<Rightarrow> env \<Rightarrow> int option \<times> env" where
  "hcore_malloc sz e = next_answer e"

definition hcore_free :: "int \<Rightarrow> env \<Rightarrow> env" where
  "hcore_free p e = log_event (EFree p) e"

definition hcore_memalign :: "int \<Rightarrow> int \<Rightarrow> env \<Rightarrow> int option \<times> env" where
  "hcore_memalign alignment sz e = next_answer e"

definition hcore_memzero :: "int \<Rightarrow> int \<Rightarrow> env \<Rightarrow> env" where
  "hcore_memzero p n e = e\<lparr>mem := (\<lambda>a. if p \<le> a \<and> a < p + n then 0 else mem e a)\<rparr>"

definition hcore_memcpy :: "int \<Rightarrow> int \<Rightarrow> int \<Rightarrow> env \<Rightarrow> env" where
  "hcore_memcpy dst src n e =
     e\<lparr>mem := (\<lambda>a. if dst \<le> a \<and> a < dst + n then mem e (src + (a - dst)) else mem e a)\<rparr>"

subsection \<open>The structures\<close>

record pblock =
  pb_base :: int
  pb_last :: int
  pb_end :: int
  pb_failed :: int

record plarge =
  pl_node :: int
  pl_alloc :: "int option"

record pcleanup =
  pc_node :: int
  pc_handler :: "nat option"
  pc_data :: "int option"

record hpool =
  pool_blocks :: "pblock list"
  pool_max :: int
  pool_current :: nat
  pool_large :: "plarge list"
  pool_chain :: "int option"
  pool_cleanup :: "pcleanup list"
  pool_customed :: bool

abbreviation (input) sizeof_hcore_pool_t :: int where "sizeof_hcore_pool_t \<equiv> 120"

abbreviation (input) sizeof_hcore_pool_data_t :: int where "sizeof_hcore_pool_data_t \<equiv> 32"

abbreviation (input) sizeof_hcore_pool_large_t :: int where "sizeof_hcore_pool_large_t \<equiv> 16"

abbreviation (input) sizeof_hcore_pool_cleanup_t :: int where "sizeof_hcore_pool_cleanup_t \<equiv> 24"

abbreviation (input) HCORE_POOL_ALIGNMENT :: int where "HCORE_POOL_ALIGNMENT \<equiv> 16"

abbreviation (input) HCORE_ALIGNMENT :: int where "HCORE_ALIGNMENT \<equiv> 8"

subsection \<open>Creation\<close>

definition hcore_create_pool :: "int \<Rightarrow> int \<Rightarrow> env \<Rightarrow> hpool option \<times> env" where
  "hcore_create_pool sys sz e =
     (case hcore_memalign HCORE_POOL_ALIGNMENT sz e of
        (None, e) \<Rightarrow> (None, e)
      | (Some p, e) \<Rightarrow>
          (let blk = \<lparr>pb_base = p, pb_last = u64 (p + sizeof_hcore_pool_t),
                      pb_end = u64 (p + sz), pb_failed = 0\<rparr>;
               sz = u64 (sz - sizeof_hcore_pool_t)
           in (Some \<lparr>pool_blocks = [blk],
                     pool_max = (if sz < sys - 1 then sz else sys - 1),
                     pool_current = 0, pool_large = [], pool_chain = None, pool_cleanup = [],
                     pool_customed = False\<rparr>, e)))"

definition hcore_create_custom_pool :: "int \<Rightarrow> bool \<Rightarrow> env \<Rightarrow> hpool option \<times> env" where
  "hcore_create_custom_pool sys args_given e =
     (if \<not> args_given then (None, e)
      else case hcore_create_pool sys sizeof_hcore_pool_t e of
             (None, e) \<Rightarrow> (None, e)
           | (Some p, e) \<Rightarrow> (Some (p\<lparr>pool_customed := True\<rparr>), e))"

subsection \<open>Small allocations\<close>

text \<open>The do-while loop of hcore_palloc_small over the blocks from the current one on. The free
  space is the unsigned difference of two pointers.\<close>

fun palloc_scan :: "int \<Rightarrow> bool \<Rightarrow> pblock list \<Rightarrow> (int \<times> pblock list) option" where
  "palloc_scan sz align [] = None"
| "palloc_scan sz align (p # ps) =
     (let m = pb_last p;
          m = (if align then hcore_align_ptr m HCORE_ALIGNMENT else m)
      in if sz \<le> u64 (pb_end p - m) then Some (m, p\<lparr>pb_last := u64 (m + sz)\<rparr> # ps)
         else map_option (\<lambda>(a, qs). (a, p # qs)) (palloc_scan sz align ps))"

text \<open>The loop of hcore_palloc_block that counts failures and moves the current block.\<close>

fun palloc_failed :: "nat \<Rightarrow> nat \<Rightarrow> pblock list \<Rightarrow> nat \<times> pblock list" where
  "palloc_failed i current (p # q # ps) =
     (let current = (if 4 < pb_failed p then Suc i else current);
          (current, bs) = palloc_failed (Suc i) current (q # ps)
      in (current, p\<lparr>pb_failed := u32 (pb_failed p + 1)\<rparr> # bs))"
| "palloc_failed i current ps = (current, ps)"

definition hcore_palloc_block :: "hpool \<Rightarrow> int \<Rightarrow> env \<Rightarrow> int option \<times> hpool \<times> env" where
  "hcore_palloc_block pool sz e =
     (let psize = u64 (pb_end (hd (pool_blocks pool)) - pb_base (hd (pool_blocks pool))) in
      case hcore_memalign HCORE_POOL_ALIGNMENT psize e of
        (None, e) \<Rightarrow> (None, pool, e)
      | (Some b, e) \<Rightarrow>
          (let m = hcore_align_ptr (u64 (b + sizeof_hcore_pool_data_t)) HCORE_ALIGNMENT;
               new_pool = \<lparr>pb_base = b, pb_last = u64 (m + sz), pb_end = u64 (b + psize),
                           pb_failed = 0\<rparr>;
               cur = pool_current pool;
               (current, bs) = palloc_failed cur cur (drop cur (pool_blocks pool))
           in (Some m, pool\<lparr>pool_blocks := take cur (pool_blocks pool) @ bs @ [new_pool],
                            pool_current := current\<rparr>, e)))"

definition hcore_palloc_small :: "hpool \<Rightarrow> int \<Rightarrow> bool \<Rightarrow> env \<Rightarrow> int option \<times> hpool \<times> env" where
  "hcore_palloc_small pool sz align e =
     (case palloc_scan sz align (drop (pool_current pool) (pool_blocks pool)) of
        Some (m, bs) \<Rightarrow>
          (Some m, pool\<lparr>pool_blocks := take (pool_current pool) (pool_blocks pool) @ bs\<rparr>, e)
      | None \<Rightarrow> hcore_palloc_block pool sz e)"

subsection \<open>Large allocations\<close>

text \<open>The search for an entry whose memory was freed, among the first five.\<close>

fun large_reuse :: "nat \<Rightarrow> int \<Rightarrow> plarge list \<Rightarrow> plarge list option" where
  "large_reuse n p [] = None"
| "large_reuse n p (l # ls) =
     (if pl_alloc l = None then Some (l\<lparr>pl_alloc := Some p\<rparr> # ls)
      else if 3 < n then None
      else map_option ((#) l) (large_reuse (Suc n) p ls))"

definition hcore_palloc_large :: "hpool \<Rightarrow> int \<Rightarrow> env \<Rightarrow> int option \<times> hpool \<times> env" where
  "hcore_palloc_large pool sz e =
     (case hcore_malloc sz e of
        (None, e) \<Rightarrow> (None, pool, e)
      | (Some p, e) \<Rightarrow>
          (case large_reuse 0 p (pool_large pool) of
             Some ls \<Rightarrow> (Some p, pool\<lparr>pool_large := ls\<rparr>, e)
           | None \<Rightarrow>
               (case hcore_palloc_small pool sizeof_hcore_pool_large_t True e of
                  (None, pool, e) \<Rightarrow> (None, pool, hcore_free p e)
                | (Some l, pool, e) \<Rightarrow>
                    (Some p,
                     pool\<lparr>pool_large := \<lparr>pl_node = l, pl_alloc = Some p\<rparr> # pool_large pool\<rparr>, e))))"

subsection \<open>The interface\<close>

definition hcore_pnalloc :: "hpool \<Rightarrow> int \<Rightarrow> env \<Rightarrow> int option \<times> hpool \<times> env" where
  "hcore_pnalloc pool sz e =
     (if pool_customed pool then (case next_answer e of (r, e) \<Rightarrow> (r, pool, e))
      else if sz \<le> pool_max pool then hcore_palloc_small pool sz False e
      else hcore_palloc_large pool sz e)"

abbreviation hcore_palloc :: "hpool \<Rightarrow> int \<Rightarrow> env \<Rightarrow> int option \<times> hpool \<times> env" where
  "hcore_palloc \<equiv> hcore_pnalloc"

definition hcore_pcalloc :: "hpool \<Rightarrow> int \<Rightarrow> env \<Rightarrow> int option \<times> hpool \<times> env" where
  "hcore_pcalloc pool sz e =
     (case hcore_palloc pool sz e of
        (None, pool, e) \<Rightarrow> (None, pool, e)
      | (Some p, pool, e) \<Rightarrow> (Some p, pool, hcore_memzero p sz e))"

fun large_free :: "int option \<Rightarrow> plarge list \<Rightarrow> plarge list option" where
  "large_free p [] = None"
| "large_free p (l # ls) =
     (if p = pl_alloc l then Some (l\<lparr>pl_alloc := None\<rparr> # ls) else map_option ((#) l) (large_free p ls))"

text \<open>Freeing a null pointer does nothing, so only a real one is logged.\<close>

definition hcore_pfree :: "hpool \<Rightarrow> int option \<Rightarrow> env \<Rightarrow> int \<times> hpool \<times> env" where
  "hcore_pfree pool p e =
     (if pool_customed pool then (HCORE_OK, pool, log_event (ECustomFree p) e)
      else case large_free p (pool_large pool) of
             Some ls \<Rightarrow> (HCORE_OK, pool\<lparr>pool_large := ls\<rparr>,
                         (case p of Some a \<Rightarrow> hcore_free a e | None \<Rightarrow> e))
           | None \<Rightarrow> (HCORE_ERROR, pool, e))"

fun prealloc_extend :: "int \<Rightarrow> int \<Rightarrow> int \<Rightarrow> pblock list \<Rightarrow> pblock list option" where
  "prealloc_extend p old_size new_size [] = None"
| "prealloc_extend p old_size new_size (node # ns) =
     (if u64 (p + old_size) = pb_last node \<and> u64 (p + new_size) \<le> pb_end node
      then Some (node\<lparr>pb_last := u64 (p + new_size)\<rparr> # ns)
      else map_option ((#) node) (prealloc_extend p old_size new_size ns))"

definition hcore_prealloc ::
  "hpool \<Rightarrow> int option \<Rightarrow> int \<Rightarrow> int \<Rightarrow> env \<Rightarrow> int option \<times> hpool \<times> env" where
  "hcore_prealloc pool ptr old_size new_size e =
     (case ptr of
        None \<Rightarrow> hcore_palloc pool new_size e
      | Some p \<Rightarrow>
          if new_size = 0 then
            (case pool_blocks pool of
               b # bs \<Rightarrow>
                 if u64 (p + old_size) = pb_last b
                 then (None, pool\<lparr>pool_blocks := b\<lparr>pb_last := p\<rparr> # bs\<rparr>, e)
                 else (None, snd (hcore_pfree pool ptr e))
             | [] \<Rightarrow> (None, pool, e))
          else
            (case (if old_size \<le> pool_max pool
                   then prealloc_extend p old_size new_size (pool_blocks pool) else None) of
               Some bs \<Rightarrow> (Some p, pool\<lparr>pool_blocks := bs\<rparr>, e)
             | None \<Rightarrow>
                 if new_size \<le> old_size then (Some p, pool, e)
                 else (case hcore_palloc pool new_size e of
                         (None, pool, e) \<Rightarrow> (None, pool, e)
                       | (Some new_p, pool, e) \<Rightarrow>
                           (Some new_p, snd (hcore_pfree pool ptr (hcore_memcpy new_p p old_size e))))))"

definition hcore_pool_cleanup_add ::
  "hpool \<Rightarrow> int \<Rightarrow> env \<Rightarrow> int option \<times> hpool \<times> env" where
  "hcore_pool_cleanup_add pool data_size e =
     (case hcore_palloc pool sizeof_hcore_pool_cleanup_t e of
        (None, pool, e) \<Rightarrow> (None, pool, e)
      | (Some c, pool, e) \<Rightarrow>
          (if data_size \<noteq> 0
           then (case hcore_palloc pool data_size e of
                   (None, pool, e) \<Rightarrow> (None, pool, e)
                 | (Some d, pool, e) \<Rightarrow>
                     (Some c, pool\<lparr>pool_cleanup := \<lparr>pc_node = c, pc_handler = None, pc_data = Some d\<rparr>
                                    # pool_cleanup pool\<rparr>, e))
           else (Some c, pool\<lparr>pool_cleanup := \<lparr>pc_node = c, pc_handler = None, pc_data = None\<rparr>
                               # pool_cleanup pool\<rparr>, e)))"

subsection \<open>Destruction\<close>

fun run_cleanups :: "pcleanup list \<Rightarrow> env \<Rightarrow> env" where
  "run_cleanups [] e = e"
| "run_cleanups (c # cs) e =
     run_cleanups cs (case pc_handler c of Some h \<Rightarrow> log_event (ECleanup h (pc_data c)) e | None \<Rightarrow> e)"

fun free_large :: "plarge list \<Rightarrow> env \<Rightarrow> env" where
  "free_large [] e = e"
| "free_large (l # ls) e =
     free_large ls (case pl_alloc l of Some a \<Rightarrow> hcore_free a e | None \<Rightarrow> e)"

fun free_blocks :: "pblock list \<Rightarrow> env \<Rightarrow> env" where
  "free_blocks [] e = e"
| "free_blocks (p # ps) e = free_blocks ps (hcore_free (pb_base p) e)"

definition hcore_destroy_pool :: "hpool \<Rightarrow> env \<Rightarrow> env" where
  "hcore_destroy_pool pool e =
     (let e = run_cleanups (pool_cleanup pool) e in
      if pool_customed pool then log_event ECustomDestroy e
      else free_blocks (pool_blocks pool) (free_large (pool_large pool) e))"

section \<open>Memory pools: what the allocators keep\<close>

subsection \<open>The interface of an allocator\<close>

definition mem_region :: "int \<times> int \<Rightarrow> int set" where
  "mem_region r = {fst r..<fst r + snd r}"

definition apart :: "'a set list \<Rightarrow> bool" where
  "apart = sorted_wrt (\<lambda>A B. A \<inter> B = {})"

lemma apart_Cons: "apart (A # As) \<longleftrightarrow> (\<forall>B\<in>set As. A \<inter> B = {}) \<and> apart As"
  by (simp add: apart_def)

lemma apart_append:
  "apart (As @ Bs) \<longleftrightarrow> apart As \<and> apart Bs \<and> (\<forall>A\<in>set As. \<forall>B\<in>set Bs. A \<inter> B = {})"
  by (simp add: apart_def sorted_wrt_append)

text \<open>
  What every client of an allocator relies on: \<open>avail s\<close> is the set of byte addresses not
  handed out yet. An allocation takes its region out of that set and gives nothing back to it.
  \<open>alloc_seq\<close> makes the requests of a list and keeps the regions of those that succeed.
\<close>

fun alloc_seq :: "(int \<Rightarrow> 's \<Rightarrow> int option \<times> 's) \<Rightarrow> int list \<Rightarrow> 's \<Rightarrow> (int \<times> int) list \<times> 's" where
  "alloc_seq alloc [] s = ([], s)"
| "alloc_seq alloc (n # ns) s =
     (case alloc n s of (r, t) \<Rightarrow> case alloc_seq alloc ns t of (rs, u) \<Rightarrow>
        ((case r of Some p \<Rightarrow> (p, n) # rs | None \<Rightarrow> rs), u))"

locale region_alloc =
  fixes alloc :: "int \<Rightarrow> 's \<Rightarrow> int option \<times> 's"
    and inv :: "'s \<Rightarrow> bool"
    and avail :: "'s \<Rightarrow> int set"
    and fits :: "int \<Rightarrow> bool"
  assumes alloc_inv: "inv s \<Longrightarrow> fits n \<Longrightarrow> alloc n s = (r, t) \<Longrightarrow> inv t"
    and alloc_avail: "inv s \<Longrightarrow> fits n \<Longrightarrow> alloc n s = (r, t) \<Longrightarrow> avail t \<subseteq> avail s"
    and alloc_fresh: "inv s \<Longrightarrow> fits n \<Longrightarrow> alloc n s = (Some p, t) \<Longrightarrow>
      mem_region (p, n) \<subseteq> avail s \<and> mem_region (p, n) \<inter> avail t = {}"
begin

lemma alloc_seq_regions:
  assumes "inv s" and "\<forall>n\<in>set ns. fits n" and "alloc_seq alloc ns s = (rs, t)"
  shows "inv t \<and> avail t \<subseteq> avail s
    \<and> (\<forall>r\<in>set rs. mem_region r \<subseteq> avail s \<and> mem_region r \<inter> avail t = {})
    \<and> apart (map mem_region rs)"
  using assms
proof (induction ns arbitrary: s rs t)
  case Nil
  then show ?case by (simp add: apart_def)
next
  case (Cons n ns)
  obtain r u where a: "alloc n s = (r, u)" by fastforce
  obtain rs' where rest: "alloc_seq alloc ns u = (rs', t)"
    and rs: "rs = (case r of Some p \<Rightarrow> (p, n) # rs' | None \<Rightarrow> rs')"
    using Cons.prems(3) a by (auto split: prod.splits option.splits)
  have fits: "fits n" using Cons.prems(2) by simp
  have u: "inv u" "avail u \<subseteq> avail s"
    using alloc_inv alloc_avail Cons.prems(1) fits a by blast+
  have IH: "inv t" "avail t \<subseteq> avail u" "apart (map mem_region rs')"
    "\<forall>r\<in>set rs'. mem_region r \<subseteq> avail u \<and> mem_region r \<inter> avail t = {}"
    using Cons.IH [OF u(1) _ rest] Cons.prems(2) by auto
  show ?case
  proof (cases r)
    case None
    then have "rs = rs'" using rs by simp
    then show ?thesis using IH u by blast
  next
    case (Some p)
    then have fresh: "mem_region (p, n) \<subseteq> avail s" "mem_region (p, n) \<inter> avail u = {}"
      using alloc_fresh Cons.prems(1) fits a by blast+
    have "rs = (p, n) # rs'" using rs Some by simp
    moreover have "\<forall>r\<in>set rs'. mem_region (p, n) \<inter> mem_region r = {}" using IH fresh by blast
    moreover have "\<forall>r\<in>set rs'. mem_region r \<subseteq> avail s" "avail t \<subseteq> avail s"
      "mem_region (p, n) \<inter> avail t = {}"
      using IH u fresh by blast+
    ultimately show ?thesis using IH(1,3,4) fresh(1) by (simp add: apart_Cons)
  qed
qed

end

subsection \<open>The invariant of a pool\<close>

definition free_of :: "pblock \<Rightarrow> int set" where
  "free_of b = {pb_last b..<pb_end b}"

definition region_of :: "pblock \<Rightarrow> int set" where
  "region_of b = {pb_base b..<pb_end b}"

definition blk_ok :: "int \<Rightarrow> pblock \<Rightarrow> bool" where
  "blk_ok psz b \<longleftrightarrow> 0 < pb_base b \<and> 16 dvd pb_base b \<and> pb_base b + 32 \<le> pb_last b
     \<and> pb_last b \<le> pb_end b \<and> pb_end b = pb_base b + psz \<and> pb_end b + 8 < 2 ^ 64"

text \<open>
  The invariant. \<open>psz\<close> is the size of every block and \<open>G\<close> a size that each
  answer of the system is good for (posix_memalign was asked for \<open>psz\<close>, malloc for the size
  of the request): every answer is a fresh region, disjoint from the blocks and the other answers.
\<close>

definition answers_of :: "env \<Rightarrow> int list" where
  "answers_of e = List.map_filter id (answers e)"

definition os_ok :: "int \<Rightarrow> env \<Rightarrow> bool" where
  "os_ok G e \<longleftrightarrow> (\<forall>a\<in>set (answers_of e). 0 < a \<and> 16 dvd a \<and> a + G + 8 < 2 ^ 64)"

definition os_regions :: "int \<Rightarrow> env \<Rightarrow> int set list" where
  "os_regions G e = map (\<lambda>a. {a..<a + G}) (answers_of e)"

definition pool_wf :: "int \<Rightarrow> int \<Rightarrow> hpool \<times> env \<Rightarrow> bool" where
  "pool_wf psz G s \<longleftrightarrow>
     (case s of (pool, e) \<Rightarrow>
       pool_blocks pool \<noteq> [] \<and> pool_current pool < length (pool_blocks pool)
       \<and> \<not> pool_customed pool \<and> 120 \<le> psz \<and> 8 dvd psz \<and> psz \<le> G \<and> pool_max pool \<le> psz - 120
       \<and> (\<forall>b\<in>set (pool_blocks pool). blk_ok psz b)
       \<and> pb_base (hd (pool_blocks pool)) + 120 \<le> pb_last (hd (pool_blocks pool))
       \<and> os_ok G e \<and> apart (map region_of (pool_blocks pool) @ os_regions G e))"

definition pool_avail :: "int \<Rightarrow> hpool \<times> env \<Rightarrow> int set" where
  "pool_avail G s = (case s of (pool, e) \<Rightarrow>
     \<Union> (set (map free_of (pool_blocks pool))) \<union> \<Union> (set (os_regions G e)))"

lemma free_region: "blk_ok psz b \<Longrightarrow> free_of b \<subseteq> region_of b"
  by (auto simp: blk_ok_def free_of_def region_of_def)

lemma pow64: "(2::int) ^ 64 = 18446744073709551616" by simp

text \<open>Moving the \<open>last\<close> of one block over a region inside it.\<close>

lemma pool_bump:
  assumes wf: "pool_wf psz G (pool, e)" and bs: "pool_blocks pool = pre @ p # post"
    and m: "pb_last p \<le> m" "m + n \<le> pb_end p" "0 \<le> n"
  defines "pool' \<equiv> pool\<lparr>pool_blocks := pre @ p\<lparr>pb_last := m + n\<rparr> # post\<rparr>"
  shows "pool_wf psz G (pool', e)" and "pool_avail G (pool', e) \<subseteq> pool_avail G (pool, e)"
    and "mem_region (m, n) \<subseteq> pool_avail G (pool, e)"
    and "mem_region (m, n) \<inter> pool_avail G (pool', e) = {}"
proof -
  show "pool_wf psz G (pool', e)"
  proof -
    have "blk_ok psz p" using wf bs by (simp add: pool_wf_def)
    then have "blk_ok psz (p\<lparr>pb_last := m + n\<rparr>)" using m by (simp add: blk_ok_def)
    moreover have "region_of (p\<lparr>pb_last := m + n\<rparr>) = region_of p" by (simp add: region_of_def)
    ultimately show ?thesis using wf m(1,3) unfolding pool_wf_def pool'_def
      by (cases pre) (simp_all add: bs)
  qed
  show "pool_avail G (pool', e) \<subseteq> pool_avail G (pool, e)"
    "mem_region (m, n) \<subseteq> pool_avail G (pool, e)"
    using m by (auto simp: pool'_def pool_avail_def bs free_of_def mem_region_def)
  have p: "mem_region (m, n) \<subseteq> region_of p"
    using wf m bs by (auto simp: pool_wf_def blk_ok_def region_of_def mem_region_def)
  have self: "mem_region (m, n) \<inter> free_of (p\<lparr>pb_last := m + n\<rparr>) = {}"
    by (auto simp: free_of_def mem_region_def)
  have "mem_region (m, n) \<inter> free_of b = {}" if "b \<in> set (pre @ post)" for b
  proof -
    have "free_of b \<subseteq> region_of b" using wf bs free_region that by (auto simp: pool_wf_def)
    moreover have "region_of b \<inter> region_of p = {}"
      using wf bs that by (auto simp: pool_wf_def apart_def sorted_wrt_append)
    ultimately show ?thesis using p by blast
  qed
  moreover have "mem_region (m, n) \<inter> R = {}" if "R \<in> set (os_regions G e)" for R
  proof -
    have "region_of p \<inter> R = {}"
      using wf bs that by (auto simp: pool_wf_def apart_def sorted_wrt_append)
    then show ?thesis using p by blast
  qed
  ultimately show "mem_region (m, n) \<inter> pool_avail G (pool', e) = {}"
    using self unfolding pool'_def pool_avail_def by auto
qed

text \<open>The scan over the blocks bumps one of them.\<close>

lemma palloc_scan_Some:
  assumes "palloc_scan n align bs = Some (m, bs')" and "\<forall>b\<in>set bs. blk_ok psz b"
    and "0 \<le> n" and "8 dvd psz"
  shows "\<exists>pre p post. bs = pre @ p # post \<and> bs' = pre @ p\<lparr>pb_last := m + n\<rparr> # post
    \<and> pb_last p \<le> m \<and> m + n \<le> pb_end p"
  using assms
proof (induction bs arbitrary: bs')
  case Nil
  then show ?case by simp
next
  case (Cons b bs)
  define a where "a = (if align then hcore_align_ptr (pb_last b) HCORE_ALIGNMENT else pb_last b)"
  have b: "blk_ok psz b" using Cons.prems(2) by simp
  have a: "pb_last b \<le> a" "a \<le> pb_end b"
  proof -
    have range: "0 \<le> pb_last b" "pb_last b + 8 \<le> 18446744073709551616" "8 dvd pb_end b"
      using b Cons.prems(4) by (auto simp: blk_ok_def)
    show "pb_last b \<le> a" using hcore_align_ptr_8(1) [OF range(1,2)] by (simp add: a_def)
    have "hcore_align_ptr (pb_last b) 8 \<le> pb_end b"
      using hcore_align_ptr_8(2,3) [OF range(1,2)] range(3) b
      by (auto simp: blk_ok_def elim!: dvdE)
    then show "a \<le> pb_end b" using b by (simp add: a_def blk_ok_def)
  qed
  have diff: "u64 (pb_end b - a) = pb_end b - a"
    using a b by (intro u64_id) (auto simp: blk_ok_def)
  have scan: "palloc_scan n align (b # bs) =
      (if n \<le> pb_end b - a then Some (a, b\<lparr>pb_last := u64 (a + n)\<rparr> # bs)
       else map_option (\<lambda>(a, qs). (a, b # qs)) (palloc_scan n align bs))"
    by (simp only: palloc_scan.simps Let_def diff flip: a_def)
  show ?case
  proof (cases "n \<le> pb_end b - a")
    case True
    have "u64 (a + n) = a + n" using True a b Cons.prems(3) by (intro u64_id) (auto simp: blk_ok_def)
    then have "m = a \<and> bs' = b\<lparr>pb_last := a + n\<rparr> # bs"
      using Cons.prems(1) True unfolding scan by auto
    then show ?thesis using a(1) True by (intro exI [of _ "[]"] exI [of _ b] exI [of _ bs]) simp
  next
    case False
    then obtain cs where "palloc_scan n align bs = Some (m, cs)" and bs': "bs' = b # cs"
      using Cons.prems(1) unfolding scan by auto
    with Cons.IH [of cs] Cons.prems(2-4) obtain pre p post where
      "bs = pre @ p # post" "cs = pre @ p\<lparr>pb_last := m + n\<rparr> # post" "pb_last p \<le> m" "m + n \<le> pb_end p"
      by auto
    then show ?thesis using bs' by (intro exI [of _ "b # pre"] exI [of _ p] exI [of _ post]) simp
  qed
qed

text \<open>Counting failures changes no region.\<close>

definition blk_view :: "pblock \<Rightarrow> int \<times> int \<times> int" where
  "blk_view b = (pb_base b, pb_last b, pb_end b)"

lemma blk_view_failed [simp]: "blk_view (b\<lparr>pb_failed := n\<rparr>) = blk_view b"
  by (simp add: blk_view_def)

lemma palloc_failed_view:
  "palloc_failed i c bs = (c', bs') \<Longrightarrow>
     map blk_view bs' = map blk_view bs \<and> (c' = c \<or> i < c' \<and> c' < i + length bs)"
proof (induction i c bs arbitrary: c' bs' rule: palloc_failed.induct)
  case (1 i current p q ps)
  define d where "d = (if 4 < pb_failed p then Suc i else current)"
  obtain ds where rest: "palloc_failed (Suc i) d (q # ps) = (c', ds)"
    and bs': "bs' = p\<lparr>pb_failed := u32 (pb_failed p + 1)\<rparr> # ds"
    using 1(2) by (auto simp: Let_def d_def split: prod.splits)
  have "map blk_view ds = map blk_view (q # ps) \<and> (c' = d \<or> Suc i < c' \<and> c' < Suc i + length (q # ps))"
    using 1(1) d_def rest by blast
  then show ?case by (auto simp: bs' d_def split: if_splits)
qed auto

lemma blk_view_cong:
  assumes "map blk_view bs' = map blk_view bs"
  shows "length bs' = length bs" and "map region_of bs' = map region_of bs"
    and "map free_of bs' = map free_of bs"
    and "(\<forall>b\<in>set bs'. blk_ok psz b) \<longleftrightarrow> (\<forall>b\<in>set bs. blk_ok psz b)"
proof -
  show "length bs' = length bs" using assms by (rule map_eq_imp_length_eq)
  have *: "map (f \<circ> blk_view) bs' = map (f \<circ> blk_view) bs" for f :: "_ \<Rightarrow> 'b"
    using assms by (metis map_map)
  show "map region_of bs' = map region_of bs"
    using * [of "\<lambda>(b, l, e). {b..<e}"] by (simp add: comp_def blk_view_def region_of_def [abs_def])
  show "map free_of bs' = map free_of bs"
    using * [of "\<lambda>(b, l, e). {l..<e}"] by (simp add: comp_def blk_view_def free_of_def [abs_def])
  show "(\<forall>b\<in>set bs'. blk_ok psz b) \<longleftrightarrow> (\<forall>b\<in>set bs. blk_ok psz b)"
  proof -
    define P where "P = (\<lambda>(b, l, e). blk_ok psz \<lparr>pb_base = b, pb_last = l, pb_end = e, pb_failed = 0\<rparr>)"
    have "P (blk_view b) = blk_ok psz b" for b by (simp add: P_def blk_view_def blk_ok_def)
    then have "(\<forall>b\<in>set cs. blk_ok psz b) \<longleftrightarrow> (\<forall>v\<in>set (map blk_view cs). P v)" for cs by simp
    then show ?thesis using assms by (simp only:)
  qed
qed

subsection \<open>Every allocation keeps the invariant\<close>

definition alloc_ok ::
  "int \<Rightarrow> int \<Rightarrow> int \<Rightarrow> hpool \<times> env \<Rightarrow> int option \<Rightarrow> hpool \<times> env \<Rightarrow> bool" where
  "alloc_ok psz G n s r t \<longleftrightarrow> pool_wf psz G t \<and> pool_avail G t \<subseteq> pool_avail G s
     \<and> (\<forall>m. r = Some m \<longrightarrow>
           mem_region (m, n) \<subseteq> pool_avail G s \<and> mem_region (m, n) \<inter> pool_avail G t = {})"

lemma alloc_ok_trans:
  "alloc_ok psz G n s r t \<Longrightarrow> alloc_ok psz G k t r' u \<Longrightarrow> alloc_ok psz G n s r u"
  unfolding alloc_ok_def by blast

lemma alloc_ok_fail: "alloc_ok psz G n s r t \<Longrightarrow> alloc_ok psz G k s None t"
  unfolding alloc_ok_def by simp

lemma next_answer_None: "next_answer e = (None, e') \<Longrightarrow> answers_of e' = answers_of e"
  by (auto simp: next_answer_def answers_of_def map_filter_simps split: list.splits)

lemma next_answer_Some: "next_answer e = (Some b, e') \<Longrightarrow> answers_of e = b # answers_of e'"
  by (auto simp: next_answer_def answers_of_def map_filter_simps split: list.splits)

text \<open>Only the answers, the blocks, the current block and the maximum matter to the invariant.\<close>

lemma pool_wf_cong:
  assumes "answers_of e' = answers_of e" and "pool_blocks q = pool_blocks p"
    and "pool_current q = pool_current p" and "pool_max q = pool_max p"
    and "pool_customed q = pool_customed p"
  shows "pool_wf psz G (q, e') = pool_wf psz G (p, e)" and "pool_avail G (q, e') = pool_avail G (p, e)"
  using assms by (simp_all add: pool_wf_def pool_avail_def os_ok_def os_regions_def)

lemma alloc_ok_os:
  assumes wf: "pool_wf psz G (pool, e)" and n: "0 \<le> n" "n \<le> G" and a: "next_answer e = (r, e')"
  shows "alloc_ok psz G n (pool, e) r (pool, e')"
proof (cases r)
  case None
  then show ?thesis using wf a pool_wf_cong [OF next_answer_None, of e e' pool pool]
    by (simp add: alloc_ok_def)
next
  case (Some b)
  then have ans: "answers_of e = b # answers_of e'" using a next_answer_Some by simp
  have mem: "mem_region (b, n) \<subseteq> {b..<b + G}" using n by (auto simp: mem_region_def)
  have wf': "pool_wf psz G (pool, e')"
    using wf ans by (auto simp: pool_wf_def os_ok_def os_regions_def apart_append apart_Cons)
  have disj: "free_of x \<inter> {b..<b + G} = {}" if "x \<in> set (pool_blocks pool)" for x
  proof -
    have "region_of x \<inter> {b..<b + G} = {}" "free_of x \<subseteq> region_of x"
      using wf ans that free_region
      by (auto simp: pool_wf_def os_regions_def apart_append apart_Cons)
    then show ?thesis by blast
  qed
  have disj': "R \<inter> {b..<b + G} = {}" if "R \<in> set (os_regions G e')" for R
    using wf ans that by (auto simp: pool_wf_def os_regions_def apart_append apart_Cons)
  have avail: "pool_avail G (pool, e) = {b..<b + G} \<union> pool_avail G (pool, e')"
    by (auto simp: pool_avail_def os_regions_def ans)
  have "pool_avail G (pool, e') \<inter> {b..<b + G} = {}"
    using disj disj' by (auto simp: pool_avail_def)
  then show ?thesis using wf' mem avail Some unfolding alloc_ok_def by blast
qed

lemma region_append_free:
  assumes "blk_ok psz b" "psz \<le> G"
  shows "region_of b \<subseteq> {pb_base b..<pb_base b + G}" and "free_of b \<subseteq> {pb_base b..<pb_base b + G}"
  using assms by (auto simp: blk_ok_def region_of_def free_of_def)

lemma new_block_ok:
  assumes "0 < b" "16 dvd b" "b + G + 8 < 2 ^ 64" and n: "0 \<le> n" "32 + n \<le> psz" "psz \<le> G"
  shows "hcore_align_ptr (u64 (b + 32)) 8 = b + 32" and "u64 (b + 32 + n) = b + 32 + n"
    and "u64 (b + psz) = b + psz"
    and "blk_ok psz \<lparr>pb_base = b, pb_last = b + 32 + n, pb_end = b + psz, pb_failed = 0\<rparr>"
proof -
  have "u64 (b + 32) = b + 32" "8 dvd b + 32"
    using assms by (auto intro!: u64_id elim!: dvdE)
  then show "hcore_align_ptr (u64 (b + 32)) 8 = b + 32"
    using assms by (simp add: hcore_align_ptr_8_fixed)
  show "u64 (b + 32 + n) = b + 32 + n" "u64 (b + psz) = b + psz" using assms by (auto intro!: u64_id)
  show "blk_ok psz \<lparr>pb_base = b, pb_last = b + 32 + n, pb_end = b + psz, pb_failed = 0\<rparr>"
    using assms by (simp add: blk_ok_def)
qed

lemma apart_shrink: "apart (As @ B # Cs) \<Longrightarrow> B' \<subseteq> B \<Longrightarrow> apart (As @ B' # Cs)"
  by (auto simp: apart_append apart_Cons)

text \<open>Appending a block at an address the system gave.\<close>

lemma pool_extend:
  assumes wf: "pool_wf psz G (pool, e)" and n: "0 \<le> n" "32 + n \<le> psz"
    and ans: "answers_of e = b # answers_of e1"
    and view: "map blk_view as = map blk_view (pool_blocks pool)" and c: "c \<le> length as"
    and new: "new = \<lparr>pb_base = b, pb_last = b + 32 + n, pb_end = b + psz, pb_failed = 0\<rparr>"
    and pool': "pool' = pool\<lparr>pool_blocks := as @ [new], pool_current := c\<rparr>"
  shows "alloc_ok psz G n (pool, e) (Some (b + 32)) (pool', e1)"
proof -
  note cong = blk_view_cong [OF view]
  have b: "0 < b" "16 dvd b" "b + G + 8 < 2 ^ 64" and G: "psz \<le> G" "120 \<le> psz"
    using wf ans by (auto simp: pool_wf_def os_ok_def)
  have new_ok: "blk_ok psz new" using new_block_ok(4) [OF b n G(1)] new by simp
  have hd_as: "pb_base (hd as) = pb_base (hd (pool_blocks pool))"
    "pb_last (hd as) = pb_last (hd (pool_blocks pool))" "as \<noteq> []"
    using view wf by (cases as; cases "pool_blocks pool"; simp add: blk_view_def pool_wf_def)+
  have apart: "apart (map region_of as @ {b..<b + G} # os_regions G e1)"
    using wf ans cong(2) by (simp add: pool_wf_def os_regions_def)
  have reg: "region_of new \<subseteq> {b..<b + G}" "free_of new \<subseteq> {b..<b + G}"
    using region_append_free [OF new_ok G(1)] new by simp_all
  have "apart (map region_of as @ region_of new # os_regions G e1)"
    using apart reg(1) by (rule apart_shrink)
  then have wf': "pool_wf psz G (pool', e1)"
    using wf pool' ans cong(4) [of psz] new_ok hd_as c
    by (auto simp: pool_wf_def os_ok_def)
  have av: "pool_avail G (pool, e) = \<Union> (set (map free_of as)) \<union> {b..<b + G} \<union> \<Union> (set (os_regions G e1))"
    using ans cong(3) by (auto simp: pool_avail_def os_regions_def)
  have av': "pool_avail G (pool', e1) = \<Union> (set (map free_of as)) \<union> free_of new \<union> \<Union> (set (os_regions G e1))"
    using pool' by (auto simp: pool_avail_def)
  have mem: "mem_region (b + 32, n) \<subseteq> {b..<b + G}" "mem_region (b + 32, n) \<inter> free_of new = {}"
    using n G by (auto simp: mem_region_def free_of_def new)
  have d1: "free_of x \<inter> {b..<b + G} = {}" if "x \<in> set as" for x
  proof -
    have "region_of x \<inter> {b..<b + G} = {}" "free_of x \<subseteq> region_of x"
      using apart that wf cong(4) [of psz] free_region
      by (auto simp: apart_append apart_Cons pool_wf_def)
    then show ?thesis by blast
  qed
  have d2: "R \<inter> {b..<b + G} = {}" if "R \<in> set (os_regions G e1)" for R
    using apart that by (auto simp: apart_append apart_Cons)
  have "mem_region (b + 32, n) \<inter> pool_avail G (pool', e1) = {}"
  proof -
    have "\<Union> (set (map free_of as)) \<inter> {b..<b + G} = {}" "\<Union> (set (os_regions G e1)) \<inter> {b..<b + G} = {}"
      using d1 d2 by (auto simp only: Union_disjoint set_map)
    then show ?thesis unfolding av' using mem by blast
  qed
  then show ?thesis using wf' mem(1) reg(2) unfolding alloc_ok_def av av' by blast
qed

lemma palloc_block_cases:
  assumes wf: "pool_wf psz G (pool, e)" and n: "0 \<le> n" "32 + n \<le> psz"
    and run: "hcore_palloc_block pool n e = (r, pool', e')"
  shows "alloc_ok psz G n (pool, e) r (pool', e')
    \<and> (\<forall>m. r = Some m \<longrightarrow> (\<exists>b. next_answer e = (Some b, e') \<and> m = b + 32))"
proof (cases "next_answer e")
  case (Pair ans e1)
  have hd_ok: "blk_ok psz (hd (pool_blocks pool))" and G: "psz \<le> G" "120 \<le> psz"
    using wf by (auto simp: pool_wf_def)
  have psize: "u64 (pb_end (hd (pool_blocks pool)) - pb_base (hd (pool_blocks pool))) = psz"
    using hd_ok G by (auto simp: blk_ok_def intro!: u64_id)
  show ?thesis
  proof (cases ans)
    case None
    then show ?thesis using run Pair wf psize pool_wf_cong [OF next_answer_None, of e e1 pool pool]
      by (auto simp: hcore_palloc_block_def hcore_memalign_def alloc_ok_def)
  next
    case (Some b)
    let ?cur = "pool_current pool"
    have ans: "answers_of e = b # answers_of e1" using Pair Some next_answer_Some by simp
    then have b: "0 < b" "16 dvd b" "b + G + 8 < 2 ^ 64"
      using wf by (auto simp: pool_wf_def os_ok_def)
    note new = new_block_ok [OF b n G(1)]
    obtain c fs where f: "palloc_failed ?cur ?cur (drop ?cur (pool_blocks pool)) = (c, fs)"
      by fastforce
    note fv = palloc_failed_view [OF f]
    have view: "map blk_view (take ?cur (pool_blocks pool) @ fs) = map blk_view (pool_blocks pool)"
      using fv by (metis append_take_drop_id map_append)
    have c: "c \<le> length (take ?cur (pool_blocks pool) @ fs)"
      using fv wf blk_view_cong(1) [OF view] by (auto simp: pool_wf_def)
    have out: "r = Some (b + 32)" "e' = e1"
      "pool' = pool\<lparr>pool_blocks := (take ?cur (pool_blocks pool) @ fs)
         @ [\<lparr>pb_base = b, pb_last = b + 32 + n, pb_end = b + psz, pb_failed = 0\<rparr>], pool_current := c\<rparr>"
      using run Pair Some f psize new
      by (auto simp: hcore_palloc_block_def hcore_memalign_def Let_def)
    show ?thesis using pool_extend [OF wf n ans view c refl out(3)] out Pair Some by simp
  qed
qed

lemma palloc_small_ok:
  assumes wf: "pool_wf psz G (pool, e)" and n: "0 \<le> n" "32 + n \<le> psz"
    and run: "hcore_palloc_small pool n align e = (r, pool', e')"
  shows "alloc_ok psz G n (pool, e) r (pool', e')"
proof (cases "palloc_scan n align (drop (pool_current pool) (pool_blocks pool))")
  case None
  then show ?thesis using run palloc_block_cases [OF wf n] by (simp add: hcore_palloc_small_def)
next
  case (Some mb)
  let ?bs = "pool_blocks pool" and ?cur = "pool_current pool"
  obtain m bs' where mb: "mb = (m, bs')" by fastforce
  have "\<forall>b\<in>set (drop ?cur ?bs). blk_ok psz b" "8 dvd psz"
    using wf by (auto simp: pool_wf_def dest: in_set_dropD)
  with palloc_scan_Some [OF Some [unfolded mb]] n(1) obtain pre p post where
    "drop ?cur ?bs = pre @ p # post" "bs' = pre @ p\<lparr>pb_last := m + n\<rparr> # post"
    and m: "pb_last p \<le> m" "m + n \<le> pb_end p" by blast
  then have split: "?bs = (take ?cur ?bs @ pre) @ p # post"
    "take ?cur ?bs @ bs' = (take ?cur ?bs @ pre) @ p\<lparr>pb_last := m + n\<rparr> # post"
    by (metis append.assoc append_take_drop_id, simp)
  have "r = Some m" "e' = e" "pool' = pool\<lparr>pool_blocks := take ?cur ?bs @ bs'\<rparr>"
    using run Some mb by (auto simp: hcore_palloc_small_def)
  then show ?thesis
    using pool_bump [OF wf split(1) m n(1)] unfolding alloc_ok_def split(2) by simp
qed

lemma alloc_ok_pool_cong:
  assumes "alloc_ok psz G n s r (q, e)" and "answers_of e' = answers_of e"
    and "pool_blocks p = pool_blocks q" and "pool_current p = pool_current q"
    and "pool_max p = pool_max q" and "pool_customed p = pool_customed q"
  shows "alloc_ok psz G n s r (p, e')"
  using assms pool_wf_cong [of e' e p q] by (simp add: alloc_ok_def)

lemma palloc_large_ok:
  assumes wf: "pool_wf psz G (pool, e)" and n: "0 \<le> n" "n \<le> G"
    and run: "hcore_palloc_large pool n e = (r, pool', e')"
  shows "alloc_ok psz G n (pool, e) r (pool', e')"
proof (cases "next_answer e")
  case (Pair ans e1)
  note os = alloc_ok_os [OF wf n Pair]
  show ?thesis
  proof (cases ans)
    case None
    then show ?thesis using run Pair os by (auto simp: hcore_palloc_large_def hcore_malloc_def)
  next
    case (Some p)
    show ?thesis
    proof (cases "large_reuse 0 p (pool_large pool)")
      case (Some ls)
      then have "r = Some p" "pool' = pool\<lparr>pool_large := ls\<rparr>" "e' = e1"
        using run Pair \<open>ans = Some p\<close> by (auto simp: hcore_palloc_large_def hcore_malloc_def)
      then show ?thesis using alloc_ok_pool_cong [OF os, of e1 pool'] \<open>ans = Some p\<close> by simp
    next
      case None
      obtain l q e2 where small: "hcore_palloc_small pool 16 True e1 = (l, q, e2)"
        by (metis prod_cases3)
      have wf1: "pool_wf psz G (pool, e1)" and psz: "120 \<le> psz"
        using os by (auto simp: alloc_ok_def pool_wf_def)
      have "alloc_ok psz G 16 (pool, e1) l (q, e2)"
        using palloc_small_ok [OF wf1 _ _ small] psz by simp
      from alloc_ok_trans [OF os this] have both: "alloc_ok psz G n (pool, e) (Some p) (q, e2)"
        using \<open>ans = Some p\<close> by simp
      show ?thesis
      proof (cases l)
        case None
        then have "r = None" "pool' = q" "e' = hcore_free p e2"
          using run Pair \<open>ans = Some p\<close> \<open>large_reuse 0 p _ = None\<close> small
          by (auto simp: hcore_palloc_large_def hcore_malloc_def)
        then show ?thesis using alloc_ok_pool_cong [OF alloc_ok_fail [OF both], of e' pool']
          by (simp add: hcore_free_def log_event_def answers_of_def)
      next
        case (Some a)
        then have "r = Some p" "e' = e2"
          "pool' = q\<lparr>pool_large := \<lparr>pl_node = a, pl_alloc = Some p\<rparr> # pool_large q\<rparr>"
          using run Pair \<open>ans = Some p\<close> \<open>large_reuse 0 p _ = None\<close> small
          by (auto simp: hcore_palloc_large_def hcore_malloc_def)
        then show ?thesis using alloc_ok_pool_cong [OF both, of e' pool'] by simp
      qed
    qed
  qed
qed

lemma pnalloc_ok:
  assumes wf: "pool_wf psz G (pool, e)" and n: "0 \<le> n" "n \<le> G"
    and run: "hcore_pnalloc pool n e = (r, pool', e')"
  shows "alloc_ok psz G n (pool, e) r (pool', e')"
proof -
  have "\<not> pool_customed pool" "pool_max pool \<le> psz - 120" using wf by (simp_all add: pool_wf_def)
  then show ?thesis
    using run palloc_small_ok [OF wf n(1), of False] palloc_large_ok [OF wf n]
    by (auto simp: hcore_pnalloc_def split: if_splits)
qed

text \<open>hcore_pnalloc on the pool provides the interface; the clients below use its facts.\<close>

definition pnalloc_step :: "int \<Rightarrow> hpool \<times> env \<Rightarrow> int option \<times> (hpool \<times> env)" where
  "pnalloc_step n s = hcore_pnalloc (fst s) n (snd s)"

interpretation pool_region: region_alloc pnalloc_step "pool_wf psz G" "pool_avail G"
  "\<lambda>n. 0 \<le> n \<and> n \<le> G" for psz G
proof
  fix s t r p and n :: int
  assume wf: "pool_wf psz G s" and n: "0 \<le> n \<and> n \<le> G"
  have ok: "pnalloc_step n s = (r, t) \<Longrightarrow> alloc_ok psz G n s r t" for r
    using pnalloc_ok [of psz G "fst s" "snd s" n r "fst t" "snd t"] wf n
    by (simp add: pnalloc_step_def)
  show "pnalloc_step n s = (r, t) \<Longrightarrow> pool_wf psz G t"
    "pnalloc_step n s = (r, t) \<Longrightarrow> pool_avail G t \<subseteq> pool_avail G s"
    using ok by (simp_all add: alloc_ok_def)
  show "pnalloc_step n s = (Some p, t) \<Longrightarrow>
    mem_region (p, n) \<subseteq> pool_avail G s \<and> mem_region (p, n) \<inter> pool_avail G t = {}"
    using ok by (simp add: alloc_ok_def)
qed

lemma create_pool_wf:
  assumes run: "hcore_create_pool sys sz e = (Some pool, e1)"
    and sz: "120 \<le> sz" "8 dvd sz" "sz \<le> G" and os: "os_ok G e" "apart (os_regions G e)"
  shows "pool_wf sz G (pool, e1)"
    and "pool_avail G (pool, e1) \<inter> {pb_base (hd (pool_blocks pool))..<pb_base (hd (pool_blocks pool)) + 120} = {}"
proof -
  obtain p where nx: "next_answer e = (Some p, e1)"
    using run by (auto simp: hcore_create_pool_def hcore_memalign_def Let_def
        split: prod.splits option.splits)
  note ans = next_answer_Some [OF nx]
  have p: "0 < p" "16 dvd p" "p + G + 8 < 18446744073709551616"
    using os ans by (auto simp: os_ok_def)
  have ids: "u64 (p + 120) = p + 120" "u64 (p + sz) = p + sz" "u64 (sz - 120) = sz - 120"
    using p sz by (auto intro!: u64_id)
  have pool: "pool_blocks pool = [\<lparr>pb_base = p, pb_last = p + 120, pb_end = p + sz, pb_failed = 0\<rparr>]"
    "pool_current pool = 0" "\<not> pool_customed pool" "pool_max pool \<le> sz - 120"
    using run nx ids by (auto simp: hcore_create_pool_def hcore_memalign_def Let_def)
  let ?b = "\<lparr>pb_base = p, pb_last = p + 120, pb_end = p + sz, pb_failed = 0\<rparr>"
  have "apart ([] @ {p..<p + G} # os_regions G e1)" using os(2) ans by (simp add: os_regions_def)
  moreover have "region_of ?b \<subseteq> {p..<p + G}" using sz by (auto simp: region_of_def)
  ultimately have ap: "apart ([] @ region_of ?b # os_regions G e1)" by (rule apart_shrink)
  then show "pool_wf sz G (pool, e1)"
    using p sz pool ans os(1) by (simp add: pool_wf_def blk_ok_def os_ok_def)
  have "R \<inter> {p..<p + 120} = {}" if "R \<in> set (os_regions G e1)" for R
  proof -
    have "region_of ?b \<inter> R = {}" using ap that by (simp add: apart_Cons)
    moreover have "{p..<p + 120} \<subseteq> region_of ?b" using sz by (auto simp: region_of_def)
    ultimately show ?thesis by blast
  qed
  then show "pool_avail G (pool, e1) \<inter>
      {pb_base (hd (pool_blocks pool))..<pb_base (hd (pool_blocks pool)) + 120} = {}"
    unfolding pool_avail_def using pool(1) by (auto simp: free_of_def)
qed

subsection \<open>Properties\<close>



lemma run_cleanups_trace:
  "run_cleanups cs e = e\<lparr>trace := trace e @
     map (\<lambda>c. ECleanup (the (pc_handler c)) (pc_data c)) (filter (\<lambda>c. pc_handler c \<noteq> None) cs)\<rparr>"
  by (induction cs arbitrary: e) (auto simp: log_event_def split: option.splits)

lemma free_large_trace:
  "free_large ls e = e\<lparr>trace := trace e @ map EFree (List.map_filter pl_alloc ls)\<rparr>"
  by (induction ls arbitrary: e)
    (auto simp: log_event_def hcore_free_def map_filter_simps split: option.splits)

lemma free_blocks_trace:
  "free_blocks bs e = e\<lparr>trace := trace e @ map (EFree \<circ> pb_base) bs\<rparr>"
  by (induction bs arbitrary: e) (auto simp: log_event_def hcore_free_def)

lemma apart_distinct_bases:
  "apart (map region_of bs @ Rs) \<Longrightarrow> (\<forall>b\<in>set bs. blk_ok psz b) \<Longrightarrow> distinct (map pb_base bs)"
proof (induction bs)
  case (Cons b bs)
  have "pb_base b \<noteq> pb_base c" if "c \<in> set bs" for c
  proof -
    have "region_of b \<inter> region_of c = {}" using Cons.prems(1) that by (auto simp: apart_Cons)
    moreover have "pb_base b \<in> region_of b" "pb_base c \<in> region_of c"
      using Cons.prems(2) that by (auto simp: blk_ok_def region_of_def)
    ultimately show ?thesis by auto
  qed
  then show ?case using Cons by (auto simp: apart_Cons)
qed simp

text \<open>C22: hcore_destroy_pool runs the cleanup handlers in the order of the list, then frees every
  large allocation that is still alive and every block, each block exactly once.\<close>

theorem pool_destroy_frees_once:
  assumes "pool_wf psz G (pool, e)"
  shows "trace (hcore_destroy_pool pool e) = trace e
      @ map (\<lambda>c. ECleanup (the (pc_handler c)) (pc_data c))
          (filter (\<lambda>c. pc_handler c \<noteq> None) (pool_cleanup pool))
      @ map EFree (List.map_filter pl_alloc (pool_large pool))
      @ map (EFree \<circ> pb_base) (pool_blocks pool)
    \<and> distinct (map pb_base (pool_blocks pool))"
  using assms apart_distinct_bases [of "pool_blocks pool"]
  by (auto simp: hcore_destroy_pool_def pool_wf_def run_cleanups_trace free_large_trace
      free_blocks_trace Let_def)

definition sample_pool :: hpool where
  "sample_pool = \<lparr>pool_blocks = [\<lparr>pb_base = 65536, pb_last = 65700, pb_end = 65792, pb_failed = 0\<rparr>],
     pool_max = 136, pool_current = 0, pool_large = [\<lparr>pl_node = 65656, pl_alloc = Some 131072\<rparr>],
     pool_chain = None, pool_cleanup = [\<lparr>pc_node = 65672, pc_handler = Some 7, pc_data = None\<rparr>],
     pool_customed = False\<rparr>"

definition sample_env :: env where
  "sample_env = \<lparr>answers = [Some 262144], trace = [], mem = \<lambda>_. 0\<rparr>"

lemma sample_wf: "pool_wf 256 4096 (sample_pool, sample_env)"
  by (simp add: pool_wf_def sample_pool_def sample_env_def blk_ok_def os_ok_def answers_of_def
      map_filter_simps os_regions_def apart_def region_of_def)

theorem pool_destroy_frees_once_witness:
  "trace (hcore_destroy_pool sample_pool sample_env) = [ECleanup 7 None, EFree 131072, EFree 65536]"
  using pool_destroy_frees_once [OF sample_wf]
  by (simp add: sample_pool_def sample_env_def map_filter_simps)

lemma large_free_Some:
  "p \<in> set (map pl_alloc ls) \<Longrightarrow>
     \<exists>pre l post. ls = pre @ l # post \<and> pl_alloc l = p \<and> p \<notin> set (map pl_alloc pre)
       \<and> large_free p ls = Some (pre @ l\<lparr>pl_alloc := None\<rparr> # post)"
proof (induction ls)
  case (Cons l ls)
  show ?case
  proof (cases "p = pl_alloc l")
    case True
    then show ?thesis by (intro exI [of _ "[]"]) auto
  next
    case False
    with Cons obtain pre k post where "ls = pre @ k # post \<and> pl_alloc k = p \<and> p \<notin> set (map pl_alloc pre)
       \<and> large_free p ls = Some (pre @ k\<lparr>pl_alloc := None\<rparr> # post)" by auto
    then show ?thesis using False by (intro exI [of _ "l # pre"] exI [of _ k] exI [of _ post]) auto
  qed
qed simp

lemma set_map_filter_Some: "a \<in> set (List.map_filter f xs) \<longleftrightarrow> Some a \<in> set (map f xs)"
  by (induction xs) (auto simp: map_filter_simps split: option.splits)

lemma large_free_None: "large_free p ls = None \<longleftrightarrow> p \<notin> set (map pl_alloc ls)"
  by (induction ls) auto

text \<open>Hcore_pfree releases a live large allocation exactly once: the first call frees it and
  answers HCORE_OK, a second call with the same pointer frees nothing and answers
  HCORE_ERROR.\<close>

theorem pool_pfree_once:
  assumes "\<not> pool_customed pool" and "distinct (List.map_filter pl_alloc (pool_large pool))"
    and "Some a \<in> set (map pl_alloc (pool_large pool))"
    and "hcore_pfree pool (Some a) e = (rc, pool1, e1)"
  shows "rc = HCORE_OK \<and> trace e1 = trace e @ [EFree a]
    \<and> hcore_pfree pool1 (Some a) e1 = (HCORE_ERROR, pool1, e1)"
proof -
  obtain pre l post where ls: "pool_large pool = pre @ l # post" "pl_alloc l = Some a"
    and pre: "Some a \<notin> set (map pl_alloc pre)"
    and fr: "large_free (Some a) (pool_large pool) = Some (pre @ l\<lparr>pl_alloc := None\<rparr> # post)"
    using large_free_Some [OF assms(3)] by blast
  have "Some a \<notin> set (map pl_alloc post)"
  proof
    assume "Some a \<in> set (map pl_alloc post)"
    then have "a \<in> set (List.map_filter pl_alloc post)"
      by (simp only: set_map_filter_Some)
    then show False using assms(2) ls by (simp add: map_filter_simps List.map_filter_def)
  qed
  then have "large_free (Some a) (pre @ l\<lparr>pl_alloc := None\<rparr> # post) = None"
    using pre by (simp add: large_free_None)
  then show ?thesis
    using assms(1,4) fr by (auto simp: hcore_pfree_def hcore_free_def log_event_def)
qed

theorem pool_pfree_once_witness:
  "\<exists>pool1 e1. hcore_pfree sample_pool (Some 131072) sample_env = (0, pool1, e1)
     \<and> trace e1 = [EFree 131072] \<and> hcore_pfree pool1 (Some 131072) e1 = (-1, pool1, e1)"
proof -
  obtain rc pool1 e1 where r: "hcore_pfree sample_pool (Some 131072) sample_env = (rc, pool1, e1)"
    by (metis prod_cases3)
  have "rc = 0 \<and> trace e1 = trace sample_env @ [EFree 131072]
    \<and> hcore_pfree pool1 (Some 131072) e1 = (-1, pool1, e1)"
    using pool_pfree_once [OF _ _ _ r] by (simp add: sample_pool_def map_filter_simps)
  then show ?thesis using r by (simp add: sample_env_def)
qed

lemma prealloc_extend_at:
  assumes "u64 (p + old) = p + old" "u64 (p + new) = p + new"
    and "\<forall>c\<in>set pre. pb_last c \<noteq> p + old" and "p + old = pb_last b" and "p + new \<le> pb_end b"
  shows "prealloc_extend p old new (pre @ b # post) = Some (pre @ b\<lparr>pb_last := p + new\<rparr> # post)"
  using assms by (induction pre) auto

text \<open>C21: hcore_prealloc on the region that ends at the \<open>last\<close> pointer of a block, with room
  behind it, resizes in place: it returns the same pointer and moves that pointer only; when
  the region grows, the added bytes were free.\<close>

theorem pool_prealloc_in_place:
  assumes wf: "pool_wf psz G (pool, e)" and bs: "pool_blocks pool = pre @ b # post"
    and p: "pb_base b + 32 \<le> p" "p + old = pb_last b" "0 \<le> old" "old \<le> pool_max pool"
    and new: "0 < new" "p + new \<le> pb_end b"
  shows "hcore_prealloc pool (Some p) old new e
      = (Some p, pool\<lparr>pool_blocks := pre @ b\<lparr>pb_last := p + new\<rparr> # post\<rparr>, e)
    \<and> mem_region (p + old, new - old) \<subseteq> pool_avail G (pool, e)"
proof -
  have b: "blk_ok psz b" using wf bs by (simp add: pool_wf_def)
  have ids: "u64 (p + old) = p + old" "u64 (p + new) = p + new"
    using p new b by (auto simp: blk_ok_def intro!: u64_id)
  have "pb_last c \<noteq> p + old" if "c \<in> set pre" for c
  proof -
    have c: "blk_ok psz c" and "region_of c \<inter> region_of b = {}"
      using wf bs that by (auto simp: pool_wf_def apart_append)
    then have "pb_last b - 1 \<in> region_of b" "pb_last b - 1 \<notin> region_of c"
      using b by (auto simp: blk_ok_def region_of_def)
    then show ?thesis using c p(2) by (auto simp: blk_ok_def region_of_def)
  qed
  then have "prealloc_extend p old new (pool_blocks pool) = Some (pre @ b\<lparr>pb_last := p + new\<rparr> # post)"
    unfolding bs using ids p(2) new(2) by (intro prealloc_extend_at) auto
  moreover have "mem_region (p + old, new - old) \<subseteq> pool_avail G (pool, e)"
    using p new bs by (auto simp: mem_region_def pool_avail_def free_of_def)
  ultimately show ?thesis using p(4) new(1) by (simp add: hcore_prealloc_def)
qed

theorem pool_prealloc_in_place_witness:
  "\<exists>pool'. hcore_prealloc sample_pool (Some 65690) 10 50 sample_env = (Some 65690, pool', sample_env)
     \<and> map pb_last (pool_blocks pool') = [65740]"
  using pool_prealloc_in_place [OF sample_wf, of "[]" _ "[]" 65690 10 50]
  by (simp add: sample_pool_def)

abbreviation (input) offsetof_hcore_pool_t_d :: int where "offsetof_hcore_pool_t_d \<equiv> 32"

text \<open>Hcore_palloc_block reserves sizeof(hcore_pool_data_t) bytes at the start of a new block,
  but the structure it fills in (\<open>d\<close>, after the \<open>custom\<close> member of 32 bytes) is at offset 32 of
  the block: the region it returns starts on the block's own \<open>last\<close> pointer.\<close>

lemma pool_block_hands_out_its_header:
  assumes "pool_wf psz G (pool, e)" and "1 \<le> n" and "32 + n \<le> psz"
    and "hcore_palloc_block pool n e = (Some m, pool', e')"
  shows "\<exists>b. next_answer e = (Some b, e') \<and> pb_base (last (pool_blocks pool')) = b
    \<and> m = b + offsetof_hcore_pool_t_d
    \<and> mem_region (m, n) \<inter> mem_region (b + offsetof_hcore_pool_t_d, sizeof_hcore_pool_data_t) \<noteq> {}"
proof -
  obtain b where b: "next_answer e = (Some b, e')" "m = b + 32"
    using palloc_block_cases [OF assms(1) _ assms(3,4)] assms(2) by auto
  moreover have "pb_base (last (pool_blocks pool')) = b"
    using assms(4) b(1) by (auto simp: hcore_palloc_block_def hcore_memalign_def Let_def split: prod.splits)
  moreover have "m \<in> mem_region (m, n) \<inter> mem_region (b + 32, 32)"
    using assms(2) b(2) by (simp add: mem_region_def)
  ultimately show ?thesis by blast
qed

lemma pool_block_hands_out_its_header_witness:
  "\<exists>pool' e'. hcore_palloc_block sample_pool 100 sample_env = (Some 262176, pool', e')
     \<and> mem_region (262176, 100) \<inter> mem_region (262144 + 32, 32) \<noteq> {}"
proof -
  obtain pool' e' where r: "hcore_palloc_block sample_pool 100 sample_env = (Some 262176, pool', e')"
    by (simp add: hcore_palloc_block_def hcore_memalign_def next_answer_def sample_pool_def
        sample_env_def u64_def hcore_align_ptr_def Let_def)
  show ?thesis
    using pool_block_hands_out_its_header [OF sample_wf _ _ r] r
    by (auto simp: next_answer_def sample_env_def)
qed

text \<open>The aligned allocation for the list of large blocks does not check that the aligned pointer is
  still inside the block: behind a block whose end is not a multiple of 8 the unsigned difference
  wraps and the node is placed past the end.\<close>

lemma palloc_align_past_end:
  "palloc_scan sizeof_hcore_pool_large_t True
     [\<lparr>pb_base = 65536, pb_last = 65657, pb_end = 65657, pb_failed = 0\<rparr>]
   = Some (65664, [\<lparr>pb_base = 65536, pb_last = 65680, pb_end = 65657, pb_failed = 0\<rparr>])"
  by (simp add: hcore_align_ptr_def u64_def)

subsection \<open>What the other components use\<close>

text \<open>Allocating never touches memory that is in use; hcore_pnalloc itself writes none at all.\<close>

lemma next_answer_mem: "next_answer e = (r, e') \<Longrightarrow> mem e' = mem e"
  by (auto simp: next_answer_def split: list.splits)

lemma palloc_block_mem: "hcore_palloc_block pool n e = (r, pool', e') \<Longrightarrow> mem e' = mem e"
  by (auto simp: hcore_palloc_block_def hcore_memalign_def Let_def next_answer_mem
      split: prod.splits option.splits)

lemma palloc_small_mem: "hcore_palloc_small pool n align e = (r, pool', e') \<Longrightarrow> mem e' = mem e"
  by (auto simp: hcore_palloc_small_def palloc_block_mem split: option.splits)

lemma palloc_large_mem: "hcore_palloc_large pool n e = (r, pool', e') \<Longrightarrow> mem e' = mem e"
  by (auto simp: hcore_palloc_large_def hcore_malloc_def hcore_free_def log_event_def
      dest!: next_answer_mem palloc_small_mem split: prod.splits option.splits)

lemma pnalloc_mem: "hcore_pnalloc pool n e = (r, pool', e') \<Longrightarrow> mem e' = mem e"
  by (auto simp: hcore_pnalloc_def next_answer_mem palloc_small_mem palloc_large_mem
      split: if_splits prod.splits)

lemma pool_avail_bounds:
  assumes "pool_wf psz G s" and "x \<in> pool_avail G s"
  shows "0 < x \<and> x < 18446744073709551608"
proof (cases s)
  case (Pair pool e)
  have "\<forall>b\<in>set (pool_blocks pool). blk_ok psz b" "os_ok G e" using assms(1) Pair by (simp_all add: pool_wf_def)
  then show ?thesis using assms(2) Pair
    by (fastforce simp: pool_avail_def free_of_def blk_ok_def os_ok_def os_regions_def)
qed

lemma region_bounds:
  assumes "pool_wf psz G s" and "mem_region (p, n) \<subseteq> pool_avail G s" and "0 < n"
  shows "0 < p" and "p + n < 18446744073709551609"
proof -
  have "p \<in> pool_avail G s" "p + n - 1 \<in> pool_avail G s"
    using assms(2,3) by (auto simp: mem_region_def)
  then show "0 < p" "p + n < 18446744073709551609" using pool_avail_bounds [OF assms(1)] by force+
qed

lemma memcpy_reads:
  "0 \<le> k \<Longrightarrow> k < n \<Longrightarrow> mem (hcore_memcpy d s n e) (d + k) = mem e (s + k)"
  "x \<notin> mem_region (d, n) \<Longrightarrow> mem (hcore_memcpy d s n e) x = mem e x"
  by (auto simp: hcore_memcpy_def mem_region_def)

lemma memzero_reads:
  "x \<in> mem_region (d, n) \<Longrightarrow> mem (hcore_memzero d n e) x = 0"
  "x \<notin> mem_region (d, n) \<Longrightarrow> mem (hcore_memzero d n e) x = mem e x"
  by (auto simp: hcore_memzero_def mem_region_def)

lemma mem_only_answers [simp]:
  "answers_of (e\<lparr>mem := f\<rparr>) = answers_of e"
  "answers_of (hcore_memcpy d s n e) = answers_of e"
  "answers_of (hcore_memzero d n e) = answers_of e"
  by (simp_all add: answers_of_def hcore_memcpy_def hcore_memzero_def)

lemma pool_mem_cong [simp]:
  "pool_wf psz G (pool, e\<lparr>mem := f\<rparr>) = pool_wf psz G (pool, e)"
  "pool_avail G (pool, e\<lparr>mem := f\<rparr>) = pool_avail G (pool, e)"
  "pool_wf psz G (pool, hcore_memcpy d s n e) = pool_wf psz G (pool, e)"
  "pool_avail G (pool, hcore_memcpy d s n e) = pool_avail G (pool, e)"
  "pool_wf psz G (pool, hcore_memzero d n e) = pool_wf psz G (pool, e)"
  "pool_avail G (pool, hcore_memzero d n e) = pool_avail G (pool, e)"
  by (rule pool_wf_cong; simp)+

end
