(* ===== verification/HMap.thy ===== *)
theory HMap
  imports HPool
begin

section \<open>The bitmap (src/hcore_map.c, include/hcore_map.h)\<close>

text \<open>
  A map of \<open>size\<close> positions, counted from 1, kept as bits of a byte array in pool memory. The
  descriptor is a record; its bytes are the addresses \<open>m .. m + n - 1\<close> of the memory of
  \<open>HPool\<close>. The abstraction is the set of positions that are set; the lemmas show what each
  operation does to that set, hcore_map_unset_range included, which sets the whole bytes inside
  its range instead of clearing them.
\<close>

unbundle bit_operations_syntax

subsection \<open>Data and operations\<close>

record hmap =
  mp_m :: int
  mp_n :: int
  mp_size :: int

abbreviation (input) sizeof_hcore_map_t :: int where "sizeof_hcore_map_t \<equiv> 24"

definition mem_write :: "int \<Rightarrow> byte \<Rightarrow> env \<Rightarrow> env" where
  "mem_write a v e = e\<lparr>mem := (mem e)(a := v)\<rparr>"

definition HCORE_SET_MAP :: "byte \<Rightarrow> nat \<Rightarrow> byte" where
  "HCORE_SET_MAP m b = m OR push_bit b 1"

definition HCORE_UNSET_MAP :: "byte \<Rightarrow> nat \<Rightarrow> byte" where
  "HCORE_UNSET_MAP m b = m AND NOT (push_bit b 1)"

text \<open>The result of hcore_init_map and the initialised structure; \<open>map_given\<close> is false for a null
  pointer.\<close>

definition hcore_init_map :: "bool \<Rightarrow> hpool \<Rightarrow> int \<Rightarrow> env \<Rightarrow> int \<times> hmap option \<times> hpool \<times> env" where
  "hcore_init_map map_given pool sz e =
     (if \<not> map_given then (HCORE_ERROR, None, pool, e)
      else let n = u32 (sz div 8 + (if sz mod 8 \<noteq> 0 then 1 else 0)) in
           case hcore_pcalloc pool n e of
             (None, pool, e) \<Rightarrow> (HCORE_ERROR, None, pool, e)
           | (Some m, pool, e) \<Rightarrow> (HCORE_OK, Some \<lparr>mp_m = m, mp_n = n, mp_size = sz\<rparr>, pool, e))"

definition hcore_create_map :: "hpool \<Rightarrow> int \<Rightarrow> env \<Rightarrow> hmap option \<times> hpool \<times> env" where
  "hcore_create_map pool sz e =
     (case hcore_pcalloc pool sizeof_hcore_map_t e of
        (None, pool, e) \<Rightarrow> (None, pool, e)
      | (Some _, pool, e) \<Rightarrow>
          (case hcore_init_map True pool sz e of
             (rc, mp, pool, e) \<Rightarrow> if rc \<noteq> HCORE_OK then (None, pool, e) else (mp, pool, e)))"

definition hcore_map_get_m :: "hmap option \<Rightarrow> int \<Rightarrow> (int \<times> nat) option" where
  "hcore_map_get_m mp pos =
     (case mp of None \<Rightarrow> None
      | Some t \<Rightarrow>
          if pos = 0 \<or> mp_size t < pos then None
          else let pos = pos - 1; i = pos div 8; b = pos mod 8 in
               if mp_n t \<le> i \<or> 7 < b then None else Some (mp_m t + i, nat b))"

definition hcore_map_set_bit :: "hmap option \<Rightarrow> int \<Rightarrow> bool \<Rightarrow> env \<Rightarrow> int \<times> env" where
  "hcore_map_set_bit mp pos is_set e =
     (case hcore_map_get_m mp pos of
        None \<Rightarrow> (HCORE_ERROR, e)
      | Some (m, b) \<Rightarrow>
          (HCORE_OK, mem_write m (if is_set then HCORE_SET_MAP (mem e m) b
                                  else HCORE_UNSET_MAP (mem e m) b) e))"

definition hcore_map_set :: "hmap option \<Rightarrow> int \<Rightarrow> env \<Rightarrow> int \<times> env" where
  "hcore_map_set mp pos e = hcore_map_set_bit mp pos True e"

definition hcore_map_unset :: "hmap option \<Rightarrow> int \<Rightarrow> env \<Rightarrow> int \<times> env" where
  "hcore_map_unset mp pos e = hcore_map_set_bit mp pos False e"

text \<open>The loops over the bits of one byte, and over the bytes between the first and the last.\<close>

fun map_bits :: "bool \<Rightarrow> nat list \<Rightarrow> byte \<Rightarrow> byte" where
  "map_bits is_set [] m = m"
| "map_bits is_set (i # is) m =
     map_bits is_set is (if is_set then HCORE_SET_MAP m i else HCORE_UNSET_MAP m i)"

function map_fill :: "int \<Rightarrow> int \<Rightarrow> env \<Rightarrow> env" where
  "map_fill p em e = (if p < em then map_fill (p + 1) em (mem_write p 0xff e) else e)"
  by auto
termination by (relation "measure (\<lambda>(p, em, e). nat (em - p))") auto

declare map_fill.simps [simp del]

definition hcore_map_set_bits :: "hmap option \<Rightarrow> int \<Rightarrow> int \<Rightarrow> bool \<Rightarrow> env \<Rightarrow> int \<times> env" where
  "hcore_map_set_bits mp bp ep is_set e =
     (case hcore_map_get_m mp bp of
        None \<Rightarrow> (HCORE_ERROR, e)
      | Some (bm, b_bit) \<Rightarrow>
          (case hcore_map_get_m mp ep of
             None \<Rightarrow> (HCORE_ERROR, e)
           | Some (em, e_bit) \<Rightarrow>
               (let e = (if bm \<noteq> em then
                           (let e = mem_write bm (map_bits is_set [b_bit..<8] (mem e bm)) e
                            in mem_write em (map_bits is_set [0..<Suc e_bit] (mem e em)) e)
                         else mem_write bm (map_bits is_set [b_bit..<Suc e_bit] (mem e bm)) e)
                in (HCORE_OK, map_fill (bm + 1) em e))))"

definition hcore_map_set_range :: "hmap option \<Rightarrow> int \<Rightarrow> int \<Rightarrow> env \<Rightarrow> int \<times> env" where
  "hcore_map_set_range mp bp ep e = hcore_map_set_bits mp bp ep True e"

definition hcore_map_unset_range :: "hmap option \<Rightarrow> int \<Rightarrow> int \<Rightarrow> env \<Rightarrow> int \<times> env" where
  "hcore_map_unset_range mp bp ep e = hcore_map_set_bits mp bp ep False e"

definition hcore_map_is_set :: "hmap option \<Rightarrow> int \<Rightarrow> env \<Rightarrow> int" where
  "hcore_map_is_set mp pos e =
     (case hcore_map_get_m mp pos of
        None \<Rightarrow> HCORE_ERROR
      | Some (m, b) \<Rightarrow> uint (mem e m AND push_bit b 1))"

subsection \<open>The abstraction\<close>

definition map_ok :: "hmap \<Rightarrow> bool" where
  "map_ok mp \<longleftrightarrow> 0 < mp_m mp \<and> 0 \<le> mp_size mp \<and> mp_n mp = (mp_size mp + 7) div 8"

definition map_abs :: "hmap \<Rightarrow> env \<Rightarrow> int set" where
  "map_abs mp e = {pos. 1 \<le> pos \<and> pos \<le> mp_size mp
     \<and> bit (mem e (mp_m mp + (pos - 1) div 8)) (nat ((pos - 1) mod 8))}"

lemma get_m_Some:
  assumes "map_ok mp" and "1 \<le> pos" and "pos \<le> mp_size mp"
  shows "hcore_map_get_m (Some mp) pos = Some (mp_m mp + (pos - 1) div 8, nat ((pos - 1) mod 8))"
proof -
  have "(pos - 1) div 8 < mp_n mp" using assms by (auto simp: map_ok_def)
  then show ?thesis using assms by (simp add: hcore_map_get_m_def Let_def)
qed

lemma get_m_None: "pos < 1 \<Longrightarrow> 0 \<le> pos \<Longrightarrow> hcore_map_get_m (Some mp) pos = None"
  "mp_size mp < pos \<Longrightarrow> hcore_map_get_m (Some mp) pos = None"
  by (auto simp: hcore_map_get_m_def)

lemma lex_le:
  fixes a b r t :: int
  assumes "0 \<le> r" "r < 8" "0 \<le> t" "t < 8"
  shows "a * 8 + r \<le> b * 8 + t \<longleftrightarrow> a < b \<or> a = b \<and> r \<le> t"
  using assms by (cases "a < b"; cases "a = b") auto

lemma position_le:
  "(x::int) \<le> y \<longleftrightarrow> x div 8 < y div 8 \<or> x div 8 = y div 8 \<and> nat (x mod 8) \<le> nat (y mod 8)"
  using lex_le [of "x mod 8" "y mod 8" "x div 8" "y div 8"] by (simp add: nat_le_eq_zle)

lemma same_position:
  "(x::int) div 8 = y div 8 \<Longrightarrow> nat (x mod 8) = nat (y mod 8) \<Longrightarrow> x = y"
  using position_le [of x y] position_le [of y x] by simp

lemma same_position_1: "(x - 1) div 8 = (y - 1) div 8 \<Longrightarrow> nat ((x - 1) mod 8) = nat ((y - 1) mod 8) \<Longrightarrow> x = (y::int)"
  using same_position [of "x - 1" "y - 1"] by simp

lemma bit_set_map: "b < 8 \<Longrightarrow> bit (HCORE_SET_MAP m b) k \<longleftrightarrow> k = b \<or> bit m k"
  and bit_unset_map: "b < 8 \<Longrightarrow> bit (HCORE_UNSET_MAP m b) k \<longleftrightarrow> k \<noteq> b \<and> bit m k"
  by (auto simp: HCORE_SET_MAP_def HCORE_UNSET_MAP_def bit_simps dest: byte_bit_bound)

lemma bit_map_bits:
  "\<forall>i\<in>set is. i < 8 \<Longrightarrow> bit (map_bits v is m) k \<longleftrightarrow> (if k \<in> set is then v else bit m k)"
  by (induction "is" arbitrary: m) (auto simp: bit_set_map bit_unset_map)

lemma mem_write_read [simp]: "mem (mem_write a v e) x = (if x = a then v else mem e x)"
  by (simp add: mem_write_def)

lemma map_fill_read: "mem (map_fill p em e) x = (if p \<le> x \<and> x < em then 0xff else mem e x)"
proof (induction p em e rule: map_fill.induct)
  case (1 p em e)
  show ?case
  proof (cases "p < em")
    case True
    then show ?thesis using 1 by (subst map_fill.simps) auto
  next
    case False
    then show ?thesis by (subst map_fill.simps) auto
  qed
qed

lemma write_bit:
  assumes "b < 8"
  shows "bit (mem (mem_write (m + j) (if v then HCORE_SET_MAP (mem e (m + j)) b
      else HCORE_UNSET_MAP (mem e (m + j)) b) e) (m + i)) k
    \<longleftrightarrow> (if i = j \<and> k = b then v else bit (mem e (m + i)) k)"
  using assms by (simp add: bit_set_map bit_unset_map)

lemma restrict_if:
  "(X \<Longrightarrow> A \<and> B) \<Longrightarrow> (A \<and> B \<and> (if X then v else P)) = (if X then v else A \<and> B \<and> P)"
  by auto

lemma map_set_bit_abs:
  assumes ok: "map_ok mp" and pos: "1 \<le> pos" "pos \<le> mp_size mp"
    and run: "hcore_map_set_bit (Some mp) pos v e = (rc, e')"
  shows "rc = HCORE_OK"
    and "map_abs mp e' = (if v then insert pos (map_abs mp e) else map_abs mp e - {pos})"
proof -
  have e': "rc = HCORE_OK" "e' = mem_write (mp_m mp + (pos - 1) div 8)
      (if v then HCORE_SET_MAP (mem e (mp_m mp + (pos - 1) div 8)) (nat ((pos - 1) mod 8))
       else HCORE_UNSET_MAP (mem e (mp_m mp + (pos - 1) div 8)) (nat ((pos - 1) mod 8))) e"
    using run by (simp_all add: hcore_map_set_bit_def get_m_Some [OF ok pos])
  then show "rc = HCORE_OK" by simp
  have lt: "nat ((pos - 1) mod 8) < 8" by (simp add: nat_less_iff)
  have "x \<in> map_abs mp e' \<longleftrightarrow> (if x = pos then v else x \<in> map_abs mp e)" for x
  proof -
    have eq: "(x - 1) div 8 = (pos - 1) div 8 \<and> nat ((x - 1) mod 8) = nat ((pos - 1) mod 8) \<longleftrightarrow> x = pos"
      using same_position_1 [of x pos] by blast
    show ?thesis
      unfolding e'(2) map_abs_def mem_Collect_eq write_bit [OF lt] eq
      by (rule restrict_if) (use pos in blast)
  qed
  then show "map_abs mp e' = (if v then insert pos (map_abs mp e) else map_abs mp e - {pos})"
    by (intro set_eqI) simp
qed

lemma map_is_set_abs:
  assumes "map_ok mp" and "1 \<le> pos" and "pos \<le> mp_size mp"
  shows "hcore_map_is_set (Some mp) pos e \<noteq> 0 \<longleftrightarrow> pos \<in> map_abs mp e"
    and "0 \<le> hcore_map_is_set (Some mp) pos e"
proof -
  have lt: "nat ((pos - 1) mod 8) < 8" by (simp add: nat_less_iff)
  have "(b AND push_bit k 1 \<noteq> 0) = bit b k" for b :: byte and k
    by (simp add: and_exp_eq_0_iff_not_bit)
  then show "hcore_map_is_set (Some mp) pos e \<noteq> 0 \<longleftrightarrow> pos \<in> map_abs mp e"
    using lt assms(2,3) by (simp add: hcore_map_is_set_def get_m_Some [OF assms] map_abs_def uint_0_iff)
  show "0 \<le> hcore_map_is_set (Some mp) pos e"
    by (simp add: hcore_map_is_set_def get_m_Some [OF assms])
qed

text \<open>The byte at index \<open>i\<close> after a range operation.\<close>

lemma bit_0xff: "bit (0xff :: byte) k \<longleftrightarrow> k < 8"
proof -
  have "(0xff :: byte) = mask 8" by (simp add: mask_eq_exp_minus_1)
  then show ?thesis by (simp only: bit_mask_iff) auto
qed

lemma bit_map_bits_upt:
  assumes "j < 8"
  shows "bit (map_bits v [i..<8] b) k \<longleftrightarrow> (if i \<le> k \<and> k < 8 then v else bit b k)"
    and "bit (map_bits v [i..<Suc j] b) k \<longleftrightarrow> (if i \<le> k \<and> k \<le> j then v else bit b k)"
  using assms by (subst bit_map_bits; auto)+

text \<open>The bytes at the indices \<open>i\<close> after the loops, over a first index \<open>a\<close> and a last index
  \<open>c\<close>.\<close>

lemma range_bytes_one:
  assumes "j < 8" "k < 8"
  shows "bit (mem (map_fill (m + a + 1) (m + a)
      (mem_write (m + a) (map_bits v [l..<Suc j] (mem e (m + a))) e)) (m + i)) k
    \<longleftrightarrow> (if a < i \<and> i < a then True
         else if (a < i \<or> a = i \<and> l \<le> k) \<and> (i < a \<or> i = a \<and> k \<le> j) then v
         else bit (mem e (m + i)) k)"
  using assms by (cases "i = a") (auto simp del: upt_Suc simp add: map_fill_read bit_map_bits_upt)

lemma range_bytes_many:
  assumes "j < 8" "k < 8" "a < c"
  shows "bit (mem (map_fill (m + a + 1) (m + c)
      (mem_write (m + c) (map_bits v [0..<Suc j] (mem e (m + c)))
        (mem_write (m + a) (map_bits v [l..<8] (mem e (m + a))) e))) (m + i)) k
    \<longleftrightarrow> (if a < i \<and> i < c then True
         else if (a < i \<or> a = i \<and> l \<le> k) \<and> (i < c \<or> i = c \<and> k \<le> j) then v
         else bit (mem e (m + i)) k)"
proof -
  let ?bc = "map_bits v [0..<Suc j] (mem e (m + c))" and ?ba = "map_bits v [l..<8] (mem e (m + a))"
  have ff: "bit (0xff :: byte) k" using assms(2) by (simp only: bit_0xff)
  have rd: "mem (map_fill (m + a + 1) (m + c) (mem_write (m + c) ?bc (mem_write (m + a) ?ba e))) (m + i)
    = (if a < i \<and> i < c then 0xff else if i = c then ?bc else if i = a then ?ba else mem e (m + i))"
    unfolding map_fill_read mem_write_read by simp
  show ?thesis
    unfolding rd using ff assms
    by (simp only: if_distrib [of "\<lambda>b. bit b k"] bit_map_bits_upt split: if_split) auto
qed

lemma map_set_bits_read:
  assumes ok: "map_ok mp" and r: "1 \<le> bp" "bp \<le> ep" "ep \<le> mp_size mp"
    and run: "hcore_map_set_bits (Some mp) bp ep v e = (rc, e')" and x: "1 \<le> x"
  shows "rc = HCORE_OK"
    and "bit (mem e' (mp_m mp + (x - 1) div 8)) (nat ((x - 1) mod 8)) \<longleftrightarrow>
      (if (bp - 1) div 8 < (x - 1) div 8 \<and> (x - 1) div 8 < (ep - 1) div 8 then True
       else if bp \<le> x \<and> x \<le> ep then v
       else bit (mem e (mp_m mp + (x - 1) div 8)) (nat ((x - 1) mod 8)))"
proof -
  define B E X where "B = bp - 1" and "E = ep - 1" and "X = x - 1"
  have lt: "nat (z mod 8) < 8" for z :: int by (simp add: nat_less_iff)
  have get: "hcore_map_get_m (Some mp) bp = Some (mp_m mp + B div 8, nat (B mod 8))"
    "hcore_map_get_m (Some mp) ep = Some (mp_m mp + E div 8, nat (E mod 8))"
    using get_m_Some [OF ok, of bp] get_m_Some [OF ok, of ep] r by (simp_all add: B_def E_def)
  show "rc = HCORE_OK" using run by (simp add: hcore_map_set_bits_def get Let_def)
  have le: "bp \<le> x \<longleftrightarrow> B div 8 < X div 8 \<or> B div 8 = X div 8 \<and> nat (B mod 8) \<le> nat (X mod 8)"
    "x \<le> ep \<longleftrightarrow> X div 8 < E div 8 \<or> X div 8 = E div 8 \<and> nat (X mod 8) \<le> nat (E mod 8)"
    "B div 8 \<le> E div 8"
  proof -
    have "bp \<le> x \<longleftrightarrow> B \<le> X" "x \<le> ep \<longleftrightarrow> X \<le> E" "B \<le> E"
      using r unfolding B_def X_def E_def by linarith+
    then show "bp \<le> x \<longleftrightarrow> B div 8 < X div 8 \<or> B div 8 = X div 8 \<and> nat (B mod 8) \<le> nat (X mod 8)"
      "x \<le> ep \<longleftrightarrow> X div 8 < E div 8 \<or> X div 8 = E div 8 \<and> nat (X mod 8) \<le> nat (E mod 8)"
      "B div 8 \<le> E div 8"
      using position_le [of B X] position_le [of X E] zdiv_mono1 [of B E 8] by simp_all
  qed
  show "bit (mem e' (mp_m mp + (x - 1) div 8)) (nat ((x - 1) mod 8)) \<longleftrightarrow>
      (if (bp - 1) div 8 < (x - 1) div 8 \<and> (x - 1) div 8 < (ep - 1) div 8 then True
       else if bp \<le> x \<and> x \<le> ep then v
       else bit (mem e (mp_m mp + (x - 1) div 8)) (nat ((x - 1) mod 8)))"
  proof (cases "B div 8 = E div 8")
    case True
    then have e': "e' = map_fill (mp_m mp + B div 8 + 1) (mp_m mp + B div 8)
      (mem_write (mp_m mp + B div 8)
        (map_bits v [nat (B mod 8)..<Suc (nat (E mod 8))] (mem e (mp_m mp + B div 8))) e)"
      using run by (simp add: hcore_map_set_bits_def get Let_def)
    show ?thesis
      unfolding B_def [symmetric] E_def [symmetric] X_def [symmetric] le(1,2) True [symmetric] e'
      by (rule range_bytes_one [OF lt lt])
  next
    case False
    then have less: "B div 8 < E div 8" using le(3) by simp
    have e': "e' = map_fill (mp_m mp + B div 8 + 1) (mp_m mp + E div 8)
      (mem_write (mp_m mp + E div 8)
        (map_bits v [0..<Suc (nat (E mod 8))] (mem e (mp_m mp + E div 8)))
        (mem_write (mp_m mp + B div 8) (map_bits v [nat (B mod 8)..<8] (mem e (mp_m mp + B div 8))) e))"
      using run False by (auto simp del: upt_Suc simp add: hcore_map_set_bits_def get Let_def)
    show ?thesis
      unfolding B_def [symmetric] E_def [symmetric] X_def [symmetric] le(1,2) e'
      by (rule range_bytes_many [OF lt lt less])
  qed
qed

text \<open>The positions of the whole bytes inside a range.\<close>

definition inner_byte :: "int \<Rightarrow> int \<Rightarrow> int \<Rightarrow> bool" where
  "inner_byte bp ep x \<longleftrightarrow> (bp - 1) div 8 < (x - 1) div 8 \<and> (x - 1) div 8 < (ep - 1) div 8"

lemma inner_byte_range: "inner_byte bp ep x \<Longrightarrow> bp \<le> x \<and> x \<le> ep"
proof -
  assume "inner_byte bp ep x"
  then have "bp - 1 \<le> x - 1" "x - 1 \<le> ep - 1"
    unfolding inner_byte_def position_le [of "bp - 1"] position_le [of "x - 1"] by blast+
  then show ?thesis by simp
qed

lemma map_set_bits_abs:
  assumes "map_ok mp" and "1 \<le> bp" "bp \<le> ep" "ep \<le> mp_size mp"
  shows "fst (hcore_map_set_bits (Some mp) bp ep v e) = HCORE_OK"
    and "x \<in> map_abs mp (snd (hcore_map_set_bits (Some mp) bp ep v e)) \<longleftrightarrow>
      (if inner_byte bp ep x then True else if bp \<le> x \<and> x \<le> ep then v else x \<in> map_abs mp e)"
proof -
  note read = map_set_bits_read [OF assms prod.collapse [symmetric]]
  show "fst (hcore_map_set_bits (Some mp) bp ep v e) = HCORE_OK" using read(1) [of 1] by simp
  have "1 \<le> x \<and> x \<le> mp_size mp" if "bp \<le> x \<and> x \<le> ep" using that assms by linarith
  moreover have "1 \<le> x \<Longrightarrow> x \<le> mp_size mp \<Longrightarrow>
      x \<in> map_abs mp (snd (hcore_map_set_bits (Some mp) bp ep v e)) \<longleftrightarrow>
      (if inner_byte bp ep x then True else if bp \<le> x \<and> x \<le> ep then v else x \<in> map_abs mp e)"
    unfolding map_abs_def mem_Collect_eq inner_byte_def by (simp only: read(2) simp_thms)
  moreover have "\<not> (1 \<le> x \<and> x \<le> mp_size mp) \<Longrightarrow> x \<notin> map_abs mp f" for f
    unfolding map_abs_def by blast
  ultimately show "x \<in> map_abs mp (snd (hcore_map_set_bits (Some mp) bp ep v e)) \<longleftrightarrow>
      (if inner_byte bp ep x then True else if bp \<le> x \<and> x \<le> ep then v else x \<in> map_abs mp e)"
    using inner_byte_range [of bp ep x] by meson
qed

subsection \<open>Properties\<close>

text \<open>C12: on an initialised map the operations act on the set of positions: hcore_map_set inserts
  one, hcore_map_unset removes one, hcore_map_set_range inserts an interval, and
  hcore_map_is_set answers non-zero exactly for the members; all of them report success.\<close>

theorem map_operations_refine_set:
  assumes "map_ok mp" and "1 \<le> pos" and "pos \<le> ep" and "ep \<le> mp_size mp"
  shows "fst (hcore_map_set (Some mp) pos e) = HCORE_OK
    \<and> map_abs mp (snd (hcore_map_set (Some mp) pos e)) = insert pos (map_abs mp e)
    \<and> fst (hcore_map_unset (Some mp) pos e) = HCORE_OK
    \<and> map_abs mp (snd (hcore_map_unset (Some mp) pos e)) = map_abs mp e - {pos}
    \<and> fst (hcore_map_set_range (Some mp) pos ep e) = HCORE_OK
    \<and> map_abs mp (snd (hcore_map_set_range (Some mp) pos ep e)) = map_abs mp e \<union> {pos..ep}
    \<and> (0 < hcore_map_is_set (Some mp) pos e \<longleftrightarrow> pos \<in> map_abs mp e)"
proof -
  have pos: "pos \<le> mp_size mp" using assms by simp
  note single = map_set_bit_abs [OF assms(1,2) pos prod.collapse [symmetric]]
  note range = map_set_bits_abs [OF assms, where v = True and e = e]
  have "map_abs mp (snd (hcore_map_set_bits (Some mp) pos ep True e)) = map_abs mp e \<union> {pos..ep}"
    by (rule set_eqI) (use inner_byte_range [of pos ep] in \<open>simp add: range\<close>, blast)
  then show ?thesis
    using single [of True e] single [of False e] range(1) map_is_set_abs [OF assms(1,2) pos, of e]
    unfolding hcore_map_set_def hcore_map_unset_def hcore_map_set_range_def by (simp add: less_le)
qed

text \<open>Hcore_map_unset_range clears its interval only in the first and the last byte it
  touches: the positions of the whole bytes between them are all set afterwards.\<close>

lemma map_unset_range_sets_middle:
  assumes "map_ok mp" and "1 \<le> bp" and "bp \<le> ep" and "ep \<le> mp_size mp"
  shows "map_abs mp (snd (hcore_map_unset_range (Some mp) bp ep e))
    = (map_abs mp e - {bp..ep}) \<union> {x. inner_byte bp ep x}"
  unfolding hcore_map_unset_range_def by (rule set_eqI) (simp add: map_set_bits_abs [OF assms])

definition sample_map :: hmap where
  "sample_map = \<lparr>mp_m = 4096, mp_n = 4, mp_size = 30\<rparr>"

theorem map_operations_refine_set_witness:
  "map_abs sample_map (snd (hcore_map_set_range (Some sample_map) 5 20 sample_env))
     = map_abs sample_map sample_env \<union> {5..20}"
  using map_operations_refine_set [of sample_map 5 20 sample_env]
  by (simp add: sample_map_def map_ok_def)

lemma map_unset_range_sets_middle_witness:
  "10 \<in> map_abs sample_map (snd (hcore_map_unset_range (Some sample_map) 5 20 sample_env))"
  using map_unset_range_sets_middle [of sample_map 5 20 sample_env]
  by (simp add: sample_map_def map_ok_def inner_byte_def)

text \<open>A map fresh from hcore_init_map is well-formed, empty, and its bytes are memory the pool does
  not hand out again.\<close>

lemma map_bytes:
  "0 < (sz::int) \<Longrightarrow> 0 < (sz + 7) div 8 \<and> (sz + 7) div 8 \<le> sz"
  "1 \<le> x \<Longrightarrow> x \<le> sz \<Longrightarrow> 0 \<le> (x - 1) div 8 \<and> (x - 1) div 8 < (sz + 7) div 8"
  by linarith+

lemma map_bytes_up: "(sz::int) div 8 + (if sz mod 8 \<noteq> 0 then 1 else 0) = (sz + 7) div 8"
proof -
  have "0 \<le> sz mod 8" "sz mod 8 < 8" by simp_all
  moreover have "(sz + 7) div 8 = sz div 8 + (sz mod 8 + 7) div 8"
    using div_mult_self2 [of 8 "sz mod 8 + 7" "sz div 8"] by (simp add: algebra_simps)
  ultimately show ?thesis by auto
qed

lemma init_map_ok:
  assumes wf: "pool_wf psz G (pool, e)" and sz: "0 < sz" "sz \<le> G" "sz < 4294967296"
    and run: "hcore_init_map True pool sz e = (rc, r, pool', e')"
  shows "rc = HCORE_OK \<Longrightarrow> \<exists>mp. r = Some mp \<and> map_ok mp \<and> mp_size mp = sz \<and> map_abs mp e' = {}
      \<and> mem_region (mp_m mp, mp_n mp) \<subseteq> pool_avail G (pool, e)
      \<and> mem_region (mp_m mp, mp_n mp) \<inter> pool_avail G (pool', e') = {}"
    and "rc \<noteq> HCORE_OK \<Longrightarrow> rc = HCORE_ERROR \<and> r = None" and "pool_wf psz G (pool', e')"
proof -
  obtain k where k: "k = (sz + 7) div 8" by blast
  have ks: "0 < k" "k \<le> G" using map_bytes(1) [of sz] sz k by simp_all
  have u: "u32 (sz div 8 + (if sz mod 8 \<noteq> 0 then 1 else 0)) = k"
    unfolding map_bytes_up k [symmetric] using ks map_bytes(1) [of sz] sz k by (intro u32_id) simp_all
  obtain m pool1 e1 where al: "hcore_palloc pool k e = (m, pool1, e1)" by (metis prod_cases3)
  have ok: "alloc_ok psz G k (pool, e) m (pool1, e1)" using pnalloc_ok [OF wf _ _ al] ks by simp
  have out: "(rc, r, pool', e') = (case m of None \<Rightarrow> (HCORE_ERROR, None, pool1, e1)
    | Some a \<Rightarrow> (HCORE_OK, Some \<lparr>mp_m = a, mp_n = k, mp_size = sz\<rparr>, pool1, hcore_memzero a k e1))"
    using run unfolding hcore_init_map_def Let_def u
    by (cases m) (simp_all add: hcore_pcalloc_def al)
  show "rc \<noteq> HCORE_OK \<Longrightarrow> rc = HCORE_ERROR \<and> r = None" "pool_wf psz G (pool', e')"
    using out ok by (cases m; simp add: alloc_ok_def)+
  assume "rc = HCORE_OK"
  then obtain a where m: "m = Some a" and r: "r = Some \<lparr>mp_m = a, mp_n = k, mp_size = sz\<rparr>"
    "pool' = pool1" "e' = hcore_memzero a k e1"
    using out by (cases m) auto
  have reg: "mem_region (a, k) \<subseteq> pool_avail G (pool, e)"
    "mem_region (a, k) \<inter> pool_avail G (pool1, e1) = {}"
    using ok m by (simp_all add: alloc_ok_def)
  have "0 < a" using region_bounds(1) [OF wf reg(1) ks(1)] .
  then have "map_ok \<lparr>mp_m = a, mp_n = k, mp_size = sz\<rparr>" unfolding map_ok_def using sz k by simp
  moreover have "x \<notin> map_abs \<lparr>mp_m = a, mp_n = k, mp_size = sz\<rparr> e'" for x
  proof (cases "1 \<le> x \<and> x \<le> sz")
    case True
    then have "a + (x - 1) div 8 \<in> mem_region (a, k)"
      using map_bytes(2) [of x sz] unfolding k mem_region_def by simp
    then have "mem e' (a + (x - 1) div 8) = 0" unfolding r(3) by (rule memzero_reads)
    then show ?thesis by (simp add: map_abs_def)
  qed (auto simp: map_abs_def)
  ultimately show "\<exists>mp. r = Some mp \<and> map_ok mp \<and> mp_size mp = sz \<and> map_abs mp e' = {}
      \<and> mem_region (mp_m mp, mp_n mp) \<subseteq> pool_avail G (pool, e)
      \<and> mem_region (mp_m mp, mp_n mp) \<inter> pool_avail G (pool', e') = {}"
    unfolding r using reg by fastforce
qed

end
