(* ===== verification/HBuf.thy ===== *)
theory HBuf
  imports HPool
begin

section \<open>Buffers and chains (src/hcore_buf.c, include/hcore_buf.h)\<close>

text \<open>
  Chain links and buffers are pool memory; the model keeps them as two heaps of records indexed
  by address. A freed link goes to the free list of the pool, which starts at
  \<open>pool_chain\<close> and follows the \<open>next\<close> fields; hcore_alloc_chain takes links from it first.
  The theory shows that the list behaves as a stack, and what the allocated links and buffers hold.
\<close>

subsection \<open>Data\<close>

record hbuf =
  b_pos :: int
  b_last :: int
  b_start :: int
  b_end :: int

record hchain =
  cl_buf :: "int option"
  cl_next :: "int option"
  cl_free :: "nat option"
  cl_data :: "int option"

record cstate =
  cs_pool :: hpool
  cs_env :: env
  cs_chains :: "int \<Rightarrow> hchain"
  cs_bufs :: "int \<Rightarrow> hbuf"

abbreviation (input) sizeof_hcore_chain_t :: int where "sizeof_hcore_chain_t \<equiv> 32"

abbreviation (input) sizeof_hcore_buf_t :: int where "sizeof_hcore_buf_t \<equiv> 32"

definition zero_chain :: hchain where
  "zero_chain = \<lparr>cl_buf = None, cl_next = None, cl_free = None, cl_data = None\<rparr>"

definition zero_buf :: hbuf where
  "zero_buf = \<lparr>b_pos = 0, b_last = 0, b_start = 0, b_end = 0\<rparr>"

definition hcore_buf_get_freesize :: "hbuf \<Rightarrow> int" where
  "hcore_buf_get_freesize b = b_end b - b_last b"

definition hcore_buf_get_size :: "hbuf \<Rightarrow> int" where
  "hcore_buf_get_size b = b_last b - b_pos b"

definition upd_chain :: "int \<Rightarrow> (hchain \<Rightarrow> hchain) \<Rightarrow> cstate \<Rightarrow> cstate" where
  "upd_chain cl f s = s\<lparr>cs_chains := (cs_chains s)(cl := f (cs_chains s cl))\<rparr>"

definition upd_buf :: "int \<Rightarrow> hbuf \<Rightarrow> cstate \<Rightarrow> cstate" where
  "upd_buf b v s = s\<lparr>cs_bufs := (cs_bufs s)(b := v)\<rparr>"

text \<open>hcore_pcalloc and hcore_palloc on the state of this component.\<close>

definition cs_pcalloc :: "int \<Rightarrow> cstate \<Rightarrow> int option \<times> cstate" where
  "cs_pcalloc n s = (case hcore_pcalloc (cs_pool s) n (cs_env s) of
     (r, pool, e) \<Rightarrow> (r, s\<lparr>cs_pool := pool, cs_env := e\<rparr>))"

definition cs_palloc :: "int \<Rightarrow> cstate \<Rightarrow> int option \<times> cstate" where
  "cs_palloc n s = (case hcore_palloc (cs_pool s) n (cs_env s) of
     (r, pool, e) \<Rightarrow> (r, s\<lparr>cs_pool := pool, cs_env := e\<rparr>))"

subsection \<open>Operations\<close>

definition hcore_alloc_chain :: "cstate \<Rightarrow> int option \<times> cstate" where
  "hcore_alloc_chain s =
     (case pool_chain (cs_pool s) of
        Some cl \<Rightarrow>
          (let s = s\<lparr>cs_pool := (cs_pool s)\<lparr>pool_chain := cl_next (cs_chains s cl)\<rparr>\<rparr>;
               s = upd_chain cl (\<lambda>c. c\<lparr>cl_next := None\<rparr>) s;
               s = upd_chain cl (\<lambda>c. c\<lparr>cl_free := None\<rparr>) s
           in (Some cl, s))
      | None \<Rightarrow>
          (case cs_pcalloc sizeof_hcore_chain_t s of
             (None, s) \<Rightarrow> (None, s)
           | (Some cl, s) \<Rightarrow> (Some cl, upd_chain cl (\<lambda>_. zero_chain) s)))"

definition hcore_free_chain_hold_buf :: "int \<Rightarrow> cstate \<Rightarrow> cstate" where
  "hcore_free_chain_hold_buf cl s =
     (let s = (case cl_free (cs_chains s cl) of
                 Some h \<Rightarrow> s\<lparr>cs_env := log_event (EChainFree h cl) (cs_env s)\<rparr>
               | None \<Rightarrow> s);
          s = upd_chain cl (\<lambda>c. c\<lparr>cl_free := None\<rparr>) s;
          s = upd_chain cl (\<lambda>c. c\<lparr>cl_next := pool_chain (cs_pool s)\<rparr>) s
      in s\<lparr>cs_pool := (cs_pool s)\<lparr>pool_chain := Some cl\<rparr>\<rparr>)"

definition hcore_free_chain :: "int \<Rightarrow> cstate \<Rightarrow> cstate" where
  "hcore_free_chain cl s =
     (let s = hcore_free_chain_hold_buf cl s
      in upd_chain cl (\<lambda>c. c\<lparr>cl_buf := None\<rparr>) s)"

definition hcore_alloc_chain_with_buf :: "cstate \<Rightarrow> int option \<times> cstate" where
  "hcore_alloc_chain_with_buf s =
     (case hcore_alloc_chain s of
        (None, s) \<Rightarrow> (None, s)
      | (Some cl, s) \<Rightarrow>
          if cl_buf (cs_chains s cl) \<noteq> None then (Some cl, s)
          else (case cs_pcalloc sizeof_hcore_buf_t s of
                  (None, s) \<Rightarrow> (None, upd_chain cl (\<lambda>c. c\<lparr>cl_buf := None\<rparr>) s)
                | (Some b, s) \<Rightarrow>
                    (Some cl, upd_chain cl (\<lambda>c. c\<lparr>cl_buf := Some b\<rparr>) (upd_buf b zero_buf s))))"

definition hcore_alloc_buf :: "int \<Rightarrow> cstate \<Rightarrow> int option \<times> cstate" where
  "hcore_alloc_buf sz s =
     (case cs_pcalloc sizeof_hcore_buf_t s of
        (None, s) \<Rightarrow> (None, s)
      | (Some b, s) \<Rightarrow>
          (case cs_palloc sz s of
             (None, s) \<Rightarrow> (None, upd_buf b zero_buf s)
           | (Some p, s) \<Rightarrow>
               (Some b, upd_buf b \<lparr>b_pos = p, b_last = p, b_start = p, b_end = u64 (p + sz)\<rparr> s)))"

subsection \<open>The free list is a stack\<close>

fun chain_path :: "(int \<Rightarrow> hchain) \<Rightarrow> int option \<Rightarrow> int list \<Rightarrow> bool" where
  "chain_path h p [] \<longleftrightarrow> p = None"
| "chain_path h p (c # cs) \<longleftrightarrow> p = Some c \<and> chain_path h (cl_next (h c)) cs"

definition free_list :: "cstate \<Rightarrow> int list \<Rightarrow> bool" where
  "free_list s xs \<longleftrightarrow> distinct xs \<and> chain_path (cs_chains s) (pool_chain (cs_pool s)) xs"

lemma upd_chain_reads [simp]:
  "cs_chains (upd_chain cl f s) c = (if c = cl then f (cs_chains s cl) else cs_chains s c)"
  "cs_pool (upd_chain cl f s) = cs_pool s" "cs_env (upd_chain cl f s) = cs_env s"
  "cs_bufs (upd_chain cl f s) = cs_bufs s"
  by (simp_all add: upd_chain_def)

lemma upd_buf_reads [simp]:
  "cs_bufs (upd_buf b v s) a = (if a = b then v else cs_bufs s a)"
  "cs_pool (upd_buf b v s) = cs_pool s" "cs_env (upd_buf b v s) = cs_env s"
  "cs_chains (upd_buf b v s) = cs_chains s"
  by (simp_all add: upd_buf_def)

lemma chain_path_cong:
  "(\<And>c. c \<in> set xs \<Longrightarrow> cl_next (h c) = cl_next (g c)) \<Longrightarrow> chain_path h p xs = chain_path g p xs"
  by (induction xs arbitrary: p) auto

lemma free_list_cong:
  assumes "pool_chain (cs_pool t) = pool_chain (cs_pool s)"
    and "\<And>c. c \<in> set xs \<Longrightarrow> cl_next (cs_chains t c) = cl_next (cs_chains s c)"
  shows "free_list t xs = free_list s xs"
  using assms chain_path_cong [of xs "cs_chains t" "cs_chains s"] by (simp add: free_list_def)

lemma free_chain_hold_buf_push:
  assumes "free_list s xs" and "cl \<notin> set xs"
  shows "free_list (hcore_free_chain_hold_buf cl s) (cl # xs)"
proof -
  have "chain_path (cs_chains (hcore_free_chain_hold_buf cl s)) (pool_chain (cs_pool s)) xs"
    using assms
    by (subst chain_path_cong [of _ _ "cs_chains s"])
      (auto simp: hcore_free_chain_hold_buf_def free_list_def Let_def split: option.splits)
  then show ?thesis
    using assms
    by (auto simp: free_list_def hcore_free_chain_hold_buf_def Let_def split: option.splits)
qed

lemma alloc_chain_pop:
  assumes "free_list s (c # cs)" and "hcore_alloc_chain s = (r, t)"
  shows "r = Some c" and "free_list t cs" and "cs_env t = cs_env s"
    and "cs_chains t c = (cs_chains s c)\<lparr>cl_next := None, cl_free := None\<rparr>"
proof -
  have t: "r = Some c" "cs_env t = cs_env s" "pool_chain (cs_pool t) = cl_next (cs_chains s c)"
    "cs_chains t = (cs_chains s)(c := (cs_chains s c)\<lparr>cl_next := None, cl_free := None\<rparr>)"
    using assms by (auto simp: hcore_alloc_chain_def free_list_def upd_chain_def Let_def)
  then show "r = Some c" "cs_env t = cs_env s"
    "cs_chains t c = (cs_chains s c)\<lparr>cl_next := None, cl_free := None\<rparr>" by simp_all
  have "chain_path (cs_chains t) (cl_next (cs_chains s c)) cs"
    using assms(1) by (subst chain_path_cong [of _ _ "cs_chains s"]) (auto simp: t free_list_def)
  then show "free_list t cs" using assms(1) t by (simp add: free_list_def)
qed

subsection \<open>What the allocations return\<close>

lemma alloc_chain_fresh:
  assumes "free_list s []" and "hcore_alloc_chain s = (r, t)"
  shows "r = fst (cs_pcalloc sizeof_hcore_chain_t s)"
    and "r = Some c \<Longrightarrow> cs_chains t c = zero_chain"
  using assms by (auto simp: hcore_alloc_chain_def free_list_def split: prod.splits option.splits)

lemma alloc_chain_clean:
  assumes "hcore_alloc_chain s = (Some c, t)"
  shows "cl_next (cs_chains t c) = None" and "cl_free (cs_chains t c) = None"
  using assms
  by (auto simp: hcore_alloc_chain_def zero_chain_def Let_def split: prod.splits option.splits)

lemma alloc_chain_with_buf_ok:
  assumes "hcore_alloc_chain_with_buf s = (Some c, t)"
  shows "cl_next (cs_chains t c) = None" and "cl_free (cs_chains t c) = None"
    and "cl_buf (cs_chains t c) \<noteq> None"
  using assms
  by (auto simp: hcore_alloc_chain_with_buf_def cs_pcalloc_def alloc_chain_clean
      split: prod.splits option.splits if_splits)

lemma alloc_buf_empty:
  assumes "hcore_alloc_buf sz s = (Some b, t)"
  shows "\<exists>p. cs_bufs t b = \<lparr>b_pos = p, b_last = p, b_start = p, b_end = u64 (p + sz)\<rparr>"
    and "hcore_buf_get_size (cs_bufs t b) = 0"
  using assms by (auto simp: hcore_alloc_buf_def hcore_buf_get_size_def split: prod.splits option.splits)

text \<open>The data area of a buffer from hcore_alloc_buf is memory the pool no longer hands out.\<close>

lemma alloc_buf_region:
  assumes wf: "pool_wf psz G (cs_pool s, cs_env s)" and n: "0 < sz" "sz \<le> G" "32 \<le> G"
    and run: "hcore_alloc_buf sz s = (Some b, t)"
  shows "hcore_buf_get_freesize (cs_bufs t b) = sz"
    and "mem_region (b_start (cs_bufs t b), sz) \<inter> pool_avail G (cs_pool t, cs_env t) = {}"
    and "mem_region (b_start (cs_bufs t b), sz) \<inter> mem_region (b, sizeof_hcore_buf_t) = {}"
    and "pool_wf psz G (cs_pool t, cs_env t)"
proof -
  obtain p1 e1 where a1: "hcore_palloc (cs_pool s) 32 (cs_env s) = (Some b, p1, e1)"
    and rest: "hcore_alloc_buf sz s = (case cs_palloc sz (s\<lparr>cs_pool := p1, cs_env := hcore_memzero b 32 e1\<rparr>) of
      (None, s) \<Rightarrow> (None, upd_buf b zero_buf s)
    | (Some p, s) \<Rightarrow> (Some b, upd_buf b \<lparr>b_pos = p, b_last = p, b_start = p, b_end = u64 (p + sz)\<rparr> s))"
    using run
    by (auto simp: hcore_alloc_buf_def cs_pcalloc_def hcore_pcalloc_def split: prod.splits option.splits)
  have ok1: "pool_wf psz G (p1, e1)" "mem_region (b, 32) \<inter> pool_avail G (p1, e1) = {}"
    using pnalloc_ok [OF wf _ n(3) a1] by (simp_all add: alloc_ok_def)
  obtain p2 e2 q where a2: "hcore_palloc p1 sz (hcore_memzero b 32 e1) = (Some q, p2, e2)"
    and t: "t = upd_buf b \<lparr>b_pos = q, b_last = q, b_start = q, b_end = u64 (q + sz)\<rparr> (s\<lparr>cs_pool := p2, cs_env := e2\<rparr>)"
    using run unfolding rest by (auto simp: cs_palloc_def split: prod.splits option.splits)
  have ok2: "pool_wf psz G (p2, e2)" "mem_region (q, sz) \<subseteq> pool_avail G (p1, e1)"
    "mem_region (q, sz) \<inter> pool_avail G (p2, e2) = {}"
    using pnalloc_ok [OF _ _ n(2) a2, of psz] ok1(1) n(1) by (simp_all add: alloc_ok_def)
  have "u64 (q + sz) = q + sz" using region_bounds [OF ok1(1) ok2(2) n(1)] n(1) by (intro u64_id) auto
  then show "hcore_buf_get_freesize (cs_bufs t b) = sz"
    "mem_region (b_start (cs_bufs t b), sz) \<inter> pool_avail G (cs_pool t, cs_env t) = {}"
    "mem_region (b_start (cs_bufs t b), sz) \<inter> mem_region (b, sizeof_hcore_buf_t) = {}"
    "pool_wf psz G (cs_pool t, cs_env t)"
    using ok1 ok2 by (simp_all add: t hcore_buf_get_freesize_def) blast
qed

text \<open>C23: hcore_free_chain runs the handler of the link once, clears its buffer and pushes it on
  the pool's free list; the next hcore_alloc_chain takes the same link off again, clean (no
  successor, no handler, no buffer) and with the rest of the list as before.\<close>

theorem chain_free_then_alloc:
  assumes "free_list s xs" and "cl \<notin> set xs"
  shows "\<exists>t. hcore_alloc_chain (hcore_free_chain cl s) = (Some cl, t)
    \<and> free_list (hcore_free_chain cl s) (cl # xs) \<and> free_list t xs
    \<and> trace (cs_env t) = trace (cs_env s)
        @ (case cl_free (cs_chains s cl) of Some h \<Rightarrow> [EChainFree h cl] | None \<Rightarrow> [])
    \<and> cs_chains t cl = zero_chain\<lparr>cl_data := cl_data (cs_chains s cl)\<rparr>"
proof -
  let ?u = "hcore_free_chain cl s"
  have u: "free_list ?u (cl # xs)"
    using free_chain_hold_buf_push [OF assms]
    by (subst free_list_cong [of _ "hcore_free_chain_hold_buf cl s"])
      (auto simp: hcore_free_chain_def Let_def)
  obtain r t where t: "hcore_alloc_chain ?u = (r, t)" by fastforce
  have "trace (cs_env ?u) = trace (cs_env s)
      @ (case cl_free (cs_chains s cl) of Some h \<Rightarrow> [EChainFree h cl] | None \<Rightarrow> [])"
    "cl_buf (cs_chains ?u cl) = None" "cl_data (cs_chains ?u cl) = cl_data (cs_chains s cl)"
    by (auto simp: hcore_free_chain_def hcore_free_chain_hold_buf_def log_event_def Let_def
        split: option.splits)
  then show ?thesis using u t alloc_chain_pop [OF u t] by (simp add: zero_chain_def)
qed

theorem chain_free_then_alloc_witness:
  "\<exists>t. hcore_alloc_chain (hcore_free_chain 96 \<lparr>cs_pool = sample_pool, cs_env = sample_env,
       cs_chains = (\<lambda>_. zero_chain\<lparr>cl_free := Some 3\<rparr>), cs_bufs = (\<lambda>_. zero_buf)\<rparr>) = (Some 96, t)
     \<and> trace (cs_env t) = [EChainFree 3 96]"
  using chain_free_then_alloc [of "\<lparr>cs_pool = sample_pool, cs_env = sample_env,
    cs_chains = (\<lambda>_. zero_chain\<lparr>cl_free := Some 3\<rparr>), cs_bufs = (\<lambda>_. zero_buf)\<rparr>" "[]" 96]
  by (auto simp: free_list_def sample_pool_def sample_env_def zero_chain_def)

end
