(* ===== verification/HArray.thy ===== *)
theory HArray
  imports HPool
begin

section \<open>The dynamic array (src/hcore_array.c, include/hcore_array.h)\<close>

text \<open>
  An array is a descriptor over a region of pool memory: \<open>elts\<close> is its address, \<open>size\<close> the size
  of an element. It grows in place when its region ends at the \<open>last\<close> pointer of the pool's
  first block, and is copied otherwise. The descriptor is kept apart from the memory \<open>mem\<close>
  (its address matters only to hcore_array_destroy); element contents are bytes of \<open>mem\<close>.
\<close>

record harray =
  ar_elts :: int
  ar_nelts :: int
  ar_size :: int
  ar_nalloc :: int

abbreviation (input) sizeof_hcore_array_t :: int where "sizeof_hcore_array_t \<equiv> 40"

type_synonym pstate = "hpool \<times> env"

definition pool_d :: "hpool \<Rightarrow> pblock" where
  "pool_d p = hd (pool_blocks p)"

definition set_d_last :: "int \<Rightarrow> hpool \<Rightarrow> hpool" where
  "set_d_last a p = (case pool_blocks p of
     b # bs \<Rightarrow> p\<lparr>pool_blocks := b\<lparr>pb_last := u64 a\<rparr> # bs\<rparr> | [] \<Rightarrow> p)"

subsection \<open>Operations\<close>

definition hcore_array_init :: "hpool \<Rightarrow> int \<Rightarrow> int \<Rightarrow> env \<Rightarrow> int \<times> harray \<times> hpool \<times> env" where
  "hcore_array_init pool n sz e =
     (case hcore_palloc pool (u64 (n * sz)) e of
        (None, pool, e) \<Rightarrow>
          (HCORE_ERROR, \<lparr>ar_elts = 0, ar_nelts = 0, ar_size = sz, ar_nalloc = n\<rparr>, pool, e)
      | (Some p, pool, e) \<Rightarrow>
          (HCORE_OK, \<lparr>ar_elts = p, ar_nelts = 0, ar_size = sz, ar_nalloc = n\<rparr>, pool, e))"

text \<open>The address of the descriptor and the descriptor.\<close>

definition hcore_array_create ::
  "hpool \<Rightarrow> int \<Rightarrow> int \<Rightarrow> env \<Rightarrow> (int \<times> harray) option \<times> hpool \<times> env" where
  "hcore_array_create p n sz e =
     (case hcore_palloc p sizeof_hcore_array_t e of
        (None, p, e) \<Rightarrow> (None, p, e)
      | (Some a, p, e) \<Rightarrow>
          (case hcore_array_init p n sz e of
             (rc, ar, p, e) \<Rightarrow> if rc \<noteq> HCORE_OK then (None, p, e) else (Some (a, ar), p, e)))"

definition hcore_array_destroy :: "int \<Rightarrow> harray \<Rightarrow> hpool \<Rightarrow> hpool" where
  "hcore_array_destroy addr a p =
     (let p = (if u64 (ar_elts a + u64 (ar_size a * ar_nalloc a)) = pb_last (pool_d p)
               then set_d_last (pb_last (pool_d p) - u64 (ar_size a * ar_nalloc a)) p else p)
      in if u64 (addr + sizeof_hcore_array_t) = pb_last (pool_d p) then set_d_last addr p else p)"

text \<open>The full array of hcore_array_push and of hcore_array_push_n; the flag is false on the early
  return of NULL.\<close>

definition array_push_grow :: "harray \<Rightarrow> hpool \<Rightarrow> env \<Rightarrow> bool \<times> harray \<times> hpool \<times> env" where
  "array_push_grow a p e =
     (let sz = u64 (ar_size a * ar_nalloc a) in
      if u64 (ar_elts a + sz) = pb_last (pool_d p)
         \<and> u64 (pb_last (pool_d p) + ar_size a) \<le> pb_end (pool_d p)
      then (True, a\<lparr>ar_nalloc := u32 (ar_nalloc a + 1)\<rparr>, set_d_last (pb_last (pool_d p) + ar_size a) p, e)
      else (case hcore_palloc p (u64 (2 * sz)) e of
              (None, p, e) \<Rightarrow> (False, a, p, e)
            | (Some new_elt, p, e) \<Rightarrow>
                (True, a\<lparr>ar_elts := new_elt, ar_nalloc := u32 (ar_nalloc a * 2)\<rparr>,
                 p, hcore_memcpy new_elt (ar_elts a) sz e)))"

definition hcore_array_push :: "harray \<Rightarrow> hpool \<Rightarrow> env \<Rightarrow> int option \<times> harray \<times> hpool \<times> env" where
  "hcore_array_push a p e =
     (case (if ar_nelts a = ar_nalloc a then array_push_grow a p e else (True, a, p, e)) of
        (ok, a, p, e) \<Rightarrow>
          if \<not> ok then (None, a, p, e)
          else (Some (u64 (ar_elts a + u64 (ar_size a * ar_nelts a))),
                a\<lparr>ar_nelts := u32 (ar_nelts a + 1)\<rparr>, p, e))"

definition array_push_n_grow ::
  "harray \<Rightarrow> int \<Rightarrow> int \<Rightarrow> hpool \<Rightarrow> env \<Rightarrow> bool \<times> harray \<times> hpool \<times> env" where
  "array_push_n_grow a n sz p e =
     (if u64 (ar_elts a + u64 (ar_size a * ar_nalloc a)) = pb_last (pool_d p)
         \<and> u64 (pb_last (pool_d p) + sz) \<le> pb_end (pool_d p)
      then (True, a\<lparr>ar_nalloc := u32 (ar_nalloc a + n)\<rparr>, set_d_last (pb_last (pool_d p) + sz) p, e)
      else (let nalloc = u32 (2 * (if ar_nalloc a \<le> n then n else ar_nalloc a)) in
            case hcore_palloc p (u64 (nalloc * ar_size a)) e of
              (None, p, e) \<Rightarrow> (False, a, p, e)
            | (Some new_elt, p, e) \<Rightarrow>
                (True, a\<lparr>ar_elts := new_elt, ar_nalloc := nalloc\<rparr>,
                 p, hcore_memcpy new_elt (ar_elts a) (u64 (ar_nelts a * ar_size a)) e)))"

definition hcore_array_push_n ::
  "harray \<Rightarrow> int \<Rightarrow> hpool \<Rightarrow> env \<Rightarrow> int option \<times> harray \<times> hpool \<times> env" where
  "hcore_array_push_n a n p e =
     (let sz = u64 (n * ar_size a) in
      case (if ar_nalloc a < u32 (ar_nelts a + n) then array_push_n_grow a n sz p e else (True, a, p, e)) of
        (ok, a, p, e) \<Rightarrow>
          if \<not> ok then (None, a, p, e)
          else (Some (u64 (ar_elts a + u64 (ar_size a * ar_nelts a))),
                a\<lparr>ar_nelts := u32 (ar_nelts a + n)\<rparr>, p, e))"

subsection \<open>The invariant of an array\<close>

text \<open>
  The region of the array is memory in use (disjoint from what the pool still hands out), and the
  counters are in range.
\<close>

definition array_ok :: "int \<Rightarrow> int \<Rightarrow> harray \<Rightarrow> hpool \<Rightarrow> env \<Rightarrow> bool" where
  "array_ok psz G a p e \<longleftrightarrow> pool_wf psz G (p, e) \<and> 0 < ar_elts a \<and> 0 < ar_size a
     \<and> 0 \<le> ar_nelts a \<and> ar_nelts a \<le> ar_nalloc a \<and> 0 < ar_nalloc a \<and> ar_nalloc a < 2147483648
     \<and> ar_elts a + ar_size a * ar_nalloc a < 18446744073709551609
     \<and> mem_region (ar_elts a, ar_size a * ar_nalloc a) \<inter> pool_avail G (p, e) = {}"

text \<open>The \<open>k\<close>-th byte of the contents.\<close>

definition array_byte :: "harray \<Rightarrow> env \<Rightarrow> int \<Rightarrow> byte" where
  "array_byte a e k = mem e (ar_elts a + k)"

lemma mult_mono_bound: "0 \<le> x \<Longrightarrow> x \<le> y \<Longrightarrow> 0 \<le> s \<Longrightarrow> s * x \<le> s * (y::int)"
  by (rule mult_left_mono)

lemma array_ok_ids:
  assumes "array_ok psz G a p e"
  shows "u64 (ar_size a * ar_nalloc a) = ar_size a * ar_nalloc a"
    and "u64 (ar_size a * ar_nelts a) = ar_size a * ar_nelts a"
    and "u64 (ar_elts a + ar_size a * ar_nalloc a) = ar_elts a + ar_size a * ar_nalloc a"
    and "u64 (ar_elts a + ar_size a * ar_nelts a) = ar_elts a + ar_size a * ar_nelts a"
proof -
  have le: "ar_size a * ar_nelts a \<le> ar_size a * ar_nalloc a" "0 \<le> ar_size a * ar_nelts a"
    and rest: "0 < ar_elts a" "ar_elts a + ar_size a * ar_nalloc a < 18446744073709551609"
    using assms by (simp_all add: array_ok_def)
  show "u64 (ar_size a * ar_nalloc a) = ar_size a * ar_nalloc a"
    "u64 (ar_size a * ar_nelts a) = ar_size a * ar_nelts a"
    "u64 (ar_elts a + ar_size a * ar_nalloc a) = ar_elts a + ar_size a * ar_nalloc a"
    "u64 (ar_elts a + ar_size a * ar_nelts a) = ar_elts a + ar_size a * ar_nelts a"
    using le rest by (intro u64_id; linarith)+
qed

text \<open>Growing in place: the \<open>last\<close> of the first block moves over free bytes behind the array.\<close>

lemma grow_in_place:
  assumes ok: "array_ok psz G a p e" and d: "ar_elts a + ar_size a * ar_nalloc a = pb_last (pool_d p)"
    and fit: "u64 (pb_last (pool_d p) + ar_size a * k) \<le> pb_end (pool_d p)"
    and k: "0 \<le> k" "pb_end (pool_d p) + ar_size a * k < 18446744073709551616"
      "ar_nalloc a + k < 2147483648"
  shows "array_ok psz G (a\<lparr>ar_nalloc := ar_nalloc a + k\<rparr>)
    (set_d_last (pb_last (pool_d p) + ar_size a * k) p) e"
proof -
  have wf: "pool_wf psz G (p, e)" using ok by (simp add: array_ok_def)
  obtain b bs where bs: "pool_blocks p = [] @ b # bs"
    using wf by (cases "pool_blocks p") (auto simp: pool_wf_def)
  have b: "blk_ok psz b" using wf bs by (simp add: pool_wf_def)
  have pd: "pool_d p = b" by (simp add: pool_d_def bs)
  have ks: "0 \<le> ar_size a * k" using k ok by (simp add: array_ok_def)
  have id: "u64 (pb_last b + ar_size a * k) = pb_last b + ar_size a * k"
    using b ks k pd by (intro u64_id) (auto simp: blk_ok_def)
  have fit': "pb_last b + ar_size a * k \<le> pb_end b" using fit by (simp add: pd id)
  define q where "q = p\<lparr>pool_blocks := [] @ b\<lparr>pb_last := pb_last b + ar_size a * k\<rparr> # bs\<rparr>"
  note bump = pool_bump [OF wf bs order_refl fit' ks, folded q_def]
  have set_d: "set_d_last (pb_last (pool_d p) + ar_size a * k) p = q"
    using bs by (simp add: set_d_last_def pd id q_def)
  have reg: "mem_region (ar_elts a, ar_size a * (ar_nalloc a + k))
      \<subseteq> mem_region (ar_elts a, ar_size a * ar_nalloc a) \<union> mem_region (pb_last b, ar_size a * k)"
    using d by (auto simp: mem_region_def pd distrib_left)
  have "mem_region (ar_elts a, ar_size a * (ar_nalloc a + k)) \<inter> pool_avail G (q, e) = {}"
    using reg bump(2,4) ok unfolding array_ok_def by blast
  moreover have "ar_elts a + ar_size a * (ar_nalloc a + k) \<le> pb_end b"
    using d fit' by (simp add: pd distrib_left)
  ultimately show ?thesis using ok bump(1) k b unfolding set_d array_ok_def
    by (simp add: blk_ok_def)
qed

text \<open>Growing by copying into a fresh region of \<open>k\<close> elements.\<close>

lemma grow_by_copy:
  assumes ok: "array_ok psz G a p e" and run: "hcore_palloc p (ar_size a * k) e = (Some q, p', e')"
    and k: "ar_nalloc a \<le> k" "k < 2147483648" "ar_size a * k \<le> G" and n: "n \<le> ar_size a * ar_nalloc a"
  shows "array_ok psz G (a\<lparr>ar_elts := q, ar_nalloc := k\<rparr>) p' (hcore_memcpy q (ar_elts a) n e')"
    and "0 \<le> j \<Longrightarrow> j < n \<Longrightarrow>
      array_byte (a\<lparr>ar_elts := q, ar_nalloc := k\<rparr>) (hcore_memcpy q (ar_elts a) n e') j = array_byte a e j"
proof -
  have wf: "pool_wf psz G (p, e)" using ok by (simp add: array_ok_def)
  have pos: "0 < ar_size a * k" using ok k by (simp add: array_ok_def)
  have al: "alloc_ok psz G (ar_size a * k) (p, e) (Some q) (p', e')"
    using pnalloc_ok [OF wf _ k(3) run] pos by simp
  then have al': "pool_wf psz G (p', e')" "mem_region (q, ar_size a * k) \<subseteq> pool_avail G (p, e)"
    "mem_region (q, ar_size a * k) \<inter> pool_avail G (p', e') = {}"
    by (simp_all add: alloc_ok_def)
  note bounds = region_bounds [OF wf al'(2) pos]
  show "array_ok psz G (a\<lparr>ar_elts := q, ar_nalloc := k\<rparr>) p' (hcore_memcpy q (ar_elts a) n e')"
    using ok al' bounds k by (simp add: array_ok_def)
  show "array_byte (a\<lparr>ar_elts := q, ar_nalloc := k\<rparr>) (hcore_memcpy q (ar_elts a) n e') j = array_byte a e j"
    if "0 \<le> j" "j < n"
    using that pnalloc_mem [OF run] by (simp add: array_byte_def memcpy_reads)
qed

text \<open>What both growing functions promise: the invariant, the elements and the element size.\<close>

definition array_kept :: "int \<Rightarrow> int \<Rightarrow> harray \<Rightarrow> env \<Rightarrow> harray \<Rightarrow> hpool \<Rightarrow> env \<Rightarrow> bool" where
  "array_kept psz G a e a' p' e' \<longleftrightarrow> array_ok psz G a' p' e'
     \<and> ar_nelts a' = ar_nelts a \<and> ar_size a' = ar_size a
     \<and> (\<forall>j. 0 \<le> j \<and> j < ar_size a * ar_nelts a \<longrightarrow> array_byte a' e' j = array_byte a e j)"

lemma kept_in_place:
  assumes ok: "array_ok psz G a p e" and d: "ar_elts a + ar_size a * ar_nalloc a = pb_last (pool_d p)"
    and fit: "u64 (pb_last (pool_d p) + ar_size a * k) \<le> pb_end (pool_d p)"
    and k: "0 \<le> k" "pb_end (pool_d p) + ar_size a * k < 18446744073709551616"
      "ar_nalloc a + k < 2147483648"
  shows "array_kept psz G a e (a\<lparr>ar_nalloc := ar_nalloc a + k\<rparr>)
    (set_d_last (pb_last (pool_d p) + ar_size a * k) p) e"
  using grow_in_place [OF assms] by (simp add: array_kept_def array_byte_def)

lemma kept_by_copy:
  assumes ok: "array_ok psz G a p e" and run: "hcore_palloc p (ar_size a * k) e = (Some q, p', e')"
    and k: "ar_nalloc a \<le> k" "k < 2147483648" "ar_size a * k \<le> G"
    and n: "ar_size a * ar_nelts a \<le> n" "n \<le> ar_size a * ar_nalloc a"
  shows "array_kept psz G a e (a\<lparr>ar_elts := q, ar_nalloc := k\<rparr>) p' (hcore_memcpy q (ar_elts a) n e')"
  using grow_by_copy [OF assms(1-5,7)] n by (simp add: array_kept_def)

lemma array_push_grow_ok:
  assumes ok: "array_ok psz G a p e" and run: "array_push_grow a p e = (True, a', p', e')"
    and lim: "2 * (ar_size a * ar_nalloc a) \<le> G" "2 * ar_nalloc a < 2147483648" "G < 9223372036854775808"
      "pb_end (pool_d p) + ar_size a < 18446744073709551616"
  shows "array_kept psz G a e a' p' e' \<and> ar_nalloc a < ar_nalloc a'"
proof -
  note ids = array_ok_ids [OF ok]
  have pos: "0 < ar_nalloc a" "0 < ar_size a * ar_nalloc a" "ar_size a * ar_nelts a \<le> ar_size a * ar_nalloc a"
    using ok by (simp_all add: array_ok_def)
  have "u64 (2 * (ar_size a * ar_nalloc a)) = 2 * (ar_size a * ar_nalloc a)"
    using pos(2) lim by (intro u64_id; linarith)
  then have id2: "u64 (2 * (ar_size a * ar_nalloc a)) = ar_size a * (ar_nalloc a * 2)" by simp
  have u: "u32 (ar_nalloc a + 1) = ar_nalloc a + 1" "u32 (ar_nalloc a * 2) = ar_nalloc a * 2"
    using pos lim by (auto intro!: u32_id)
  show ?thesis
  proof (cases "ar_elts a + ar_size a * ar_nalloc a = pb_last (pool_d p)
         \<and> u64 (pb_last (pool_d p) + ar_size a) \<le> pb_end (pool_d p)")
    case True
    then have "a' = a\<lparr>ar_nalloc := ar_nalloc a + 1\<rparr>" "e' = e"
      "p' = set_d_last (pb_last (pool_d p) + ar_size a * 1) p"
      using run ids u by (auto simp: array_push_grow_def)
    then show ?thesis using kept_in_place [OF ok, of 1] True lim pos by simp
  next
    case False
    then obtain q e1 where "hcore_palloc p (ar_size a * (ar_nalloc a * 2)) e = (Some q, p', e1)"
      and "a' = a\<lparr>ar_elts := q, ar_nalloc := ar_nalloc a * 2\<rparr>"
        "e' = hcore_memcpy q (ar_elts a) (ar_size a * ar_nalloc a) e1"
      using run ids id2 u by (auto simp: array_push_grow_def Let_def split: prod.splits option.splits if_splits)
    then show ?thesis using kept_by_copy [OF ok _ _ _ _ pos(3) order_refl] lim pos by simp
  qed
qed

lemma array_push_n_grow_ok:
  assumes ok: "array_ok psz G a p e" and run: "array_push_n_grow a n (ar_size a * n) p e = (True, a', p', e')"
    and n: "0 < n"
    and lim: "2 * (ar_size a * max n (ar_nalloc a)) \<le> G" "2 * max n (ar_nalloc a) < 2147483648"
      "G < 9223372036854775808" "pb_end (pool_d p) + ar_size a * n < 18446744073709551616"
  shows "array_kept psz G a e a' p' e' \<and> ar_nelts a + n \<le> ar_nalloc a'"
proof -
  note ids = array_ok_ids [OF ok]
  let ?k = "2 * max n (ar_nalloc a)"
  have pos: "0 < ar_nalloc a" "0 < ar_size a" "ar_nelts a \<le> ar_nalloc a"
    "ar_size a * ar_nelts a \<le> ar_size a * ar_nalloc a"
    using ok by (simp_all add: array_ok_def)
  have "0 \<le> ar_size a * max n (ar_nalloc a)" using pos n by simp
  then have "u64 (2 * (ar_size a * max n (ar_nalloc a))) = 2 * (ar_size a * max n (ar_nalloc a))"
    using lim by (intro u64_id; linarith)
  then have id2: "u64 (?k * ar_size a) = ar_size a * ?k" by (simp add: mult.commute mult.left_commute)
  have k: "u32 (2 * (if ar_nalloc a \<le> n then n else ar_nalloc a)) = ?k"
    "u32 (ar_nalloc a + n) = ar_nalloc a + n"
  proof -
    have "ar_nalloc a < 1073741824" "n < 1073741824" using lim(2) by simp_all
    then show "u32 (2 * (if ar_nalloc a \<le> n then n else ar_nalloc a)) = ?k"
      "u32 (ar_nalloc a + n) = ar_nalloc a + n"
      using pos n by (auto simp: max_def intro!: u32_id)
  qed
  show ?thesis
  proof (cases "ar_elts a + ar_size a * ar_nalloc a = pb_last (pool_d p)
         \<and> u64 (pb_last (pool_d p) + ar_size a * n) \<le> pb_end (pool_d p)")
    case True
    then have "a' = a\<lparr>ar_nalloc := ar_nalloc a + n\<rparr>" "e' = e"
      "p' = set_d_last (pb_last (pool_d p) + ar_size a * n) p"
      using run ids k by (auto simp: array_push_n_grow_def)
    then show ?thesis using kept_in_place [OF ok, of n] True lim pos n by simp
  next
    case False
    have id3: "u64 (ar_nelts a * ar_size a) = ar_size a * ar_nelts a" using ids(2) by (simp add: mult.commute)
    obtain q e1 where "hcore_palloc p (ar_size a * ?k) e = (Some q, p', e1)"
      and "a' = a\<lparr>ar_elts := q, ar_nalloc := ?k\<rparr>"
        "e' = hcore_memcpy q (ar_elts a) (ar_size a * ar_nelts a) e1"
      using False run ids id2 id3 unfolding array_push_n_grow_def k
      by (auto simp: Let_def split: prod.splits option.splits if_splits)
    then show ?thesis using kept_by_copy [OF ok _ _ _ _ order_refl pos(4), of ?k] lim pos n
      by (simp add: mult.left_commute)
  qed
qed

text \<open>The new cell after the elements.\<close>

lemma array_kept_cell:
  assumes "array_kept psz G a e a' p' e'" and "ar_nelts a + n \<le> ar_nalloc a'" and "0 \<le> n"
  shows "array_ok psz G (a'\<lparr>ar_nelts := u32 (ar_nelts a' + n)\<rparr>) p' e'"
    and "u32 (ar_nelts a' + n) = ar_nelts a + n"
    and "u64 (ar_elts a' + u64 (ar_size a' * ar_nelts a')) = ar_elts a' + ar_size a * ar_nelts a"
proof -
  have ok: "array_ok psz G a' p' e'" and eqs: "ar_nelts a' = ar_nelts a" "ar_size a' = ar_size a"
    using assms(1) by (simp_all add: array_kept_def)
  show u: "u32 (ar_nelts a' + n) = ar_nelts a + n"
    using ok eqs assms(2,3) by (auto simp: array_ok_def intro!: u32_id)
  show "array_ok psz G (a'\<lparr>ar_nelts := u32 (ar_nelts a' + n)\<rparr>) p' e'"
    using ok assms(2,3) eqs by (simp add: array_ok_def u [unfolded eqs])
  show "u64 (ar_elts a' + u64 (ar_size a' * ar_nelts a')) = ar_elts a' + ar_size a * ar_nelts a"
    using array_ok_ids(2,4) [OF ok] eqs by simp
qed

lemma array_kept_refl: "array_ok psz G a p e \<Longrightarrow> array_kept psz G a e a p e"
  by (simp add: array_kept_def)


definition sample_array :: harray where
  "sample_array = \<lparr>ar_elts = 65690, ar_nelts = 5, ar_size = 2, ar_nalloc = 5\<rparr>"

lemma sample_array_ok: "array_ok 256 4096 sample_array sample_pool sample_env"
proof -
  have "mem_region (65690, 10) \<inter> pool_avail 4096 (sample_pool, sample_env) = {}"
    by (auto simp: mem_region_def pool_avail_def sample_pool_def sample_env_def free_of_def
        os_regions_def answers_of_def map_filter_simps)
  then show ?thesis using sample_wf by (simp add: array_ok_def sample_array_def)
qed


text \<open>Hcore_array_push_n does the same for \<open>n\<close> elements at once.\<close>

theorem array_push_n_correct:
  assumes ok: "array_ok psz G a p e" and run: "hcore_array_push_n a n p e = (Some elt, a', p', e')"
    and n: "0 < n"
    and lim: "2 * (ar_size a * max n (ar_nalloc a)) \<le> G" "2 * max n (ar_nalloc a) < 2147483648"
      "G < 9223372036854775808" "pb_end (pool_d p) + ar_size a * n < 18446744073709551616"
  shows "array_ok psz G a' p' e' \<and> ar_nelts a' = ar_nelts a + n
    \<and> elt = ar_elts a' + ar_size a * ar_nelts a
    \<and> (\<forall>j. 0 \<le> j \<and> j < ar_size a * ar_nelts a \<longrightarrow> array_byte a' e' j = array_byte a e j)"
proof -
  have pos: "0 < ar_size a" "0 \<le> ar_nelts a" "ar_nelts a \<le> ar_nalloc a" "ar_nalloc a < 2147483648"
    using ok by (simp_all add: array_ok_def)
  have "ar_size a * n \<le> ar_size a * max n (ar_nalloc a)" "0 \<le> ar_size a * n" using pos n by simp_all
  then have sz: "u64 (n * ar_size a) = ar_size a * n"
    using lim by (simp add: mult.commute [of n] u64_id)
  have sum: "u32 (ar_nelts a + n) = ar_nelts a + n" using pos n lim by (intro u32_id) auto
  obtain b where g: "(if ar_nalloc a < ar_nelts a + n then array_push_n_grow a n (ar_size a * n) p e
      else (True, a, p, e)) = (True, b, p', e')"
    and out: "elt = u64 (ar_elts b + u64 (ar_size b * ar_nelts b))" "a' = b\<lparr>ar_nelts := u32 (ar_nelts b + n)\<rparr>"
    using run sz sum by (auto simp: hcore_array_push_n_def split: prod.splits if_splits)
  have kept: "array_kept psz G a e b p' e' \<and> ar_nelts a + n \<le> ar_nalloc b"
  proof (cases "ar_nalloc a < ar_nelts a + n")
    case True
    then show ?thesis using array_push_n_grow_ok [OF ok _ n lim, of b p' e'] g by simp
  next
    case False
    then show ?thesis using g array_kept_refl [OF ok] by auto
  qed
  then show ?thesis using array_kept_cell [of psz G a e b p' e' n] out n
    by (simp add: array_kept_def array_byte_def)
qed

theorem array_push_n_correct_witness:
  "\<exists>p' a' e'. hcore_array_push_n sample_array 60 sample_pool sample_env = (Some 262154, a', p', e')
     \<and> array_ok 256 4096 a' p' e' \<and> ar_nelts a' = 65"
proof -
  obtain a' p' e' where r: "hcore_array_push_n sample_array 60 sample_pool sample_env = (Some 262154, a', p', e')"
    by (simp add: hcore_array_push_n_def array_push_n_grow_def sample_array_def sample_pool_def
        hcore_pnalloc_def hcore_palloc_large_def hcore_palloc_small_def hcore_malloc_def
        sample_env_def next_answer_def pool_d_def set_d_last_def u64_def u32_def
        hcore_align_ptr_def Let_def)
  show ?thesis using array_push_n_correct [OF sample_array_ok r] r
    by (simp add: sample_array_def sample_pool_def pool_d_def)
qed

text \<open>hcore_array_destroy gives back what hcore_array_create took, when both regions came from the
  first block.\<close>

lemma array_create_destroy:
  assumes wf: "pool_wf psz G (p, e)" and cur: "pool_current p = 0"
    and n: "0 < n" "0 < sz" "n * sz \<le> pool_max p" "40 \<le> pool_max p"
    and room: "pb_last (pool_d p) + 40 + n * sz \<le> pb_end (pool_d p)"
    and run: "hcore_array_create p n sz e = (Some (addr, a), p', e')"
  shows "hcore_array_destroy addr a p' = p"
proof -
  obtain b bs where bs: "pool_blocks p = b # bs" using wf by (cases "pool_blocks p") (auto simp: pool_wf_def)
  have b: "blk_ok psz b" and c: "\<not> pool_customed p" using wf bs by (simp_all add: pool_wf_def)
  define l where "l = pb_last b"
  define k where "k = n * sz"
  have k: "0 < k" "l + 40 + k \<le> pb_end b" "0 < l" "pb_end b + 8 < 18446744073709551616" "k \<le> pool_max p"
    using n room b bs by (simp_all add: k_def l_def pool_d_def blk_ok_def)
  have ids: "u64 k = k" "u64 (pb_end b - l) = pb_end b - l" "u64 (l + 40) = l + 40"
    "u64 (pb_end b - (l + 40)) = pb_end b - (l + 40)" "u64 (l + 40 + k) = l + 40 + k" "u64 l = l"
    using k by (auto intro!: u64_id)
  have out: "addr = l" "a = \<lparr>ar_elts = l + 40, ar_nelts = 0, ar_size = sz, ar_nalloc = n\<rparr>"
    "p' = p\<lparr>pool_blocks := b\<lparr>pb_last := l + 40 + k\<rparr> # bs\<rparr>"
    using run c cur n(4) bs k ids
    by (auto simp: hcore_array_create_def hcore_array_init_def hcore_pnalloc_def hcore_palloc_small_def
        Let_def simp flip: l_def k_def)
  have "u64 (sz * n) = k" using ids(1) by (simp add: k_def mult.commute)
  then show ?thesis using out ids bs
    by (simp add: hcore_array_destroy_def pool_d_def set_d_last_def add.commute [of 40] l_def)
qed

end
