(* ===== verification/HString.thy ===== *)
theory HString
  imports HArray
begin

section \<open>Reading numbers, sizes and versions; dumping and splitting (src/hcore_string.c)\<close>

text \<open>
  The parsers take the bytes they are given (\<open>data\<close>, \<open>len\<close>) as a byte list. hcore_atoi,
  hcore_atosz and hcore_hextoi are three copies of one accumulation with an overflow guard; the
  locale \<open>digit_reader\<close> states what such a loop promises and each of them interprets it.
  hcore_parse_version may run forever and reads behind its argument, so its loop is a partial
  function over the object the string lies in, with \<open>Fault\<close> for a read outside it.
\<close>

unbundle bit_operations_syntax

subsection \<open>hcore_atosz, hcore_atoi, hcore_hextoi\<close>

fun atosz_loop :: "int \<Rightarrow> byte list \<Rightarrow> int" where
  "atosz_loop v [] = v"
| "atosz_loop v (c # line) =
     (let cutoff = HCORE_MAX_SSIZE_T_VALUE div 10; cutlim = HCORE_MAX_SSIZE_T_VALUE mod 10 in
      if uint c < 48 \<or> 57 < uint c then HCORE_ERROR
      else if cutoff \<le> v \<and> (cutoff < v \<or> cutlim < uint c - 48) then HCORE_ERROR
      else atosz_loop (i64 (v * 10 + (uint c - 48))) line)"

definition hcore_atosz :: "byte list \<Rightarrow> int" where
  "hcore_atosz line = (if line = [] then HCORE_ERROR else atosz_loop 0 line)"

fun atoi_loop :: "int \<Rightarrow> byte list \<Rightarrow> int" where
  "atoi_loop v [] = v"
| "atoi_loop v (c # line) =
     (let cutoff = HCORE_MAX_INT_T_VALUE div 10; cutlim = HCORE_MAX_INT_T_VALUE mod 10 in
      if uint c < 48 \<or> 57 < uint c then HCORE_ERROR
      else if cutoff \<le> v \<and> (cutoff < v \<or> cutlim < uint c - 48) then HCORE_ERROR
      else atoi_loop (i32 (v * 10 + (uint c - 48))) line)"

definition hcore_atoi :: "byte list \<Rightarrow> int" where
  "hcore_atoi line = (if line = [] then HCORE_ERROR else atoi_loop 0 line)"

fun hextoi_loop :: "int \<Rightarrow> byte list \<Rightarrow> int" where
  "hextoi_loop v [] = v"
| "hextoi_loop v (ch # line) =
     (let cutoff = HCORE_MAX_INT_T_VALUE div 16 in
      if cutoff < v then HCORE_ERROR
      else if 48 \<le> uint ch \<and> uint ch \<le> 57 then hextoi_loop (i32 (v * 16 + (uint ch - 48))) line
      else let c = ch OR 0x20 in
           if 97 \<le> uint c \<and> uint c \<le> 102 then hextoi_loop (i32 (v * 16 + (uint c - 97 + 10))) line
           else HCORE_ERROR)"

definition hcore_hextoi :: "byte list \<Rightarrow> int" where
  "hcore_hextoi line = (if line = [] then HCORE_ERROR else hextoi_loop 0 line)"

subsection \<open>The contract of a digit reader\<close>

text \<open>The number a list of digits denotes, unbounded.\<close>

fun value_of :: "(byte \<Rightarrow> int option) \<Rightarrow> int \<Rightarrow> int \<Rightarrow> byte list \<Rightarrow> int option" where
  "value_of dig base v [] = Some v"
| "value_of dig base v (c # cs) =
     (case dig c of None \<Rightarrow> None | Some d \<Rightarrow> value_of dig base (v * base + d) cs)"

definition dec_digit :: "byte \<Rightarrow> int option" where
  "dec_digit c = (if is_digit c then Some (digit_val c) else None)"

definition hex_digit :: "byte \<Rightarrow> int option" where
  "hex_digit c = (if is_digit c then Some (digit_val c)
     else if 97 \<le> uint (c OR 0x20) \<and> uint (c OR 0x20) \<le> 102 then Some (uint (c OR 0x20) - 87) else None)"

definition reader_spec :: "(byte \<Rightarrow> int option) \<Rightarrow> int \<Rightarrow> int \<Rightarrow> byte list \<Rightarrow> int" where
  "reader_spec dig base M line =
     (if line = [] then HCORE_ERROR
      else case value_of dig base 0 line of
             Some r \<Rightarrow> if r \<le> M then r else HCORE_ERROR
           | None \<Rightarrow> HCORE_ERROR)"

locale digit_reader =
  fixes loop :: "int \<Rightarrow> byte list \<Rightarrow> int"
    and dig :: "byte \<Rightarrow> int option"
    and base :: int
    and M :: int
  assumes loop_Nil: "loop v [] = v"
    and loop_Cons: "0 \<le> v \<Longrightarrow> v \<le> M \<Longrightarrow> loop v (c # cs) =
      (case dig c of None \<Rightarrow> -1 | Some d \<Rightarrow> if M < v * base + d then -1 else loop (v * base + d) cs)"
    and dig_pos: "dig c = Some d \<Longrightarrow> 0 \<le> d"
    and base_pos: "1 \<le> base"
    and M_pos: "0 \<le> M"
begin

lemma value_mono: "0 \<le> v \<Longrightarrow> value_of dig base v cs = Some r \<Longrightarrow> v \<le> r"
proof (induction cs arbitrary: v)
  case Nil
  then show ?case by simp
next
  case (Cons c cs)
  then obtain d where d: "dig c = Some d" "value_of dig base (v * base + d) cs = Some r"
    by (auto split: option.splits)
  have "v * 1 \<le> v * base" using Cons.prems(1) base_pos by (intro mult_left_mono) auto
  then have "v \<le> v * base + d" using dig_pos [OF d(1)] by simp
  then show ?case using Cons.IH [OF _ d(2)] Cons.prems(1) by simp
qed

lemma loop_value:
  assumes "0 \<le> v" and "v \<le> M"
  shows "loop v cs = (case value_of dig base v cs of Some r \<Rightarrow> if r \<le> M then r else -1 | None \<Rightarrow> -1)"
  using assms
proof (induction cs arbitrary: v)
  case Nil
  then show ?case by (simp add: loop_Nil)
next
  case (Cons c cs)
  show ?case
  proof (cases "dig c")
    case None
    then show ?thesis using Cons.prems by (simp add: loop_Cons)
  next
    case (Some d)
    have pos: "0 \<le> v * base + d" using Cons.prems(1) base_pos dig_pos [OF Some] by simp
    show ?thesis
    proof (cases "v * base + d \<le> M")
      case True
      then show ?thesis using Cons.prems Cons.IH [OF pos True] Some by (simp add: loop_Cons)
    next
      case False
      then show ?thesis using Cons.prems Some value_mono [OF pos, of cs]
        by (auto simp: loop_Cons split: option.splits)
    qed
  qed
qed

lemma reads: "(if line = [] then -1 else loop 0 line) = reader_spec dig base M line"
  using loop_value [of 0 line] M_pos by (simp add: reader_spec_def)

end

lemma dec_digit_pos: "dec_digit c = Some d \<Longrightarrow> 0 \<le> d \<and> d \<le> 9"
  using digit_val_range by (auto simp: dec_digit_def split: if_splits)

lemma hex_digit_pos: "hex_digit c = Some d \<Longrightarrow> 0 \<le> d \<and> d \<le> 15"
  using digit_val_range [of c] by (auto simp: hex_digit_def split: if_splits)

interpretation atosz: digit_reader atosz_loop dec_digit 10 HCORE_MAX_SSIZE_T_VALUE
proof
  fix v c cs
  assume v: "(0::int) \<le> v" "v \<le> 9223372036854775807"
  show "atosz_loop v (c # cs) = (case dec_digit c of None \<Rightarrow> -1
     | Some d \<Rightarrow> if 9223372036854775807 < v * 10 + d then -1 else atosz_loop (v * 10 + d) cs)"
    using v by (auto simp: dec_digit_def digit_val_def byte_simps Let_def i64_id)
qed (auto dest: dec_digit_pos)

interpretation atoi: digit_reader atoi_loop dec_digit 10 HCORE_MAX_INT_T_VALUE
proof
  fix v c cs
  assume v: "(0::int) \<le> v" "v \<le> 2147483647"
  show "atoi_loop v (c # cs) = (case dec_digit c of None \<Rightarrow> -1
     | Some d \<Rightarrow> if 2147483647 < v * 10 + d then -1 else atoi_loop (v * 10 + d) cs)"
    using v by (auto simp: dec_digit_def digit_val_def byte_simps Let_def i32_id)
qed (auto dest: dec_digit_pos)

interpretation hextoi: digit_reader hextoi_loop hex_digit 16 HCORE_MAX_INT_T_VALUE
proof
  fix v c cs
  assume v: "(0::int) \<le> v" "v \<le> 2147483647"
  have d: "hex_digit c = Some d \<Longrightarrow> 0 \<le> d \<and> d \<le> 15" for d using hex_digit_pos .
  show "hextoi_loop v (c # cs) = (case hex_digit c of None \<Rightarrow> -1
     | Some d \<Rightarrow> if 2147483647 < v * 16 + d then -1 else hextoi_loop (v * 16 + d) cs)"
    using v d by (auto simp: hex_digit_def digit_val_def byte_simps Let_def i32_id split: if_splits)
qed (auto dest: hex_digit_pos)

lemma atosz_spec: "hcore_atosz line = reader_spec dec_digit 10 HCORE_MAX_SSIZE_T_VALUE line"
  and atoi_spec: "hcore_atoi line = reader_spec dec_digit 10 HCORE_MAX_INT_T_VALUE line"
  and hextoi_spec: "hcore_hextoi line = reader_spec hex_digit 16 HCORE_MAX_INT_T_VALUE line"
  using atosz.reads [of line] atoi.reads [of line] hextoi.reads [of line]
  by (simp_all add: hcore_atosz_def hcore_atoi_def hcore_hextoi_def)

text \<open>C24: hcore_atosz, hcore_atoi and hcore_hextoi return exactly the number their digits denote
  when it fits the type, and HCORE_ERROR for an empty line, a foreign character or a number that
  does not fit: the guards reject no representable number and let none through.\<close>

theorem digit_readers_correct:
  "hcore_atosz line = reader_spec dec_digit 10 HCORE_MAX_SSIZE_T_VALUE line
   \<and> hcore_atoi line = reader_spec dec_digit 10 HCORE_MAX_INT_T_VALUE line
   \<and> hcore_hextoi line = reader_spec hex_digit 16 HCORE_MAX_INT_T_VALUE line"
  by (simp add: atosz_spec atoi_spec hextoi_spec)

subsection \<open>hcore_parse_size\<close>

definition hcore_parse_size :: "byte list \<Rightarrow> int" where
  "hcore_parse_size line =
     (let len = length line in
      if len = 0 then HCORE_ERROR
      else
        let unt = uint (line ! (len - 1));
            (len, mx, scale) =
              (if unt = 75 \<or> unt = 107 then (len - 1, HCORE_MAX_SSIZE_T_VALUE div 1024, 1024)
               else if unt = 77 \<or> unt = 109
               then (len - 1, HCORE_MAX_SSIZE_T_VALUE div (1024 * 1024), 1024 * 1024)
               else if unt = 71 \<or> unt = 103
               then (len - 1, HCORE_MAX_SSIZE_T_VALUE div (1024 * 1024 * 1024), 1024 * 1024 * 1024)
               else (len, HCORE_MAX_SSIZE_T_VALUE, 1));
            sz = hcore_atosz (take len line)
        in if sz = HCORE_ERROR \<or> mx < sz then HCORE_ERROR else i64 (sz * scale))"

text \<open>The unit letters, the factor each stands for, and the specification of a size.\<close>

definition unit_scale :: "byte \<Rightarrow> int option" where
  "unit_scale c = (if uint c \<in> {75, 107} then Some 1024
     else if uint c \<in> {77, 109} then Some 1048576
     else if uint c \<in> {71, 103} then Some 1073741824 else None)"

definition scaled_spec :: "byte list \<Rightarrow> int \<Rightarrow> int" where
  "scaled_spec digits scale =
     (if digits = [] then HCORE_ERROR
      else case value_of dec_digit 10 0 digits of
             None \<Rightarrow> HCORE_ERROR
           | Some v \<Rightarrow> if v * scale \<le> HCORE_MAX_SSIZE_T_VALUE then v * scale else HCORE_ERROR)"

definition size_spec :: "byte list \<Rightarrow> int" where
  "size_spec line =
     (if line = [] then HCORE_ERROR
      else case unit_scale (last line) of
             Some k \<Rightarrow> scaled_spec (butlast line) k
           | None \<Rightarrow> scaled_spec line 1)"

lemma scaled_reader:
  assumes "scale \<in> {1, 1024, 1048576, 1073741824 :: int}" and "mx = HCORE_MAX_SSIZE_T_VALUE div scale"
  shows "(if hcore_atosz ds = -1 \<or> mx < hcore_atosz ds then -1 else i64 (hcore_atosz ds * scale))
    = scaled_spec ds scale"
proof (cases "ds = [] \<or> value_of dec_digit 10 0 ds = None")
  case True
  then have "hcore_atosz ds = -1" using atosz_spec [of ds] by (auto simp: reader_spec_def)
  then show ?thesis using True by (auto simp: scaled_spec_def)
next
  case False
  then obtain v where v: "value_of dec_digit 10 0 ds = Some v" "ds \<noteq> []" by auto
  have "0 \<le> v" using atosz.value_mono [OF _ v(1)] by simp
  moreover have "hcore_atosz ds = (if v \<le> 9223372036854775807 then v else -1)"
    using atosz_spec [of ds] v by (simp add: reader_spec_def)
  ultimately show ?thesis using assms v by (auto simp: i64_id scaled_spec_def)
qed

text \<open>C27: hcore_parse_size returns the digits times the unit's factor exactly when the product fits
  ssize_t: the limits tested before the multiplication never reject or let through a wrong one.\<close>

theorem parse_size_correct: "hcore_parse_size line = size_spec line"
proof (cases "line = []")
  case True
  then show ?thesis by (simp add: hcore_parse_size_def size_spec_def)
next
  case False
  then have parts: "line ! (length line - 1) = last line" "take (length line - 1) line = butlast line"
    by (simp_all add: last_conv_nth butlast_conv_take)
  define u where "u = uint (last line)"
  consider "u = 75 \<or> u = 107" | "u = 77 \<or> u = 109" | "u = 71 \<or> u = 103"
    | "u \<notin> {75, 107, 77, 109, 71, 103}" by auto
  then show ?thesis
  proof cases
    case 1
    then show ?thesis using False scaled_reader [of 1024 _ "butlast line"]
      by (auto simp: hcore_parse_size_def size_spec_def unit_scale_def parts Let_def u_def simp del: One_nat_def)
  next
    case 2
    then show ?thesis using False scaled_reader [of 1048576 _ "butlast line"]
      by (auto simp: hcore_parse_size_def size_spec_def unit_scale_def parts Let_def u_def simp del: One_nat_def)
  next
    case 3
    then show ?thesis using False scaled_reader [of 1073741824 _ "butlast line"]
      by (auto simp: hcore_parse_size_def size_spec_def unit_scale_def parts Let_def u_def simp del: One_nat_def)
  next
    case 4
    then show ?thesis using False scaled_reader [of 1 _ line]
      by (auto simp: hcore_parse_size_def size_spec_def unit_scale_def parts Let_def u_def simp del: One_nat_def)
  qed
qed

subsection \<open>hcore_parse_version\<close>

datatype vphase = prefix_phase | separator_phase | version_phase

record pvstate =
  pv_p :: nat
  pv_phase :: vphase
  pv_vers :: "int list"
  pv_pos :: nat

text \<open>The inner loop over the digits of one number, from position \<open>p\<close> of the object on. It reads
  one byte ahead, past the end of the string when the string ends in a digit. \<open>None\<close> is the jump
  to \<open>error\<close>.\<close>

fun pv_digits :: "int \<Rightarrow> nat \<Rightarrow> byte list \<Rightarrow> (int \<times> nat) option run" where
  "pv_digits v p [] = Fault"
| "pv_digits v p (c # cs) =
     (if is_digit c then
        (let v = u32 (v * 10 + digit_val c) in
         if 0xff < v then Ret None else pv_digits v (Suc p) cs)
      else Ret (Some (v, p)))"

text \<open>One turn of the outer loop; \<open>Ret None\<close> is the jump to \<open>error\<close>.\<close>

definition pv_step :: "byte list \<Rightarrow> pvstate \<Rightarrow> pvstate option run" where
  "pv_step obj s =
     (let c = obj ! pv_p s in
      case pv_phase s of
        prefix_phase \<Rightarrow>
          Ret (Some (s\<lparr>pv_p := (if uint c = 118 \<or> uint c = 86 then Suc (pv_p s) else pv_p s),
                       pv_phase := version_phase\<rparr>))
      | version_phase \<Rightarrow>
          (if 3 \<le> pv_pos s then Ret (Some s)
           else bind_run (pv_digits (pv_vers s ! pv_pos s) (pv_p s) (drop (pv_p s) obj))
             (\<lambda>r. case r of None \<Rightarrow> Ret None
                | Some (v, p) \<Rightarrow>
                    Ret (Some (s\<lparr>pv_vers := (pv_vers s)[pv_pos s := v], pv_p := p,
                                 pv_pos := Suc (pv_pos s), pv_phase := separator_phase\<rparr>))))
      | separator_phase \<Rightarrow>
          (if uint c \<noteq> 46 then Ret None else Ret (Some (s\<lparr>pv_phase := version_phase\<rparr>))))"

partial_function (option) pv_loop :: "byte list \<Rightarrow> nat \<Rightarrow> pvstate \<Rightarrow> pvstate option run option" where
  "pv_loop obj len s =
     (if len \<le> pv_p s then Some (Ret (Some s))
      else if length obj \<le> pv_p s then Some Fault
      else case pv_step obj s of
             Fault \<Rightarrow> Some Fault
           | Ret None \<Rightarrow> Some (Ret None)
           | Ret (Some s) \<Rightarrow> pv_loop obj len s)"

text \<open>\<open>obj\<close> is the object the string is in, from its first byte on, and \<open>len\<close> the length of the
  string; a NUL-terminated one has a byte 0 behind it.\<close>

definition hcore_parse_version :: "byte list \<Rightarrow> nat \<Rightarrow> int run option" where
  "hcore_parse_version obj len =
     map_option (\<lambda>r. bind_run r (\<lambda>s. case s of None \<Rightarrow> Ret 0
       | Some s \<Rightarrow> Ret (let master = pv_vers s ! 0; minor = pv_vers s ! 1; patch = pv_vers s ! 2 in
           if master = 0 then 0 else u32 (master * 65536 OR minor * 256 OR patch))))
     (pv_loop obj len \<lparr>pv_p = 0, pv_phase = prefix_phase, pv_vers = [0, 0, 0], pv_pos = 0\<rparr>)"

text \<open>A position on a dot that no turn of the loop leaves.\<close>

definition pv_stuck :: "byte list \<Rightarrow> nat \<Rightarrow> pvstate \<Rightarrow> bool" where
  "pv_stuck obj len s \<longleftrightarrow> pv_p s < len \<and> pv_p s < length obj \<and> uint (obj ! pv_p s) = 46
     \<and> (pv_phase s = version_phase \<or> pv_phase s = separator_phase)"

lemma pv_stuck_step:
  assumes "pv_stuck obj len s"
  shows "\<exists>t. pv_step obj s = Ret (Some t) \<and> pv_stuck obj len t"
proof -
  have dot: "\<not> is_digit (obj ! pv_p s)" "drop (pv_p s) obj = obj ! pv_p s # drop (Suc (pv_p s)) obj"
    using assms by (simp_all add: pv_stuck_def byte_simps Cons_nth_drop_Suc)
  show ?thesis
    using assms dot
    by (cases "pv_phase s") (auto simp: pv_stuck_def pv_step_def Let_def)
qed

lemma pv_loop_not_stuck: "pv_loop obj len s = Some r \<Longrightarrow> \<not> pv_stuck obj len s"
proof (rule pv_loop.raw_induct [where P = "\<lambda>obj len s r. \<not> pv_stuck obj len s"])
  fix rec obj len s and r :: "pvstate option run"
  assume IH: "\<And>obj len s r. rec obj len s = Some r \<Longrightarrow> \<not> pv_stuck obj len s"
    and body: "(if len \<le> pv_p s then Some (Ret (Some s))
      else if length obj \<le> pv_p s then Some Fault
      else case pv_step obj s of Ret None \<Rightarrow> Some (Ret None)
        | Ret (Some s) \<Rightarrow> rec obj len s | Fault \<Rightarrow> Some Fault) = Some r"
  show "\<not> pv_stuck obj len s"
  proof
    assume st: "pv_stuck obj len s"
    then obtain t where "pv_step obj s = Ret (Some t)" "pv_stuck obj len t"
      using pv_stuck_step by blast
    then show False using IH body st by (auto simp: pv_stuck_def)
  qed
qed

lemma pv_stuck_loops: "pv_stuck obj len s \<Longrightarrow> pv_loop obj len s = None"
  using pv_loop_not_stuck by (cases "pv_loop obj len s") auto

lemma pv_digits_run:
  assumes "value_of dec_digit 10 v ds = Some r" and "r \<le> 255" and "0 \<le> v" and "\<not> is_digit c"
  shows "pv_digits v p (ds @ c # rest) = Ret (Some (r, p + length ds))"
  using assms
proof (induction ds arbitrary: v p)
  case Nil
  then show ?case by simp
next
  case (Cons d ds)
  then have d: "is_digit d" and val: "value_of dec_digit 10 (v * 10 + digit_val d) ds = Some r"
    by (cases "is_digit d"; simp add: dec_digit_def [of d])+
  have pos: "0 \<le> v * 10 + digit_val d" using digit_val_range [OF d] Cons.prems(3) by simp
  have le: "v * 10 + digit_val d \<le> 255"
    using atosz.value_mono [OF pos val] Cons.prems(2) by simp
  then have "u32 (v * 10 + digit_val d) = v * 10 + digit_val d" using pos by (simp add: u32_id)
  then show ?case using Cons.IH [OF val Cons.prems(2) pos Cons.prems(4)] d le by (simp add: Let_def)
qed

text \<open>The optional letter before the first number.\<close>

definition version_prefix :: "byte list \<Rightarrow> bool" where
  "version_prefix pre \<longleftrightarrow> pre = [] \<or> pre = [118] \<or> pre = [86]"

lemma pv_first_number:
  assumes pre: "version_prefix pre" and ds: "ds \<noteq> []"
    and val: "value_of dec_digit 10 0 ds = Some r" "r \<le> 255" "\<not> is_digit c"
    and obj: "obj = pre @ ds @ c # rest" and len: "length pre + length ds \<le> len"
  shows "pv_loop obj len \<lparr>pv_p = 0, pv_phase = prefix_phase, pv_vers = [0, 0, 0], pv_pos = 0\<rparr>
    = pv_loop obj len \<lparr>pv_p = length pre + length ds, pv_phase = separator_phase,
        pv_vers = [r, 0, 0], pv_pos = 1\<rparr>"
proof -
  have ne: "0 < length obj" "0 < len" using obj ds len by (cases ds; simp)+
  have dig: "is_digit (ds ! 0)" using val(1) ds by (cases ds) (auto simp: dec_digit_def split: if_splits)
  have step1: "pv_step obj \<lparr>pv_p = 0, pv_phase = prefix_phase, pv_vers = [0, 0, 0], pv_pos = 0\<rparr>
    = Ret (Some \<lparr>pv_p = length pre, pv_phase = version_phase, pv_vers = [0, 0, 0], pv_pos = 0\<rparr>)"
    using pre ds dig
    by (auto simp: pv_step_def obj version_prefix_def nth_append byte_simps Let_def)
  have drop: "drop (length pre) obj = ds @ c # rest" by (simp add: obj)
  have step2: "pv_step obj \<lparr>pv_p = length pre, pv_phase = version_phase, pv_vers = [0, 0, 0], pv_pos = 0\<rparr>
    = Ret (Some \<lparr>pv_p = length pre + length ds, pv_phase = separator_phase, pv_vers = [r, 0, 0], pv_pos = 1\<rparr>)"
    using pv_digits_run [OF val(1,2) _ val(3), of "length pre" rest]
    by (simp add: pv_step_def drop Let_def)
  have "length pre < len" "length pre < length obj" using len ds obj by (cases ds; simp)+
  then show ?thesis using ne step1 step2
    by (subst pv_loop.simps, simp, subst pv_loop.simps, simp)
qed

text \<open>A version with a dot, as in the documented format, never returns: after the first number
  the loop stays on the dot, which no phase moves over.\<close>

theorem parse_version_loops_on_dot:
  assumes "version_prefix pre" and "ds \<noteq> []" and "value_of dec_digit 10 0 ds = Some r" and "r \<le> 255"
    and "obj = pre @ ds @ 46 # rest" and "length pre + length ds < len" and "len \<le> length obj"
  shows "hcore_parse_version obj len = None"
proof -
  have "\<not> is_digit 46" by (simp add: byte_simps)
  note run = pv_first_number [OF assms(1-4) this assms(5), of len]
  have "pv_stuck obj len \<lparr>pv_p = length pre + length ds, pv_phase = separator_phase,
      pv_vers = [r, 0, 0], pv_pos = 1\<rparr>"
    using assms(5-7) by (simp add: pv_stuck_def nth_append)
  then show ?thesis
    using run assms(6) by (simp add: hcore_parse_version_def pv_stuck_loops)
qed

theorem parse_version_loops_on_dot_witness:
  "hcore_parse_version (bytes ''v1.0.0'' @ [0]) 6 = None"
  by (rule parse_version_loops_on_dot [of "bytes ''v''" "bytes ''1''" 1 _ "bytes ''0.0'' @ [0]"])
    (simp_all add: version_prefix_def bytes_def dec_digit_def digit_val_def byte_simps of_char_def)

text \<open>What it does return: a lone number followed by a character that is no digit, and no dot.\<close>

lemma parse_version_single:
  assumes "version_prefix pre" and "ds \<noteq> []" and "value_of dec_digit 10 0 ds = Some r"
    and "r \<le> 255" and "\<not> is_digit c" and "obj = pre @ ds @ c # rest"
  shows "hcore_parse_version obj (length pre + length ds) = Some (Ret (r * 65536))"
proof -
  have r: "0 \<le> r" using atosz.value_mono [OF _ assms(3)] by simp
  have "pv_loop obj (length pre + length ds) \<lparr>pv_p = length pre + length ds, pv_phase = separator_phase,
      pv_vers = [r, 0, 0], pv_pos = 1\<rparr>
    = Some (Ret (Some \<lparr>pv_p = length pre + length ds, pv_phase = separator_phase,
      pv_vers = [r, 0, 0], pv_pos = 1\<rparr>))"
    by (subst pv_loop.simps) simp
  then show ?thesis using pv_first_number [OF assms] r assms(4)
    by (simp add: hcore_parse_version_def Let_def u32_id)
qed

text \<open>A number that ends the object is read past its end.\<close>

lemma parse_version_reads_past_end: "hcore_parse_version (bytes ''1'') 1 = Some Fault"
proof -
  have "bytes ''1'' = [49]" by (simp add: bytes_def of_char_def)
  then show ?thesis
    by (simp add: hcore_parse_version_def pv_loop.simps pv_step_def byte_simps u32_def digit_val_def Let_def)
qed

subsection \<open>hcore_strlchr and hcore_hex_dump\<close>

fun hcore_strlchr :: "byte list \<Rightarrow> byte \<Rightarrow> nat \<Rightarrow> nat option" where
  "hcore_strlchr [] c p = None"
| "hcore_strlchr (x # xs) c p = (if x = c then Some p else hcore_strlchr xs c (Suc p))"

lemma strlchr_first:
  "hcore_strlchr xs c p = (if c \<in> set xs then Some (p + length (takeWhile (\<lambda>x. x \<noteq> c) xs)) else None)"
  by (induction xs arbitrary: p) auto

definition hex_char :: "byte \<Rightarrow> byte" where
  "hex_char n = bytes ''0123456789abcdef'' ! unat n"

text \<open>The bytes written behind \<open>dst\<close>; the function returns the pointer behind the last one.\<close>

fun hcore_hex_dump :: "byte list \<Rightarrow> byte list" where
  "hcore_hex_dump [] = []"
| "hcore_hex_dump (c # cs) = hex_char (drop_bit 4 c) # hex_char (c AND 0xf) # hcore_hex_dump cs"

lemma hex_char_digit:
  assumes "unat n < 16"
  shows "hex_digit (hex_char n) = Some (uint n)"
proof -
  have "\<forall>k\<in>set [0..<16]. hex_digit (bytes ''0123456789abcdef'' ! k) = Some (int k)"
    by (simp add: upt_rec bytes_def of_char_def hex_digit_def is_digit_def digit_val_def)
  then show ?thesis using assms by (simp add: hex_char_def)
qed

definition big_endian :: "byte list \<Rightarrow> int" where
  "big_endian = foldl (\<lambda>v c. v * 256 + uint c) 0"

lemma hex_dump_value:
  "value_of hex_digit 16 v (hcore_hex_dump cs) = Some (foldl (\<lambda>v c. v * 256 + uint c) v cs)"
proof (induction cs arbitrary: v)
  case Nil
  then show ?case by simp
next
  case (Cons c cs)
  have hi: "unat (drop_bit 4 c) < 16" "uint (drop_bit 4 c) = uint c div 16"
  proof -
    have "uint (drop_bit 4 c) = uint c div 16" by (simp add: drop_bit_eq_div uint_div)
    moreover have "uint c < 256" using uint_lt2p [of c] by simp
    ultimately have "uint (drop_bit 4 c) < 16" by linarith
    then show "unat (drop_bit 4 c) < 16" using uint_nat [of "drop_bit 4 c"] by linarith
    show "uint (drop_bit 4 c) = uint c div 16" by fact
  qed
  have "c AND 0xf = take_bit 4 c" by (simp add: take_bit_eq_mask mask_eq_exp_minus_1)
  then have lo: "uint (c AND 0xf) = uint c mod 16" by (simp add: take_bit_eq_mod uint_mod)
  then have lo': "unat (c AND 0xf) < 16"
    using uint_nat [of "c AND 0xf"] pos_mod_bound [of 16 "uint c"] by linarith
  have "uint c div 16 * 16 + uint c mod 16 = uint c" by simp
  then have "(v * 16 + uint c div 16) * 16 + uint c mod 16 = v * 256 + uint c" by (simp add: algebra_simps)
  then show ?case using Cons hex_char_digit [OF hi(1)] hex_char_digit [OF lo'] hi(2) lo by (simp add: ac_simps)
qed

text \<open>C29: hcore_hex_dump writes two characters per byte, and reading them back with the digits of
  hcore_hextoi gives the big-endian number of the bytes; hcore_hextoi itself returns it whenever
  it fits hcore_int_t.\<close>

theorem hex_dump_roundtrip:
  "length (hcore_hex_dump cs) = 2 * length cs
   \<and> value_of hex_digit 16 0 (hcore_hex_dump cs) = Some (big_endian cs)
   \<and> (cs \<noteq> [] \<and> big_endian cs \<le> HCORE_MAX_INT_T_VALUE
      \<longrightarrow> hcore_hextoi (hcore_hex_dump cs) = big_endian cs)"
proof -
  have "length (hcore_hex_dump cs) = 2 * length cs" by (induction cs) auto
  moreover have "cs \<noteq> [] \<Longrightarrow> hcore_hex_dump cs \<noteq> []" by (cases cs) auto
  ultimately show ?thesis
    using hex_dump_value [of 0 cs] by (simp add: big_endian_def hextoi_spec reader_spec_def)
qed

theorem hex_dump_roundtrip_witness:
  "hcore_hextoi (hcore_hex_dump [0x12, 0xab, 0x7f]) = 1223551"
  using hex_dump_roundtrip [of "[0x12, 0xab, 0x7f]"] by (simp add: big_endian_def)

subsection \<open>hcore_strtok, hcore_strtokz, hcore_strcpyd\<close>

text \<open>
  The tokens are kept beside the array that holds them, as offset and length in the source, in
  the order of the array's elements; HArray shows that pushing keeps the elements. \<open>pos\<close> is the
  offset of \<open>p\<close>, \<open>delim\<close> the delimiters without their terminator.
\<close>

fun strtok_loop :: "byte list \<Rightarrow> nat \<Rightarrow> bool \<Rightarrow> byte list \<Rightarrow> harray \<Rightarrow> (nat \<times> nat) list \<Rightarrow> hpool \<Rightarrow> env
    \<Rightarrow> (harray \<times> (nat \<times> nat) list) option \<times> hpool \<times> env" where
  "strtok_loop delim pos start [] t toks p e = (Some (t, toks), p, e)"
| "strtok_loop delim pos start (c # cs) t toks p e =
     (if c \<in> set delim then strtok_loop delim (Suc pos) False cs t toks p e
      else if \<not> start then
        (case hcore_array_push t p e of
           (None, t, p, e) \<Rightarrow> (None, p, e)
         | (Some _, t, p, e) \<Rightarrow> strtok_loop delim (Suc pos) True cs t (toks @ [(pos, 0 + 1)]) p e)
      else strtok_loop delim (Suc pos) True cs t
             (butlast toks @ [(fst (last toks), snd (last toks) + 1)]) p e)"

definition hcore_strtok :: "byte list \<Rightarrow> byte list option \<Rightarrow> hpool \<Rightarrow> env
    \<Rightarrow> (harray \<times> (nat \<times> nat) list) option \<times> hpool \<times> env" where
  "hcore_strtok src delim p e =
     (if length src = 0 then (None, p, e)
      else case hcore_array_create p 1 16 e of
             (None, p, e) \<Rightarrow> (None, p, e)
           | (Some (_, t), p, e) \<Rightarrow>
               (let delim = (case delim of Some d \<Rightarrow> d | None \<Rightarrow> [32, 44, 9, 13, 10])
                in strtok_loop delim 0 False src t [] p e))"

definition store_bytes :: "int \<Rightarrow> byte list \<Rightarrow> env \<Rightarrow> env" where
  "store_bytes a bs e = e\<lparr>mem := (\<lambda>x. if a \<le> x \<and> x < a + int (length bs) then bs ! nat (x - a) else mem e x)\<rparr>"

definition read_bytes :: "env \<Rightarrow> int \<Rightarrow> nat \<Rightarrow> byte list" where
  "read_bytes e a n = map (\<lambda>i. mem e (a + int i)) [0..<n]"

definition token_of :: "byte list \<Rightarrow> nat \<times> nat \<Rightarrow> byte list" where
  "token_of src t = take (snd t) (drop (fst t) src)"

text \<open>The loop of hcore_strtokz; the result is the new addresses of the tokens.\<close>

fun strtokz_loop :: "byte list \<Rightarrow> (nat \<times> nat) list \<Rightarrow> int list \<Rightarrow> hpool \<Rightarrow> env \<Rightarrow> int list option \<times> hpool \<times> env" where
  "strtokz_loop src [] as p e = (Some as, p, e)"
| "strtokz_loop src (t # ts) as p e =
     (case hcore_palloc p (int (snd t) + 1) e of
        (None, p, e) \<Rightarrow> (None, p, e)
      | (Some a, p, e) \<Rightarrow>
          strtokz_loop src ts (as @ [a]) p (store_bytes a (token_of src t @ [0]) e))"

definition hcore_strtokz :: "byte list \<Rightarrow> byte list option \<Rightarrow> hpool \<Rightarrow> env
    \<Rightarrow> (harray \<times> (nat \<times> nat) list \<times> int list) option \<times> hpool \<times> env" where
  "hcore_strtokz src delim p e =
     (case hcore_strtok src delim p e of
        (None, p, e) \<Rightarrow> (None, p, e)
      | (Some (t, toks), p, e) \<Rightarrow>
          (case strtokz_loop src toks [] p e of
             (None, p, e) \<Rightarrow> (None, p, e)
           | (Some as, p, e) \<Rightarrow> (Some (t, toks, as), p, e)))"

definition hcore_strcpyd :: "byte list \<Rightarrow> hpool \<Rightarrow> env \<Rightarrow> int option \<times> hpool \<times> env" where
  "hcore_strcpyd str p e =
     (case hcore_pnalloc p (int (length str) + 1) e of
        (None, p, e) \<Rightarrow> (None, p, e)
      | (Some dst, p, e) \<Rightarrow> (Some dst, p, store_bytes dst (str @ [0]) e))"

text \<open>The specification: the maximal runs of characters that are no delimiters.\<close>

function words :: "byte list \<Rightarrow> byte list \<Rightarrow> byte list list" where
  "words delim [] = []"
| "words delim (c # cs) =
     (if c \<in> set delim then words delim cs
      else (c # takeWhile (\<lambda>x. x \<notin> set delim) cs) # words delim (dropWhile (\<lambda>x. x \<notin> set delim) cs))"
  by pat_completeness auto
termination
  by (relation "measure (length \<circ> snd)") (auto simp: le_imp_less_Suc length_dropWhile_le)

lemma token_snoc:
  assumes "f + n = pos" and "c # cs = drop pos src"
  shows "token_of src (f, Suc n) = token_of src (f, n) @ [c]"
proof -
  have "drop n (drop f src) = c # cs" using assms by (simp add: add.commute)
  then show ?thesis
    by (metis (no_types) append_Cons append_Nil fst_conv snd_conv take_Suc_conv_app_nth token_of_def
        nth_via_drop length_drop drop_eq_Nil list.distinct(1) not_less)
qed

lemma strtok_loop_words:
  assumes "strtok_loop delim pos start cs t toks p e = (Some (t', toks'), p', e')"
    and "cs = drop pos src" and "start \<Longrightarrow> toks \<noteq> [] \<and> fst (last toks) + snd (last toks) = pos"
  shows "\<exists>new. toks' = (if start then butlast toks else toks) @ new
    \<and> map (token_of src) new =
        (if start then (token_of src (last toks) @ takeWhile (\<lambda>x. x \<notin> set delim) cs)
             # words delim (dropWhile (\<lambda>x. x \<notin> set delim) cs)
         else words delim cs)"
  using assms
proof (induction cs arbitrary: pos start t toks p e)
  case Nil
  then show ?case by (cases start) (auto intro: exI [of _ "[last toks]"])
next
  case (Cons c cs)
  have rest: "cs = drop (Suc pos) src" using Cons.prems(2) by (metis drop_Suc list.sel(3) tl_drop)
  consider (sep) "c \<in> set delim" | (first) "c \<notin> set delim" "\<not> start" | (more) "c \<notin> set delim" "start" by blast
  then show ?case
  proof cases
    case sep
    then have run: "strtok_loop delim (Suc pos) False cs t toks p e = (Some (t', toks'), p', e')"
      using Cons.prems(1) by simp
    obtain new where new: "toks' = toks @ new" "map (token_of src) new = words delim cs"
      using Cons.IH [OF run rest] by auto
    show ?thesis
    proof (cases start)
      case True
      then show ?thesis using new Cons.prems(3) sep
        by (intro exI [of _ "last toks # new"]) simp
    qed (use new sep in simp)
  next
    case first
    then obtain t1 p1 e1 where
      run: "strtok_loop delim (Suc pos) True cs t1 (toks @ [(pos, 1)]) p1 e1 = (Some (t', toks'), p', e')"
      using Cons.prems(1) by (auto split: prod.splits option.splits)
    have "token_of src (pos, Suc 0) = [c]" using token_snoc [of pos 0 pos c cs src] Cons.prems(2) by (simp add: token_of_def)
    then show ?thesis using Cons.IH [OF run rest] first by simp
  next
    case more
    then have run: "strtok_loop delim (Suc pos) True cs t
        (butlast toks @ [(fst (last toks), snd (last toks) + 1)]) p e = (Some (t', toks'), p', e')"
      using Cons.prems(1) by simp
    have "token_of src (fst (last toks), Suc (snd (last toks))) = token_of src (last toks) @ [c]"
      using token_snoc [of "fst (last toks)" "snd (last toks)" pos c cs src] Cons.prems(2,3) more by simp
    then show ?thesis using Cons.IH [OF run rest] Cons.prems(3) more by simp
  qed
qed


text \<open>Copies in fresh memory.\<close>

lemma store_bytes_reads:
  "x \<notin> mem_region (a, int (length bs)) \<Longrightarrow> mem (store_bytes a bs e) x = mem e x"
  "n = length bs \<Longrightarrow> read_bytes (store_bytes a bs e) a n = bs"
  by (auto simp: store_bytes_def mem_region_def read_bytes_def intro: nth_equalityI)

lemma store_bytes_pool [simp]:
  "pool_wf psz G (pool, store_bytes a bs e) = pool_wf psz G (pool, e)"
  "pool_avail G (pool, store_bytes a bs e) = pool_avail G (pool, e)"
  by (simp_all add: store_bytes_def)

lemma read_bytes_cong:
  "(\<And>x. x \<in> mem_region (a, int n) \<Longrightarrow> mem e' x = mem e x) \<Longrightarrow> read_bytes e' a n = read_bytes e a n"
  by (auto simp: read_bytes_def mem_region_def)

lemma strcpyd_copy:
  assumes wf: "pool_wf psz G (p, e)" and len: "int (length str) < G"
    and run: "hcore_strcpyd str p e = (Some dst, p', e')"
  shows "read_bytes e' dst (length str + 1) = str @ [0]" and "pool_wf psz G (p', e')"
    and "pool_avail G (p', e') \<subseteq> pool_avail G (p, e)"
    and "mem_region (dst, int (length str) + 1) \<subseteq> pool_avail G (p, e)"
    and "mem_region (dst, int (length str) + 1) \<inter> pool_avail G (p', e') = {}"
    and "x \<notin> pool_avail G (p, e) \<Longrightarrow> mem e' x = mem e x"
proof -
  obtain e1 where al: "hcore_palloc p (int (length str) + 1) e = (Some dst, p', e1)"
    and e': "e' = store_bytes dst (str @ [0]) e1"
    using run by (auto simp: hcore_strcpyd_def split: prod.splits option.splits)
  have ok: "alloc_ok psz G (int (length str) + 1) (p, e) (Some dst) (p', e1)"
    using pnalloc_ok [OF wf _ _ al] len by simp
  show "read_bytes e' dst (length str + 1) = str @ [0]" "pool_wf psz G (p', e')"
    and reg: "pool_avail G (p', e') \<subseteq> pool_avail G (p, e)"
      "mem_region (dst, int (length str) + 1) \<subseteq> pool_avail G (p, e)"
    and "mem_region (dst, int (length str) + 1) \<inter> pool_avail G (p', e') = {}"
    using ok by (simp_all add: e' alloc_ok_def store_bytes_reads)
  show "mem e' x = mem e x" if "x \<notin> pool_avail G (p, e)"
  proof -
    have "x \<notin> mem_region (dst, int (length (str @ [0])))"
      using that reg(2) by (auto simp: add.commute)
    then show ?thesis using pnalloc_mem [OF al] store_bytes_reads(1) [of x dst "str @ [0]" e1] \<open>x \<notin> mem_region (dst, int (length (str @ [0])))\<close>
      by (simp only: e')
  qed
qed

text \<open>The loop of hcore_strtokz copies like hcore_strcpyd.\<close>

lemma token_length: "fst t + snd t \<le> length src \<Longrightarrow> length (token_of src t) = snd t"
  by (simp add: token_of_def)

lemma strtokz_loop_strcpyd:
  "fst t + snd t \<le> length src \<Longrightarrow> strtokz_loop src (t # ts) as p e =
     (case hcore_strcpyd (token_of src t) p e of
        (None, p, e) \<Rightarrow> (None, p, e)
      | (Some a, p, e) \<Rightarrow> strtokz_loop src ts (as @ [a]) p e)"
  by (auto simp: hcore_strcpyd_def token_length split: prod.splits option.splits)

lemma strtokz_loop_copies:
  assumes "strtokz_loop src ts as p e = (Some out, p', e')" and "pool_wf psz G (p, e)"
    and "\<forall>t\<in>set ts. fst t + snd t \<le> length src \<and> int (snd t) < G"
  shows "\<exists>new. out = as @ new \<and> length new = length ts
    \<and> (\<forall>i<length ts. read_bytes e' (new ! i) (snd (ts ! i) + 1) = token_of src (ts ! i) @ [0])
    \<and> (\<forall>x. x \<notin> pool_avail G (p, e) \<longrightarrow> mem e' x = mem e x) \<and> pool_wf psz G (p', e')"
  using assms
proof (induction ts arbitrary: as p e)
  case Nil
  then show ?case by auto
next
  case (Cons t ts)
  have t: "fst t + snd t \<le> length src" "int (snd t) < G" using Cons.prems(3) by simp_all
  have len: "length (token_of src t) = snd t" using t(1) by (rule token_length)
  obtain a p1 e1 where cp: "hcore_strcpyd (token_of src t) p e = (Some a, p1, e1)"
    and rest: "strtokz_loop src ts (as @ [a]) p1 e1 = (Some out, p', e')"
    using Cons.prems(1) unfolding strtokz_loop_strcpyd [OF t(1)]
    by (auto split: prod.splits option.splits)
  note one = strcpyd_copy [OF Cons.prems(2) _ cp, unfolded len, OF t(2)]
  from Cons.IH [OF rest one(2)] Cons.prems(3) obtain new where new: "out = (as @ [a]) @ new"
    "length new = length ts"
    "\<forall>i<length ts. read_bytes e' (new ! i) (snd (ts ! i) + 1) = token_of src (ts ! i) @ [0]"
    "\<forall>x. x \<notin> pool_avail G (p1, e1) \<longrightarrow> mem e' x = mem e1 x" "pool_wf psz G (p', e')"
    by auto
  have "read_bytes e' a (snd t + 1) = read_bytes e1 a (snd t + 1)"
    using new(4) one(5) by (intro read_bytes_cong) (auto simp: add.commute)
  then have "read_bytes e' a (snd t + 1) = token_of src t @ [0]" using one(1) by simp
  then have "\<forall>i<length (t # ts). read_bytes e' ((a # new) ! i) (snd ((t # ts) ! i) + 1) = token_of src ((t # ts) ! i) @ [0]"
    using new(3) by (auto simp: less_Suc_eq_0_disj)
  moreover have "\<forall>x. x \<notin> pool_avail G (p, e) \<longrightarrow> mem e' x = mem e x"
    using new(4) one(3,6) by (metis subsetD)
  ultimately show ?case using new by (intro exI [of _ "a # new"]) simp
qed


text \<open>Hcore_strtokz gives every token its own copy in pool memory, terminated by a zero byte: at
  the end each address holds its token, and no memory the pool had handed out before has
  changed during the copying.\<close>

theorem strtokz_copies:
  assumes "strtokz_loop src toks [] p e = (Some as, p', e')" and "pool_wf psz G (p, e)"
    and "\<forall>t\<in>set toks. fst t + snd t \<le> length src \<and> int (snd t) < G"
  shows "length as = length toks
    \<and> (\<forall>i<length toks. read_bytes e' (as ! i) (snd (toks ! i) + 1) = token_of src (toks ! i) @ [0])
    \<and> (\<forall>x. x \<notin> pool_avail G (p, e) \<longrightarrow> mem e' x = mem e x)"
  using strtokz_loop_copies [OF assms] by auto

theorem strtokz_copies_witness:
  "\<exists>as p' e'. strtokz_loop (bytes ''a, bc'') [(0, 1), (3, 2)] [] sample_pool sample_env = (Some as, p', e')
     \<and> read_bytes e' (as ! 1) 3 = bytes ''bc'' @ [0]"
proof -
  obtain as p' e' where run:
    "strtokz_loop (bytes ''a, bc'') [(0, 1), (3, 2)] [] sample_pool sample_env = (Some as, p', e')"
    by (simp add: hcore_pnalloc_def hcore_palloc_small_def sample_pool_def u64_def Let_def)
  have "\<forall>i<length [(0::nat, 1), (3, 2::nat)]. read_bytes e' (as ! i) (snd ([(0::nat, 1), (3, 2)] ! i) + 1)
      = token_of (bytes ''a, bc'') ([(0::nat, 1), (3, 2)] ! i) @ [0]"
    using strtokz_copies [OF run sample_wf] by (simp add: bytes_def)
  from this [rule_format, of 1] show ?thesis
    using run by (auto simp: bytes_def token_of_def)
qed

end
