(* ===== verification/HFormat.thy ===== *)
theory HFormat
  imports HString
begin

section \<open>Formatting (hcore_vslprintf and its kin in src/hcore_string.c)\<close>

text \<open>
  The formatter writes into \<open>[buf, last)\<close>; the model keeps the bytes written so far and the size
  \<open>cap\<close> of the whole area, so \<open>last - buf\<close> is the room left. The format is the byte list of
  the C string with its terminator; reading behind it is \<open>Fault\<close>, and so is an argument of
  the wrong kind or a string argument that ends before the bytes asked for. Arithmetic on
  \<open>double\<close> is a parameter, a record of the operations the code uses.
\<close>

unbundle bit_operations_syntax

subsection \<open>hcore_sprintf_num\<close>

function dec_loop :: "nat \<Rightarrow> byte list \<Rightarrow> byte list" where
  "dec_loop n p =
     (let p = word_of_nat (n mod 10 + 48) # p in if n div 10 \<noteq> 0 then dec_loop (n div 10) p else p)"
  by pat_completeness auto
termination by (relation "measure fst") auto

function hex_loop :: "byte list \<Rightarrow> nat \<Rightarrow> byte list \<Rightarrow> byte list" where
  "hex_loop tab n p =
     (let p = tab ! (n mod 16) # p in if n div 16 \<noteq> 0 then hex_loop tab (n div 16) p else p)"
  by pat_completeness auto
termination by (relation "measure (fst \<circ> snd)") auto

declare dec_loop.simps [simp del] hex_loop.simps [simp del]

abbreviation (input) HCORE_INT64_LEN :: nat where "HCORE_INT64_LEN \<equiv> 20"

abbreviation (input) HCORE_INT_T_LEN :: int where "HCORE_INT_T_LEN \<equiv> 11"

definition num_digits :: "int \<Rightarrow> int \<Rightarrow> byte list" where
  "num_digits ui64 hexadecimal =
     (if hexadecimal = 0 then
        (if ui64 \<le> HCORE_MAX_UINT32_VALUE then dec_loop (nat (u32 ui64)) [] else dec_loop (nat ui64) [])
      else if hexadecimal = 1 then hex_loop (bytes ''0123456789abcdef'') (nat ui64) []
      else hex_loop (bytes ''0123456789ABCDEF'') (nat ui64) [])"

text \<open>The bytes appended: padding while there is room, then the digits that fit.\<close>

definition hcore_sprintf_num :: "nat \<Rightarrow> byte list \<Rightarrow> int \<Rightarrow> byte \<Rightarrow> int \<Rightarrow> int \<Rightarrow> byte list" where
  "hcore_sprintf_num cap buf ui64 zero hexadecimal width =
     (let p = num_digits ui64 hexadecimal;
          len = length p;
          buf = buf @ replicate (min (nat width - len) (cap - length buf)) zero;
          len = (if cap < length buf + len then cap - length buf else len)
      in buf @ take len p)"

subsection \<open>hcore_vslprintf\<close>

datatype 'd vararg =
  VInt int
| VStr "byte list"
| VHstr "byte list" nat
| VDbl 'd

record 'd dblops =
  d_is_neg :: "'d \<Rightarrow> bool"
  d_minus :: "'d \<Rightarrow> 'd"
  d_to_int64 :: "'d \<Rightarrow> int"
  d_fraction :: "'d \<Rightarrow> int \<Rightarrow> int \<Rightarrow> int"
  d_ratio_plus :: "int \<Rightarrow> int \<Rightarrow> int \<Rightarrow> 'd"

record fspec =
  f_zero :: byte
  f_width :: int
  f_sign :: bool
  f_hex :: int
  f_max_width :: bool
  f_frac_width :: int
  f_slen :: int

text \<open>\<open>while (*fmt >= '0' && *fmt <= '9')\<close>\<close>

fun fmt_number :: "int \<Rightarrow> byte list \<Rightarrow> (int \<times> byte list) run" where
  "fmt_number w [] = Fault"
| "fmt_number w (c # fmt) =
     (if is_digit c then fmt_number (u32 (w * 10 + digit_val c)) fmt else Ret (w, c # fmt))"

text \<open>The loop over the flags \<open>u m X x . *\<close>; \<open>va_arg\<close> of an integer takes it modulo its width.\<close>

fun va_int :: "'d vararg list \<Rightarrow> (int \<times> 'd vararg list) run" where
  "va_int (VInt i # args) = Ret (i, args)"
| "va_int args = Fault"

fun fmt_flags :: "fspec \<Rightarrow> byte list \<Rightarrow> 'd vararg list \<Rightarrow> (fspec \<times> byte list \<times> 'd vararg list) run" where
  "fmt_flags s [] args = Fault"
| "fmt_flags s (c # fmt) args =
     (if c = 117 then fmt_flags (s\<lparr>f_sign := False\<rparr>) fmt args
      else if c = 109 then fmt_flags (s\<lparr>f_max_width := True\<rparr>) fmt args
      else if c = 88 then fmt_flags (s\<lparr>f_hex := 2, f_sign := False\<rparr>) fmt args
      else if c = 120 then fmt_flags (s\<lparr>f_hex := 1, f_sign := False\<rparr>) fmt args
      else if c = 46 then
        bind_run (fmt_number (f_frac_width s) fmt) (\<lambda>(w, fmt). Ret (s\<lparr>f_frac_width := w\<rparr>, fmt, args))
      else if c = 42 then
        (case args of
           VInt i # args \<Rightarrow> fmt_flags (s\<lparr>f_slen := u64 i\<rparr>) fmt args
         | _ \<Rightarrow> Fault)
      else Ret (s, c # fmt, args))"

text \<open>The conversions that write text and go on to the next character of the format: the bytes
  appended and the remaining arguments. \<open>None\<close> is another conversion.\<close>

fun copy_cstr :: "nat \<Rightarrow> byte list \<Rightarrow> byte list run" where
  "copy_cstr 0 p = (case p of [] \<Rightarrow> Fault | _ \<Rightarrow> Ret [])"
| "copy_cstr (Suc n) [] = Fault"
| "copy_cstr (Suc n) (c # p) = (if c \<noteq> 0 then bind_run (copy_cstr n p) (\<lambda>cs. Ret (c # cs)) else Ret [])"

definition copy_bytes :: "nat \<Rightarrow> byte list \<Rightarrow> byte list run" where
  "copy_bytes n p = (if length p < n then Fault else Ret (take n p))"

definition conv_text ::
  "byte \<Rightarrow> fspec \<Rightarrow> nat \<Rightarrow> 'd vararg list \<Rightarrow> (byte list \<times> 'd vararg list) run option" where
  "conv_text c s room args =
     (if c = 86 then
        Some (case args of VHstr p len # args \<Rightarrow> bind_run (copy_bytes (min room len) p) (\<lambda>b. Ret (b, args))
              | _ \<Rightarrow> Fault)
      else if c = 115 then
        Some (case args of
                VStr p # args \<Rightarrow>
                  bind_run (if f_slen s = 18446744073709551615 then copy_cstr room p
                            else copy_bytes (nat (min (int room) (f_slen s))) p) (\<lambda>b. Ret (b, args))
              | _ \<Rightarrow> Fault)
      else if c = 99 then
        Some (bind_run (va_int args) (\<lambda>(d, args). Ret ([word_of_int d AND 0xff], args)))
      else if c = 90 then Some (Ret ([0], args))
      else if c = 78 then Some (Ret ([10], args))
      else if c = 37 then Some (Ret ([37], args))
      else None)"

text \<open>The integer conversions: the format record, \<open>i64\<close>, \<open>ui64\<close> and the remaining arguments.\<close>

definition conv_int ::
  "byte \<Rightarrow> fspec \<Rightarrow> 'd vararg list \<Rightarrow> (fspec \<times> int \<times> int \<times> 'd vararg list) run option" where
  "conv_int c s args =
     (if c = 79 \<or> c = 84 then
        Some (bind_run (va_int args) (\<lambda>(i, args). Ret (s\<lparr>f_sign := True\<rparr>, i64 i, 0, args)))
      else if c = 80 then
        Some (bind_run (va_int args) (\<lambda>(i, args). Ret (s\<lparr>f_sign := True\<rparr>, i32 i, 0, args)))
      else if c = 77 then
        Some (bind_run (va_int args) (\<lambda>(i, args).
          if i32 i = -1 then Ret (s\<lparr>f_sign := True\<rparr>, -1, 0, args)
          else Ret (s\<lparr>f_sign := False\<rparr>, 0, u32 i, args)))
      else if c = 122 \<or> c = 108 \<or> c = 76 then
        Some (bind_run (va_int args) (\<lambda>(i, args).
          if f_sign s then Ret (s, i64 i, 0, args) else Ret (s, 0, u64 i, args)))
      else if c = 105 then
        Some (bind_run (va_int args) (\<lambda>(i, args).
          let t = (if f_max_width s then s\<lparr>f_width := HCORE_INT_T_LEN\<rparr> else s) in
          if f_sign s then Ret (t, i32 i, 0, args) else Ret (t, 0, u32 i, args)))
      else if c = 100 \<or> c = 68 then
        Some (bind_run (va_int args) (\<lambda>(i, args).
          if f_sign s then Ret (s, i32 i, 0, args) else Ret (s, 0, u32 i, args)))
      else if c = 112 then
        Some (bind_run (va_int args) (\<lambda>(i, args).
          Ret (s\<lparr>f_hex := 2, f_sign := False, f_zero := 48, f_width := 16\<rparr>, 0, u64 i, args)))
      else None)"

text \<open>The number with its sign.\<close>

definition put_number :: "nat \<Rightarrow> byte list \<Rightarrow> fspec \<Rightarrow> int \<Rightarrow> int \<Rightarrow> byte list" where
  "put_number cap buf s i64v ui64 =
     (let (buf, ui64) =
        (if f_sign s then
           (if i64v < 0 then (buf @ [45], u64 (i64 (- i64v))) else (buf, u64 i64v))
         else (buf, ui64))
      in hcore_sprintf_num cap buf ui64 (f_zero s) (f_hex s) (f_width s))"

text \<open>\<open>scale\<close> is a hcore_uint_t: ten to the power of the fraction's width, wrapped.\<close>

definition frac_scale :: "int \<Rightarrow> int" where
  "frac_scale frac_width = u32 (10 ^ nat frac_width)"

definition put_fraction :: "nat \<Rightarrow> byte list \<Rightarrow> fspec \<Rightarrow> int \<Rightarrow> int \<Rightarrow> byte list" where
  "put_fraction cap buf s ui64 frac =
     (let buf = hcore_sprintf_num cap buf ui64 (f_zero s) 0 (f_width s)
      in if f_frac_width s \<noteq> 0 then
           (let buf = (if length buf < cap then buf @ [46] else buf)
            in hcore_sprintf_num cap buf frac 48 0 (f_frac_width s))
         else buf)"

definition put_double :: "'d dblops \<Rightarrow> nat \<Rightarrow> byte list \<Rightarrow> fspec \<Rightarrow> 'd \<Rightarrow> byte list" where
  "put_double ops cap buf s f =
     (let (buf, f) = (if d_is_neg ops f then (buf @ [45], d_minus ops f) else (buf, f));
          ui64 = u64 (d_to_int64 ops f);
          scale = frac_scale (f_frac_width s);
          frac = (if f_frac_width s \<noteq> 0 then u64 (d_fraction ops f ui64 scale) else 0)
      in if f_frac_width s \<noteq> 0 \<and> frac = scale then put_fraction cap buf s (u64 (ui64 + 1)) 0
         else put_fraction cap buf s ui64 frac)"

text \<open>The switch over the conversion character \<open>c\<close>.\<close>

definition convert :: "'d dblops \<Rightarrow> nat \<Rightarrow> byte list \<Rightarrow> fspec \<Rightarrow> byte \<Rightarrow> 'd vararg list
    \<Rightarrow> (byte list \<times> 'd vararg list) run" where
  "convert ops cap buf s c args =
     (case conv_text c s (cap - length buf) args of
        Some r \<Rightarrow> bind_run r (\<lambda>(b, args). Ret (buf @ b, args))
      | None \<Rightarrow>
        (case conv_int c s args of
           Some r \<Rightarrow> bind_run r (\<lambda>(s, i, u, args). Ret (put_number cap buf s i u, args))
         | None \<Rightarrow>
           if c = 102 then
             (case args of VDbl f # args \<Rightarrow> Ret (put_double ops cap buf s f, args) | _ \<Rightarrow> Fault)
           else Ret (buf @ [c], args)))"

text \<open>One conversion, from behind the percent sign.\<close>

definition fspec_init :: "byte \<Rightarrow> int \<Rightarrow> fspec" where
  "fspec_init c width = \<lparr>f_zero = (if c = 48 then 48 else 32), f_width = width, f_sign = True,
     f_hex = 0, f_max_width = False, f_frac_width = 0, f_slen = 18446744073709551615\<rparr>"

definition conversion :: "'d dblops \<Rightarrow> nat \<Rightarrow> byte list \<Rightarrow> byte list \<Rightarrow> 'd vararg list
    \<Rightarrow> (byte list \<times> byte list \<times> 'd vararg list) run" where
  "conversion ops cap buf fmt args =
     bind_run (fmt_number 0 fmt) (\<lambda>(width, fmt').
     bind_run (fmt_flags (fspec_init (hd fmt) width) fmt' args) (\<lambda>(s, fmt, args).
       case fmt of [] \<Rightarrow> Fault
       | c # fmt \<Rightarrow> bind_run (convert ops cap buf s c args) (\<lambda>(buf, args). Ret (buf, fmt, args))))"

lemma fmt_number_shorter: "fmt_number w fmt = Ret (w', fmt') \<Longrightarrow> length fmt' \<le> length fmt"
  by (induction w fmt rule: fmt_number.induct) (auto split: if_splits)

lemma fmt_flags_shorter: "fmt_flags s fmt args = Ret (s', fmt', args') \<Longrightarrow> length fmt' \<le> length fmt"
  by (induction s fmt args rule: fmt_flags.induct)
    (auto simp: bind_run_Ret_iff dest: fmt_number_shorter split: if_splits list.splits vararg.splits)

lemma conversion_Ret:
  assumes "conversion ops cap buf fmt args = Ret (buf', fmt', args')"
  obtains width fmt1 s c args1 where "fmt_number 0 fmt = Ret (width, fmt1)"
    and "fmt_flags (fspec_init (hd fmt) width) fmt1 args = Ret (s, c # fmt', args1)"
    and "convert ops cap buf s c args1 = Ret (buf', args')"
  using assms unfolding conversion_def
  by (fastforce simp: bind_run_Ret_iff neq_Nil_conv split: list.split_asm prod.splits)

lemma conversion_shorter:
  "conversion ops cap buf fmt args = Ret (buf', fmt', args') \<Longrightarrow> length fmt' < length fmt"
  by (elim conversion_Ret) (force dest: fmt_number_shorter fmt_flags_shorter)

function hcore_vslprintf :: "'d dblops \<Rightarrow> nat \<Rightarrow> byte list \<Rightarrow> byte list \<Rightarrow> 'd vararg list \<Rightarrow> byte list run" where
  "hcore_vslprintf ops cap buf fmt args =
     (case fmt of [] \<Rightarrow> Fault
      | c # fmt' \<Rightarrow>
          if c \<noteq> 0 \<and> length buf < cap then
            (if c = 37 then
               (case conversion ops cap buf fmt' args of
                  Fault \<Rightarrow> Fault
                | Ret (buf, fmt, args) \<Rightarrow> hcore_vslprintf ops cap buf fmt args)
             else hcore_vslprintf ops cap (buf @ [c]) fmt' args)
          else Ret buf)"
  by pat_completeness auto
termination
  by (relation "measure (\<lambda>(ops, cap, buf, fmt, args). length fmt)") (auto dest: conversion_shorter)

declare hcore_vslprintf.simps [simp del]

definition hcore_slprintf :: "'d dblops \<Rightarrow> nat \<Rightarrow> byte list \<Rightarrow> 'd vararg list \<Rightarrow> byte list run" where
  "hcore_slprintf ops cap fmt args = hcore_vslprintf ops cap [] fmt args"

definition hcore_snprintf :: "'d dblops \<Rightarrow> nat \<Rightarrow> byte list \<Rightarrow> 'd vararg list \<Rightarrow> byte list run" where
  "hcore_snprintf ops mx fmt args = hcore_vslprintf ops mx [] fmt args"

subsection \<open>The digits\<close>

lemma value_of_append:
  "value_of dig b v (xs @ ys) = (case value_of dig b v xs of None \<Rightarrow> None | Some w \<Rightarrow> value_of dig b w ys)"
  by (induction xs arbitrary: v) (auto split: option.splits)

text \<open>The digits of a number in a base, most significant first.\<close>

function num_ref :: "nat \<Rightarrow> (nat \<Rightarrow> byte) \<Rightarrow> nat \<Rightarrow> byte list" where
  "num_ref b tab n = (if b < 2 \<or> n < b then [tab (n mod b)] else num_ref b tab (n div b) @ [tab (n mod b)])"
  by pat_completeness auto
termination by (relation "measure (snd \<circ> snd)") auto

declare num_ref.simps [simp del]

lemma dec_loop_ref: "dec_loop n p = num_ref 10 (\<lambda>k. word_of_nat (k + 48)) n @ p"
proof (induction n p rule: dec_loop.induct)
  case (1 n p)
  show ?case
    by (subst dec_loop.simps, subst num_ref.simps) (use 1 in \<open>auto simp: Let_def\<close>)
qed

lemma hex_loop_ref: "hex_loop t n p = num_ref 16 (\<lambda>k. t ! k) n @ p"
proof (induction t n p rule: hex_loop.induct)
  case (1 t n p)
  show ?case
    by (subst hex_loop.simps, subst num_ref.simps) (use 1 in \<open>auto simp: Let_def\<close>)
qed

lemma num_ref_value:
  assumes "2 \<le> b" and dig: "\<And>k. k < b \<Longrightarrow> dig (tab k) = Some (int k)"
  shows "value_of dig (int b) 0 (num_ref b tab n) = Some (int n)"
proof (induction n rule: less_induct)
  case (less n)
  have d: "dig (tab (n mod b)) = Some (int (n mod b))" using assms by simp
  show ?case
  proof (cases "n < b")
    case True
    then show ?thesis using assms(1) d by (subst num_ref.simps) simp
  next
    case False
    then have "n div b < n" using assms(1) by simp
    moreover have "int (n div b) * int b + int (n mod b) = int n"
      by (metis div_mult_mod_eq of_nat_add of_nat_mult)
    ultimately show ?thesis
      using False less.IH assms(1) d by (subst num_ref.simps) (simp add: value_of_append)
  qed
qed

lemma num_ref_length: "2 \<le> b \<Longrightarrow> 0 < k \<Longrightarrow> n < b ^ k \<Longrightarrow> length (num_ref b tab n) \<le> k"
proof (induction k arbitrary: n)
  case (Suc k)
  show ?case
  proof (cases "n < b")
    case True
    then show ?thesis by (subst num_ref.simps) simp
  next
    case False
    then have "k \<noteq> 0" using Suc.prems by (cases k) auto
    moreover have "n div b < b ^ k" using Suc.prems by (simp add: less_mult_imp_div_less mult.commute)
    ultimately have "length (num_ref b tab (n div b)) \<le> k" using Suc.IH Suc.prems by simp
    then show ?thesis using Suc.prems by (subst num_ref.simps) auto
  qed
qed simp

lemma num_ref_ne [simp]: "num_ref b tab n \<noteq> []"
  by (subst num_ref.simps) auto

text \<open>What num_digits prints: no more than HCORE_INT64_LEN characters, the size of \<open>temp\<close>, and
  read back by the digits of the parsers they give the number.\<close>

lemma dec_char: "k < 10 \<Longrightarrow> dec_digit (word_of_nat (k + 48)) = Some (int k)"
proof -
  have "\<forall>k\<in>set [0..<10]. dec_digit (word_of_nat (k + 48)) = Some (int k)"
    by (simp add: upt_rec dec_digit_def is_digit_def digit_val_def)
  then show "k < 10 \<Longrightarrow> dec_digit (word_of_nat (k + 48)) = Some (int k)" by simp
qed

lemma hex_chars:
  "k < 16 \<Longrightarrow> hex_digit (bytes ''0123456789abcdef'' ! k) = Some (int k)"
  "k < 16 \<Longrightarrow> hex_digit (bytes ''0123456789ABCDEF'' ! k) = Some (int k)"
proof -
  have "\<forall>k\<in>set [0..<16]. hex_digit (bytes ''0123456789abcdef'' ! k) = Some (int k)
      \<and> hex_digit (bytes ''0123456789ABCDEF'' ! k) = Some (int k)"
    by (simp add: upt_rec bytes_def of_char_def hex_digit_def is_digit_def digit_val_def)
  then show "k < 16 \<Longrightarrow> hex_digit (bytes ''0123456789abcdef'' ! k) = Some (int k)"
    "k < 16 \<Longrightarrow> hex_digit (bytes ''0123456789ABCDEF'' ! k) = Some (int k)" by simp_all
qed

definition num_base :: "int \<Rightarrow> nat" where
  "num_base hexadecimal = (if hexadecimal = 0 then 10 else 16)"

definition num_table :: "int \<Rightarrow> nat \<Rightarrow> byte" where
  "num_table hexadecimal = (if hexadecimal = 0 then (\<lambda>k. word_of_nat (k + 48))
     else if hexadecimal = 1 then (\<lambda>k. bytes ''0123456789abcdef'' ! k)
     else (\<lambda>k. bytes ''0123456789ABCDEF'' ! k))"

lemma num_digits_ref:
  "0 \<le> n \<Longrightarrow> num_digits n h = num_ref (num_base h) (num_table h) (nat n)"
  by (auto simp: num_digits_def dec_loop_ref hex_loop_ref u32_id num_base_def num_table_def)

lemma num_digits_length:
  assumes "0 \<le> n" "n < 18446744073709551616"
  shows "length (num_digits n h) \<le> HCORE_INT64_LEN" and "num_digits n h \<noteq> []"
proof -
  have "nat n < num_base h ^ 20" using assms by (simp add: num_base_def nat_less_iff)
  then show "length (num_digits n h) \<le> HCORE_INT64_LEN"
    using num_ref_length [of "num_base h" 20 "nat n"] assms
    by (simp add: num_digits_ref num_base_def split: if_splits)
qed (simp add: num_digits_ref assms)

lemma num_digits_value:
  assumes "0 \<le> n"
  shows "value_of dec_digit 10 0 (num_digits n 0) = Some n"
    and "h \<noteq> 0 \<Longrightarrow> value_of hex_digit 16 0 (num_digits n h) = Some n"
  using num_ref_value [of 10 dec_digit "num_table 0" "nat n"]
    num_ref_value [of 16 hex_digit "num_table h" "nat n"] assms dec_char hex_chars
  by (simp_all add: num_digits_ref num_base_def num_table_def)

subsection \<open>Nothing is written past the end\<close>

lemma sprintf_num_bound:
  assumes "length buf \<le> cap"
  shows "length (hcore_sprintf_num cap buf n z h w) \<le> cap"
proof -
  define b1 where "b1 = buf @ replicate (min (nat w - length (num_digits n h)) (cap - length buf)) z"
  have "length b1 \<le> cap" using assms by (simp add: b1_def)
  then show ?thesis unfolding hcore_sprintf_num_def Let_def b1_def [symmetric] by auto
qed

lemma sprintf_num_prefix: "take (length buf) (hcore_sprintf_num cap buf n z h w) = buf"
  by (simp add: hcore_sprintf_num_def Let_def)

lemma copy_cstr_bound: "copy_cstr n p = Ret b \<Longrightarrow> length b \<le> n"
  by (induction n p arbitrary: b rule: copy_cstr.induct)
    (auto simp: bind_run_Ret_iff split: if_splits list.splits)

lemma conv_text_bound:
  assumes "conv_text c s room args = Some (Ret (b, args'))" and "0 < room"
  shows "length b \<le> room"
  using assms
  by (auto simp: conv_text_def copy_bytes_def bind_run_Ret_iff
      split: if_splits list.splits vararg.splits dest!: copy_cstr_bound)

lemma put_number_bound:
  "length buf < cap \<Longrightarrow> length (put_number cap buf s i u) \<le> cap"
  by (simp add: put_number_def sprintf_num_bound split: prod.splits if_splits)

lemma put_fraction_bound: "length buf \<le> cap \<Longrightarrow> length (put_fraction cap buf s u fr) \<le> cap"
  using sprintf_num_bound [of buf cap u "f_zero s" 0 "f_width s"]
  by (auto simp: put_fraction_def Let_def intro!: sprintf_num_bound)

lemma put_double_bound:
  "length buf < cap \<Longrightarrow> length (put_double ops cap buf s f) \<le> cap"
  by (auto simp: put_double_def Let_def intro!: put_fraction_bound)

lemma convert_bound:
  assumes "convert ops cap buf s c args = Ret (buf', args')" and "length buf < cap"
  shows "length buf' \<le> cap"
proof (cases "conv_text c s (cap - length buf) args")
  case (Some r)
  then obtain b where "r = Ret (b, args')" "buf' = buf @ b"
    using assms(1) by (auto simp: convert_def bind_run_Ret_iff)
  then show ?thesis using Some assms(2) conv_text_bound [of c s "cap - length buf" args b args'] by auto
next
  case None
  then show ?thesis using assms
    by (auto simp: convert_def bind_run_Ret_iff split: option.splits if_splits list.splits vararg.splits
        intro: put_number_bound put_double_bound)
qed

lemma vslprintf_bound:
  "hcore_vslprintf ops cap buf fmt args = Ret out \<Longrightarrow> length buf \<le> cap \<Longrightarrow> length out \<le> cap"
proof (induction ops cap buf fmt args rule: hcore_vslprintf.induct)
  case (1 ops cap buf fmt args)
  show ?case
  proof (cases fmt)
    case Nil
    then show ?thesis using 1 by (simp add: hcore_vslprintf.simps)
  next
    case (Cons c fmt')
    consider (conv) buf1 fmt1 args1 where "c = 37" "length buf < cap"
        "conversion ops cap buf fmt' args = Ret (buf1, fmt1, args1)"
        "hcore_vslprintf ops cap buf1 fmt1 args1 = Ret out"
      | (plain) "c \<noteq> 0" "c \<noteq> 37" "length buf < cap" "hcore_vslprintf ops cap (buf @ [c]) fmt' args = Ret out"
      | (stop) "out = buf"
      using 1(3) Cons by (subst (asm) hcore_vslprintf.simps) (auto split: if_splits run.splits)
    then show ?thesis
    proof cases
      case conv
      have "length buf1 \<le> cap" using conv(2,3) by (elim conversion_Ret) (rule convert_bound)
      then show ?thesis using 1(1) [OF Cons _ conv(1,3)] conv by auto
    next
      case plain
      then show ?thesis using 1(2) [OF Cons] by auto
    qed (use 1(4) in simp)
  qed
qed


text \<open>The percent sign that ends a format makes the code step over the terminator and read on.\<close>

lemma format_percent_at_end: "hcore_slprintf ops 10 [37, 0] args = Fault"
  by (simp add: hcore_slprintf_def hcore_vslprintf.simps [of _ _ _ "[37, 0]"] conversion_def
      is_digit_def convert_def conv_text_def conv_int_def hcore_vslprintf.simps [of _ _ _ "[]"])

subsection \<open>Printing and reading back\<close>

lemma slprintf_z:
  assumes "0 \<le> n" "n \<le> HCORE_MAX_SSIZE_T_VALUE" "20 \<le> cap"
  shows "hcore_slprintf ops cap [37, 122, 0] [VInt n] = Ret (num_digits n 0)"
proof -
  have len: "length (num_digits n 0) \<le> 20" using num_digits_length [of n 0] assms by simp
  then have "hcore_sprintf_num cap [] n 32 0 0 = num_digits n 0"
    using assms by (simp add: hcore_sprintf_num_def Let_def)
  then show ?thesis using assms
    by (simp add: hcore_slprintf_def hcore_vslprintf.simps [of _ _ _ "[37, 122, 0]"] conversion_def
      is_digit_def convert_def conv_text_def conv_int_def fspec_init_def put_number_def i64_id u64_id
      hcore_vslprintf.simps [of _ _ _ "[0]"])
qed

text \<open>An instance of the arithmetic: whole numbers in the place of \<open>double\<close>.\<close>

definition whole_ops :: "int dblops" where
  "whole_ops = \<lparr>d_is_neg = (\<lambda>d. d < 0), d_minus = uminus, d_to_int64 = (\<lambda>d. d),
     d_fraction = (\<lambda>d u k. 0), d_ratio_plus = (\<lambda>r k v. v)\<rparr>"




subsection \<open>hcore_strlfmt_size\<close>

text \<open>\<open>units\<close> is the array of the source; \<open>pu\<close> the index of the current unit. The shift of a
  negative number is arithmetic, so the loop does not end for one.\<close>

definition size_units :: "byte list option list" where
  "size_units = [Some (bytes ''B''), Some (bytes ''KB''), Some (bytes ''MB''), Some (bytes ''GB''),
     Some (bytes ''TB''), None]"

partial_function (option) fmt_size_loop :: "int \<Rightarrow> int \<Rightarrow> nat \<Rightarrow> (int \<times> int \<times> nat) option" where
  "fmt_size_loop v scale pu =
     (if v = 0 then Some (v, scale, pu)
      else if v div 1024 = 0 then Some (v, scale, pu)
      else fmt_size_loop (v div 1024) (i64 (scale * 1024)) (Suc pu))"

text \<open>The unit is read from the array with the format; a null unit or one behind the array is
  \<open>Fault\<close>.\<close>

definition hcore_strlfmt_size :: "'d dblops \<Rightarrow> int \<Rightarrow> nat \<Rightarrow> byte list run option" where
  "hcore_strlfmt_size ops sz cap =
     map_option (\<lambda>(v, scale, pu).
       let r = sz AND (scale - 1); decimal = d_ratio_plus ops r scale v in
       if length size_units \<le> pu then Fault
       else case size_units ! pu of
              None \<Rightarrow> Fault
            | Some u \<Rightarrow> hcore_slprintf ops cap (bytes ''%.02f %s'' @ [0]) [VDbl decimal, VStr (u @ [0])])
     (fmt_size_loop sz 1 0)"

lemma fmt_size_loop_steps:
  assumes "0 < v"
  shows "\<exists>k. 1024 ^ k \<le> v \<and> v < 1024 ^ Suc k \<and>
    (s * 1024 ^ k \<le> 9223372036854775807 \<and> 0 \<le> s \<longrightarrow>
      fmt_size_loop v s n = Some (v div 1024 ^ k, s * 1024 ^ k, n + k))"
  using assms
proof (induction "nat v" arbitrary: v s n rule: less_induct)
  case less
  show ?case
  proof (cases "v < 1024")
    case True
    then have "fmt_size_loop v s n = Some (v, s, n)" using less.prems by (subst fmt_size_loop.simps) simp
    then show ?thesis using True less.prems by (intro exI [of _ 0]) simp
  next
    case False
    then have v: "0 < v div 1024" "nat (v div 1024) < nat v" "v div 1024 \<noteq> 0" by simp_all
    obtain k where k: "1024 ^ k \<le> v div 1024" "v div 1024 < 1024 ^ Suc k" and
      IH: "s * 1024 * 1024 ^ k \<le> 9223372036854775807 \<and> 0 \<le> s * 1024 \<longrightarrow>
        fmt_size_loop (v div 1024) (s * 1024) (Suc n) = Some (v div 1024 div 1024 ^ k, s * 1024 * 1024 ^ k, Suc n + k)"
      using less.hyps [OF v(2,1), of "s * 1024" "Suc n"] by auto
    have "s * 1024 \<le> s * 1024 * 1024 ^ k" if "0 \<le> s" using that mult_left_mono [of 1 "1024 ^ k" "s * 1024"] by simp
    then have "s * 1024 ^ Suc k \<le> 9223372036854775807 \<and> 0 \<le> s \<longrightarrow> i64 (s * 1024) = s * 1024"
      by (auto intro!: i64_id simp: mult.assoc)
    then have "s * 1024 ^ Suc k \<le> 9223372036854775807 \<and> 0 \<le> s \<longrightarrow>
        fmt_size_loop v s n = Some (v div 1024 ^ Suc k, s * 1024 ^ Suc k, n + Suc k)"
      using IH False v(3) less.prems
      by (subst fmt_size_loop.simps) (auto simp: mult.assoc zdiv_zmult2_eq)
    moreover have "1024 ^ Suc k \<le> v" "v < 1024 ^ Suc (Suc k)"
      using k by (simp_all add: less_eq_div_iff_mult_less_eq div_less_iff_less_mult mult.commute)
    ultimately show ?thesis by blast
  qed
qed

lemma fmt_size_loop_pos:
  assumes "0 < v" "v \<le> HCORE_MAX_SSIZE_T_VALUE"
  obtains k where "1024 ^ k \<le> v" "v < 1024 ^ Suc k" "fmt_size_loop v 1 0 = Some (v div 1024 ^ k, 1024 ^ k, k)"
  using fmt_size_loop_steps [OF assms(1), of 1 0] assms(2) by auto

lemma fmt_size_loop_returns: "fmt_size_loop v s n = Some r \<Longrightarrow> \<not> v < 0"
proof (rule fmt_size_loop.raw_induct [where P = "\<lambda>v s n r. \<not> v < 0"])
  fix rec v s n and r :: "int \<times> int \<times> nat"
  assume IH: "\<And>v s n r. rec v s n = Some r \<Longrightarrow> \<not> v < (0::int)"
    and body: "(if v = 0 then Some (v, s, n) else if v div 1024 = 0 then Some (v, s, n)
      else rec (v div 1024) (i64 (s * 1024)) (Suc n)) = Some r"
  show "\<not> v < 0"
  proof
    assume "v < 0"
    then have "v \<noteq> 0" "v div 1024 < 0" by simp_all
    then show False using IH body by (auto split: if_splits)
  qed
qed

lemma fmt_size_loop_neg: "v < 0 \<Longrightarrow> fmt_size_loop v s n = None"
  using fmt_size_loop_returns by (cases "fmt_size_loop v s n") auto

lemma and_scale: "(v::int) AND (1024 ^ k - 1) = v mod 1024 ^ k"
proof -
  have "(1024::int) ^ k = 2 ^ (10 * k)" by (simp add: power_mult)
  then show ?thesis by (simp only: take_bit_eq_mod flip: mask_eq_exp_minus_1 take_bit_eq_mask)
qed

text \<open>Below 2^50 bytes hcore_strlfmt_size picks the greatest unit that is not larger than the
  size, and prints the quotient plus the remainder's fraction of that unit.\<close>

lemma strlfmt_size_unit:
  assumes "0 < sz" and "sz < 2 ^ 50"
  shows "\<exists>k<5. 1024 ^ k \<le> sz \<and> sz < 1024 ^ Suc k
    \<and> hcore_strlfmt_size ops sz cap = Some (hcore_slprintf ops cap (bytes ''%.02f %s'' @ [0])
        [VDbl (d_ratio_plus ops (sz mod 1024 ^ k) (1024 ^ k) (sz div 1024 ^ k)),
         VStr (the (size_units ! k) @ [0])])"
proof -
  obtain k where k: "1024 ^ k \<le> sz" "sz < 1024 ^ Suc k"
    "fmt_size_loop sz 1 0 = Some (sz div 1024 ^ k, 1024 ^ k, k)"
    using fmt_size_loop_pos [of sz] assms by auto
  have "k < 5"
  proof (rule ccontr)
    assume "\<not> k < 5"
    then have "(1024::int) ^ 5 \<le> 1024 ^ k" by (intro power_increasing) auto
    then show False using k(1) assms(2) by simp
  qed
  then have "k \<in> {0, 1, 2, 3, 4}" by auto
  then have unt: "\<exists>u. size_units ! k = Some u" "k < length size_units"
    by (auto simp: size_units_def)
  then show ?thesis using k \<open>k < 5\<close>
    by (intro exI [of _ k]) (auto simp: hcore_strlfmt_size_def Let_def and_scale)
qed

lemma strlfmt_size_unit_witness:
  "\<exists>k<5. 1024 ^ k \<le> (1536 :: int) \<and> 1536 < (1024 :: int) ^ Suc k
     \<and> hcore_strlfmt_size whole_ops 1536 16 \<noteq> None"
  using strlfmt_size_unit [of 1536 whole_ops 16] by auto

text \<open>From 2^50 bytes on it reads a null unit or one behind the array, and for a negative size
  it does not return.\<close>

lemma strlfmt_size_breaks:
  "(2 ^ 50 \<le> sz \<and> sz \<le> HCORE_MAX_SSIZE_T_VALUE \<longrightarrow> hcore_strlfmt_size ops sz cap = Some Fault)
   \<and> (sz < 0 \<longrightarrow> hcore_strlfmt_size ops sz cap = None)"
proof -
  have "hcore_strlfmt_size ops sz cap = Some Fault"
    if sz: "2 ^ 50 \<le> sz" "sz \<le> HCORE_MAX_SSIZE_T_VALUE"
  proof -
    obtain k where k: "1024 ^ k \<le> sz" "sz < 1024 ^ Suc k"
      "fmt_size_loop sz 1 0 = Some (sz div 1024 ^ k, 1024 ^ k, k)"
      using fmt_size_loop_pos [of sz] sz by auto
    have "5 \<le> k"
    proof (rule ccontr)
      assume "\<not> 5 \<le> k"
      then have "(1024::int) ^ Suc k \<le> 1024 ^ 5" by (intro power_increasing) auto
      then show False using k(2) sz(1) by simp
    qed
    then have "k = 5 \<or> length size_units \<le> k" by (auto simp: size_units_def)
    then show ?thesis using k by (auto simp: hcore_strlfmt_size_def size_units_def Let_def)
  qed
  moreover have "sz < 0 \<Longrightarrow> hcore_strlfmt_size ops sz cap = None"
    by (simp add: hcore_strlfmt_size_def fmt_size_loop_neg)
  ultimately show ?thesis by blast
qed

lemma strlfmt_size_breaks_witness:
  "hcore_strlfmt_size whole_ops (2 ^ 50) 32 = Some Fault \<and> hcore_strlfmt_size whole_ops (-1) 32 = None"
  using strlfmt_size_breaks [of "2 ^ 50" whole_ops 32] strlfmt_size_breaks [of "-1" whole_ops 32] by simp

end
