(* ===== verification/HTime.thy ===== *)
theory HTime
  imports HString
begin

section \<open>Time (src/hcore_time.c, include/hcore_time.h)\<close>

text \<open>
  hcore_gmtime turns seconds since 1970 into a date by Gauss' formula on March-based years; the
  theory proves it against the calendar: the date is valid and the number of days before it, a
  sum of year and month lengths, is the one asked for. hcore_parse_time reads intervals such as
  "1h 30m". What localtime_r and clock_gettime return is a parameter.
\<close>

subsection \<open>hcore_gmtime and hcore_localtime\<close>

record hcore_tm =
  tm_sec :: int
  tm_min :: int
  tm_hour :: int
  tm_mday :: int
  tm_mon :: int
  tm_year :: int
  tm_wday :: int

definition hcore_localtime :: "(int \<Rightarrow> hcore_tm) \<Rightarrow> int \<Rightarrow> hcore_tm" where
  "hcore_localtime localtime_r s =
     (let tm = localtime_r s
      in tm\<lparr>tm_mon := i32 (tm_mon tm + 1), tm_year := i32 (tm_year tm + 1900)\<rparr>)"

text \<open>The year and the day of the March-based year, from the days since March 1, 1 BC.\<close>

definition gmtime_year :: "int \<Rightarrow> int \<times> int" where
  "gmtime_year days =
     (let year = u32 ((days + 2) * 400) div (365 * 400 + 100 - 4 + 1);
          yday = i32 (days - (365 * year + year div 4 - year div 100 + year div 400))
      in if yday < 0
         then (let leap = (if year mod 4 = 0 \<and> (year mod 100 \<noteq> 0 \<or> year mod 400 = 0) then 1 else 0)
               in (i32 (365 + leap + yday), u32 (year - 1)))
         else (yday, year))"

definition gmtime_date :: "int \<Rightarrow> int \<times> int \<times> int" where
  "gmtime_date days =
     (let days = u32 (days - (31 + 28) + 719527);
          (yday, year) = gmtime_year days;
          mon = (yday + 31) * 10 div 306;
          mday = u32 (yday - (367 * mon div 12 - 30) + 1)
      in if 306 \<le> yday then (u32 (year + 1), u32 (mon - 10), mday) else (year, u32 (mon + 2), mday))"

definition hcore_gmtime :: "int \<Rightarrow> hcore_tm" where
  "hcore_gmtime s =
     (let s = (if s < 0 then 0 else s);
          days = u32 (s div 86400);
          sec = u32 (s mod 86400);
          (days, sec) = (if 2932896 < days then (2932896, 86399) else (days, sec));
          wday = u32 (4 + days) mod 7;
          hour = sec div 3600;
          sec = sec mod 3600;
          minute = sec div 60;
          sec = sec mod 60;
          (year, mon, mday) = gmtime_date days
      in \<lparr>tm_sec = sec, tm_min = minute, tm_hour = hour, tm_mday = mday, tm_mon = mon,
          tm_year = year, tm_wday = wday\<rparr>)"

definition hcore_monotonic_time :: "int \<Rightarrow> int \<Rightarrow> int" where
  "hcore_monotonic_time tv_sec tv_nsec = u32 (u32 tv_sec * 1000 + u32 (tv_nsec div 1000000))"

subsection \<open>The calendar\<close>

definition leap_year :: "int \<Rightarrow> bool" where
  "leap_year y \<longleftrightarrow> y mod 4 = 0 \<and> (y mod 100 \<noteq> 0 \<or> y mod 400 = 0)"

definition year_days :: "int \<Rightarrow> int" where
  "year_days y = (if leap_year y then 366 else 365)"

definition month_days :: "int \<Rightarrow> int \<Rightarrow> int" where
  "month_days y m = (if m = 2 then (if leap_year y then 29 else 28)
     else if m \<in> {4, 6, 9, 11} then 30 else 31)"

definition day_number :: "int \<Rightarrow> int \<Rightarrow> int \<Rightarrow> int" where
  "day_number y m d = sum_list (map year_days [1970..y - 1])
     + sum_list (map (month_days y) [1..m - 1]) + (d - 1)"

definition valid_date :: "int \<Rightarrow> int \<Rightarrow> int \<Rightarrow> bool" where
  "valid_date y m d \<longleftrightarrow> 1 \<le> m \<and> m \<le> 12 \<and> 1 \<le> d \<and> d \<le> month_days y m"

text \<open>The days before March 1 of a year, counted from March 1 of year 0.\<close>

definition march_days :: "int \<Rightarrow> int" where
  "march_days y = 365 * y + y div 4 - y div 100 + y div 400"

lemma div_step:
  assumes "0 < (k::int)"
  shows "y div k = (y - 1) div k + (if y mod k = 0 then 1 else 0)"
proof (cases "y mod k = 0")
  case True
  then have "y = k * (y div k)" using mult_div_mod_eq [of k y] by linarith
  moreover have "k * (y div k - 1) = k * (y div k) - k" by (simp add: right_diff_distrib)
  ultimately have "y - 1 = k * (y div k - 1) + (k - 1)" by linarith
  from int_div_pos_eq [OF this] have "(y - 1) div k = y div k - 1" using assms by simp
  then show ?thesis using True by simp
next
  case False
  have "0 \<le> y mod k" using assms by simp
  then have "y - 1 = k * (y div k) + (y mod k - 1)" "0 \<le> y mod k - 1" "y mod k - 1 < k"
    using False mult_div_mod_eq [of k y] pos_mod_bound [OF assms, of y] by linarith+
  then have "(y - 1) div k = y div k" by (intro int_div_pos_eq)
  then show ?thesis using False by simp
qed

lemma march_step_arith:
  fixes y :: int
  assumes "y4 = x4 + i4" "y100 = x100 + i100" "y400 = x400 + i400" "i4 - i100 + i400 = l"
  shows "365 * y + y4 - y100 + y400 = (365 * (y - 1) + x4 - x100 + x400) + (365 + l)"
  using assms by simp

lemma leap_count:
  "(if y mod 4 = 0 then 1 else 0) - (if y mod 100 = 0 then 1 else 0) + (if y mod 400 = 0 then 1 else 0)
   = (if leap_year y then 1 else (0::int))"
proof -
  have "y mod 400 = 0 \<Longrightarrow> y mod 100 = 0" "y mod 100 = 0 \<Longrightarrow> y mod 4 = 0"
    using mod_mod_cancel [of 100 400 y] mod_mod_cancel [of 4 100 y] by simp_all
  then show ?thesis unfolding leap_year_def
    by (cases "y mod 400 = 0"; cases "y mod 100 = 0"; cases "y mod 4 = 0") (simp_all only: simp_thms if_True if_False, simp_all)
qed

lemma march_days_step: "march_days y = march_days (y - 1) + year_days y"
proof -
  have "march_days y = march_days (y - 1) + (365 + (if leap_year y then 1 else 0))"
    unfolding march_days_def
    by (rule march_step_arith [OF div_step div_step div_step leap_count]) simp_all
  then show ?thesis by (simp add: year_days_def)
qed

text \<open>The formula for the year is off by less than two days.\<close>

lemma march_linear_arith:
  fixes y :: int
  assumes "y = 400 * a + r" "r = 100 * b + t" "t = 4 * c + d"
    and "y100 = 4 * a + b" "y4 = 100 * a + 25 * b + c"
  shows "146097 * y - 400 * (365 * y + y4 - y100 + a) = 100 * b - 12 * c + 97 * d"
  using assms by simp

lemma march_days_linear:
  "-288 \<le> 146097 * y - 400 * march_days y" "146097 * y - 400 * march_days y \<le> 591"
proof -
  define a r b t c d where "a = y div 400" and "r = y mod 400" and "b = r div 100" and "t = r mod 100"
    and "c = t div 4" and "d = t mod 4"
  have y: "y = 400 * a + r" "r = 100 * b + t" "t = 4 * c + d"
    by (simp_all add: a_def r_def b_def t_def c_def d_def)
  have rng: "0 \<le> r" "r < 400" "0 \<le> t" "t < 100" "0 \<le> d" "d < 4"
    by (simp_all add: r_def t_def d_def)
  have "y div 100 = 4 * a + b" using y rng by (intro int_div_pos_eq [of _ _ _ t]) auto
  moreover have "y div 4 = 100 * a + 25 * b + c" using y rng by (intro int_div_pos_eq [of _ _ _ d]) auto
  ultimately have eq: "146097 * y - 400 * march_days y = 100 * b - 12 * c + 97 * d"
    unfolding march_days_def a_def [symmetric] by (rule march_linear_arith [OF y])
  have "0 \<le> b" "b \<le> 3" "0 \<le> c" "c \<le> 24" using y rng by linarith+
  then show "-288 \<le> 146097 * y - 400 * march_days y" "146097 * y - 400 * march_days y \<le> 591"
    unfolding eq using rng by linarith+
qed

lemma gauss_year:
  assumes "0 \<le> days" and y: "y = (days + 2) * 400 div 146097"
  shows "-2 \<le> days - march_days y" and "days - march_days y \<le> 364" and "0 \<le> y"
proof -
  have b: "146097 * y \<le> 400 * days + 800" "400 * days + 800 < 146097 * y + 146097"
  proof -
    obtain N where N: "N = (days + 2) * 400" "N = 400 * days + 800" by simp
    have "146097 * y + N mod 146097 = N" unfolding y N(1) [symmetric] by (rule mult_div_mod_eq)
    then show "146097 * y \<le> 400 * days + 800" "400 * days + 800 < 146097 * y + 146097"
      using pos_mod_sign [of 146097 N] pos_mod_bound [of 146097 N] N(2) by simp_all
  qed
  obtain F where F: "F = march_days y" by blast
  note lin = march_days_linear [of y, folded F]
  show "-2 \<le> days - march_days y"
  proof (rule ccontr)
    assume "\<not> ?thesis"
    then have "days - F \<le> -3" by (simp add: F)
    then show False using b(1) lin(1) by linarith
  qed
  show "days - march_days y \<le> 364"
  proof (rule ccontr)
    assume "\<not> ?thesis"
    then have "365 \<le> days - F" by (simp add: F)
    then show False using b(2) lin(2) by linarith
  qed
  show "0 \<le> y" unfolding y using assms(1) by (simp add: pos_imp_zdiv_nonneg_iff)
qed

text \<open>Day \<open>yday\<close> of a March-based year as a month and a day: the rows of the calendar.\<close>

definition march_month :: "int \<Rightarrow> int" where
  "march_month yday = (yday + 31) * 10 div 306"

text \<open>The days of the March-based year before each month, from March (1) to February (12).\<close>

definition march_before :: "int \<Rightarrow> int" where
  "march_before k = 367 * k div 12 - 30"

lemma march_month_eq:
  "306 * k \<le> 10 * yday + 310 \<Longrightarrow> 10 * yday + 310 < 306 * k + 306 \<Longrightarrow> march_month yday = k"
  unfolding march_month_def by (rule int_div_pos_eq [where r = "10 * yday + 310 - 306 * k"]) simp_all

lemma march_month_cases:
  assumes "0 \<le> yday" "yday \<le> 365"
  obtains k where "k \<in> {1, 2, 3, 4, 5, 6, 7, 8, 9, 10, 11, 12}" "march_month yday = k"
    "march_before k \<le> yday" "k = 12 \<or> yday < march_before (k + 1)"
proof -
  have mb: "march_before 1 = 0" "march_before 2 = 31" "march_before 3 = 61" "march_before 4 = 92"
    "march_before 5 = 122" "march_before 6 = 153" "march_before 7 = 184" "march_before 8 = 214"
    "march_before 9 = 245" "march_before 10 = 275" "march_before 11 = 306" "march_before 12 = 337"
    by (simp_all add: march_before_def)
  consider "yday < 31" | "31 \<le> yday" "yday < 61" | "61 \<le> yday" "yday < 92" | "92 \<le> yday" "yday < 122"
    | "122 \<le> yday" "yday < 153" | "153 \<le> yday" "yday < 184" | "184 \<le> yday" "yday < 214"
    | "214 \<le> yday" "yday < 245" | "245 \<le> yday" "yday < 275" | "275 \<le> yday" "yday < 306"
    | "306 \<le> yday" "yday < 337" | "337 \<le> yday" by linarith
  then show thesis
  proof cases
    case 1
    then show ?thesis using that [of 1] march_month_eq [of 1 yday] assms mb by simp
  next
    case 2
    then show ?thesis using that [of 2] march_month_eq [of 2 yday] assms mb by simp
  next
    case 3
    then show ?thesis using that [of 3] march_month_eq [of 3 yday] assms mb by simp
  next
    case 4
    then show ?thesis using that [of 4] march_month_eq [of 4 yday] assms mb by simp
  next
    case 5
    then show ?thesis using that [of 5] march_month_eq [of 5 yday] assms mb by simp
  next
    case 6
    then show ?thesis using that [of 6] march_month_eq [of 6 yday] assms mb by simp
  next
    case 7
    then show ?thesis using that [of 7] march_month_eq [of 7 yday] assms mb by simp
  next
    case 8
    then show ?thesis using that [of 8] march_month_eq [of 8 yday] assms mb by simp
  next
    case 9
    then show ?thesis using that [of 9] march_month_eq [of 9 yday] assms mb by simp
  next
    case 10
    then show ?thesis using that [of 10] march_month_eq [of 10 yday] assms mb by simp
  next
    case 11
    then show ?thesis using that [of 11] march_month_eq [of 11 yday] assms mb by simp
  next
    case 12
    then show ?thesis using that [of 12] march_month_eq [of 12 yday] assms mb by simp
  qed
qed

lemma years_sum:
  assumes "1970 \<le> y"
  shows "sum_list (map year_days [1970..y - 1]) = march_days (y - 1) - march_days 1969"
  using assms
proof (induction y rule: int_ge_induct)
  case base
  then show ?case by simp
next
  case (step y)
  have "[1970..y + 1 - 1] = [1970..y - 1] @ [y]" using step.hyps upto_rec2 [of 1970 y] by simp
  then show ?case using step.IH march_days_step [of y] by simp
qed

lemma march_days_1969: "march_days 1969 = 719162"
  by (simp add: march_days_def)

lemma march_table:
  "march_before 1 = 0" "march_before 2 = 31" "march_before 3 = 61" "march_before 4 = 92"
  "march_before 5 = 122" "march_before 6 = 153" "march_before 7 = 184" "march_before 8 = 214"
  "march_before 9 = 245" "march_before 10 = 275" "march_before 11 = 306" "march_before 12 = 337"
  by (simp_all add: march_before_def)

lemma months_before:
  assumes "k \<in> {1, 2, 3, 4, 5, 6, 7, 8, 9, 10}"
  shows "sum_list (map (month_days y) [1..k + 2 - 1]) = march_before k + 59 + (if leap_year y then 1 else 0)"
    and "month_days y (k + 2) = march_before (k + 1) - march_before k"
  using assms by (elim insertE emptyE; simp add: march_table month_days_def upto_rec1)+

lemma months_before_march:
  "sum_list (map (month_days y) [1..11 - 10 - 1]) = march_before 11 - 306"
  "sum_list (map (month_days y) [1..12 - 10 - 1]) = march_before 12 - 306"
  "month_days y (11 - 10) = 31" "month_days y (12 - 10) = 28 + (if leap_year y then 1 else 0)"
  by (simp_all add: march_table month_days_def upto_rec1)

text \<open>A day of a March-based year is the calendar's.\<close>

lemma march_date:
  assumes "1969 \<le> y" and "0 \<le> yday" and "yday \<le> 364 + (if leap_year (y + 1) then 1 else 0)"
    and "719468 \<le> march_days y + yday"
  defines "k \<equiv> march_month yday"
  defines "mday \<equiv> yday - march_before k + 1"
  shows "if 306 \<le> yday
    then valid_date (y + 1) (k - 10) mday \<and> day_number (y + 1) (k - 10) mday = march_days y + yday - 719468
    else valid_date y (k + 2) mday \<and> day_number y (k + 2) mday = march_days y + yday - 719468"
proof -
  have le: "yday \<le> 365" using assms(3) by (simp split: if_splits)
  obtain k' where k': "k' \<in> {1, 2, 3, 4, 5, 6, 7, 8, 9, 10, 11, 12}" "march_month yday = k'"
    and row: "march_before k' \<le> yday" "k' = 12 \<or> yday < march_before (k' + 1)"
    using march_month_cases [OF assms(2) le] by blast
  have k: "k = k'" by (simp add: k_def k')
  show ?thesis
  proof (cases "306 \<le> yday")
    case True
    then have k11: "k' = 11 \<or> k' = 12" using k'(1) row by (auto simp: march_table)
    have ys: "sum_list (map year_days [1970..y + 1 - 1]) = march_days y - 719162"
      using years_sum [of "y + 1"] assms(1) by (simp add: march_days_1969)
    have "valid_date (y + 1) (k' - 10) (yday - march_before k' + 1)
      \<and> day_number (y + 1) (k' - 10) (yday - march_before k' + 1) = march_days y + yday - 719468"
      using k11
    proof
      assume k: "k' = 11"
      show ?thesis unfolding valid_date_def day_number_def k ys months_before_march
        using True row k by (simp add: march_table)
    next
      assume k: "k' = 12"
      show ?thesis unfolding valid_date_def day_number_def k ys months_before_march
        using row k assms(3) by (simp add: march_table)
    qed
    then show ?thesis using True unfolding k mday_def by simp
  next
    case False
    then have k10: "k' \<in> {1, 2, 3, 4, 5, 6, 7, 8, 9, 10}" using k'(1) row by (auto simp: march_table)
    have y: "1970 \<le> y" using False assms(1,4) march_days_1969 by (cases "y = 1969") auto
    have ys: "sum_list (map year_days [1970..y - 1]) = march_days y - year_days y - 719162"
      using years_sum [OF y] march_days_step [of y] by (simp add: march_days_1969)
    have "1 \<le> k'" "k' \<le> 10" "yday < march_before (k' + 1)" using k10 row(2) by auto
    then have "valid_date y (k' + 2) (yday - march_before k' + 1)
      \<and> day_number y (k' + 2) (yday - march_before k' + 1) = march_days y + yday - 719468"
      unfolding valid_date_def day_number_def ys months_before [OF k10]
      using row(1) by (simp add: year_days_def)
    then show ?thesis using False unfolding k mday_def by simp
  qed
qed

subsection \<open>hcore_gmtime is correct\<close>

lemma gmtime_year_ok:
  assumes n: "0 \<le> n" "n \<le> 2932896" and D: "D = n + 719468" and run: "gmtime_year D = (yday, y)"
  shows "1969 \<le> y" and "y \<le> 9999" and "0 \<le> yday"
    and "yday \<le> 364 + (if leap_year (y + 1) then 1 else 0)" and "march_days y + yday = D"
proof -
  define g where "g = (D + 2) * 400 div 146097"
  have "0 \<le> D" using n D by simp
  note gy = gauss_year [OF this g_def]
  have D_rng: "719468 \<le> D" "D \<le> 3652364" using n D by simp_all
  have lin: "-288 \<le> 146097 * g - 400 * march_days g" "146097 * g - 400 * march_days g \<le> 591"
    by (rule march_days_linear)+
  have g_rng: "1969 \<le> g" "g \<le> 9999" using lin gy D_rng by linarith+
  have u: "u32 ((D + 2) * 400) = (D + 2) * 400" using D_rng by (intro u32_id) simp_all
  have yd: "i32 (D - march_days g) = D - march_days g" using gy by (intro i32_id) simp_all
  have run': "gmtime_year D = (if D - march_days g < 0
      then (i32 (365 + (if leap_year g then 1 else 0) + (D - march_days g)), u32 (g - 1))
      else (D - march_days g, g))"
  proof -
    have c: "365 * 400 + 100 - 4 + 1 = (146097 :: int)" by simp
    show ?thesis
      unfolding gmtime_year_def Let_def u c g_def [symmetric] march_days_def [symmetric]
        leap_year_def [symmetric] yd by (rule refl)
  qed
  have "1969 \<le> y \<and> y \<le> 9999 \<and> 0 \<le> yday
      \<and> yday \<le> 364 + (if leap_year (y + 1) then 1 else 0) \<and> march_days y + yday = D"
  proof (cases "D - march_days g < 0")
    case False
    then show ?thesis
      using run run' gy g_rng by auto
  next
    case True
    then have "i32 (365 + (if leap_year g then 1 else 0) + (D - march_days g))
        = 365 + (if leap_year g then 1 else 0) + (D - march_days g)" "u32 (g - 1) = g - 1"
      using gy g_rng by (auto intro!: i32_id u32_id)
    then have y: "yday = 365 + (if leap_year g then 1 else 0) + (D - march_days g)" "y = g - 1"
      using True run run' by simp_all
    have "march_days g = march_days (g - 1) + year_days g" by (rule march_days_step)
    moreover have "1970 \<le> g"
    proof (rule ccontr)
      assume "\<not> ?thesis"
      then have "g = 1969" using g_rng by simp
      then show False using True D_rng march_days_1969 by simp
    qed
    ultimately show ?thesis
      using y gy True g_rng by (cases "leap_year g") (simp_all add: year_days_def)
  qed
  then show "1969 \<le> y" "y \<le> 9999" "0 \<le> yday"
    "yday \<le> 364 + (if leap_year (y + 1) then 1 else 0)" "march_days y + yday = D" by simp_all
qed

lemma gmtime_date_ok:
  assumes n: "0 \<le> n" "n \<le> 2932896" and run: "gmtime_date n = (y, m, d)"
  shows "valid_date y m d" and "day_number y m d = n"
proof -
  have D: "u32 (n - (31 + 28) + 719527) = n + 719468" using n by (simp add: u32_id)
  obtain yday g where gy: "gmtime_year (n + 719468) = (yday, g)" by fastforce
  note ok = gmtime_year_ok [OF n refl gy]
  obtain k where k: "march_month yday = k" by blast
  have kr: "k \<in> {1, 2, 3, 4, 5, 6, 7, 8, 9, 10, 11, 12}" and row: "march_before k \<le> yday"
    "306 \<le> yday \<Longrightarrow> 11 \<le> k"
  proof -
    have le: "yday \<le> 365" using ok(4) by (simp split: if_splits)
    obtain k' where "k' \<in> {1, 2, 3, 4, 5, 6, 7, 8, 9, 10, 11, 12}" "march_month yday = k'"
      "march_before k' \<le> yday" "k' = 12 \<or> yday < march_before (k' + 1)"
      using march_month_cases [OF ok(3) le] by blast
    then show "k \<in> {1, 2, 3, 4, 5, 6, 7, 8, 9, 10, 11, 12}" "march_before k \<le> yday"
      "306 \<le> yday \<Longrightarrow> 11 \<le> k"
      using k by (auto simp: march_table)
  qed
  define md where "md = yday - march_before k + 1"
  have "0 \<le> march_before k" using kr by (auto simp: march_table)
  then have md: "u32 md = md" using row(1) ok(3,4) unfolding md_def by (intro u32_id) (auto split: if_splits)
  have idk: "u32 (g + 1) = g + 1" "u32 (k + 2) = k + 2" "11 \<le> k \<Longrightarrow> u32 (k - 10) = k - 10"
    using ok(1,2) kr by (auto intro!: u32_id)
  have "(y, m, d) = (if 306 \<le> yday then (u32 (g + 1), u32 (k - 10), u32 md) else (g, u32 (k + 2), u32 md))"
    using run unfolding gmtime_date_def D gy Let_def md_def march_before_def k [symmetric] march_month_def
    by simp
  then have "(y, m, d) = (if 306 \<le> yday then (g + 1, k - 10, md) else (g, k + 2, md))"
    using md idk row(2) by (cases "306 \<le> yday") simp_all
  moreover have "if 306 \<le> yday
    then valid_date (g + 1) (k - 10) md \<and> day_number (g + 1) (k - 10) md = march_days g + yday - 719468
    else valid_date g (k + 2) md \<and> day_number g (k + 2) md = march_days g + yday - 719468"
    using march_date [OF ok(1,3,4)] ok(5) n(1) unfolding md_def k by simp
  ultimately show "valid_date y m d" "day_number y m d = n" using ok(5) by (simp_all split: if_splits)
qed

text \<open>C30: for every time from 1970 to the end of 9999 hcore_gmtime returns a valid date of the
  Gregorian calendar whose number of days since January 1, 1970 (whole years and whole months
  summed) is the one of the time, the right day of the week, and the time of day.\<close>

theorem gmtime_correct:
  assumes "0 \<le> s" and "s \<le> 253402300799"
  defines "tm \<equiv> hcore_gmtime s"
  shows "valid_date (tm_year tm) (tm_mon tm) (tm_mday tm)
    \<and> day_number (tm_year tm) (tm_mon tm) (tm_mday tm) = s div 86400
    \<and> tm_wday tm = (4 + s div 86400) mod 7
    \<and> tm_hour tm * 3600 + tm_min tm * 60 + tm_sec tm = s mod 86400
    \<and> tm_hour tm < 24 \<and> 0 \<le> tm_min tm \<and> tm_min tm < 60 \<and> 0 \<le> tm_sec tm \<and> tm_sec tm < 60"
proof -
  obtain n r where n: "n = s div 86400" "r = s mod 86400" by blast
  have rng: "0 \<le> n" "n \<le> 2932896" "0 \<le> r" "r < 86400"
    using assms(1,2) by (simp_all add: n)
  have ids: "u32 n = n" "u32 r = r" "u32 (4 + n) = 4 + n" using rng by (auto intro!: u32_id)
  obtain y m d where date: "gmtime_date n = (y, m, d)" by (metis prod_cases3)
  have s: "(if s < 0 then 0 else s) = s" using assms(1) by simp
  have tm: "tm = \<lparr>tm_sec = r mod 3600 mod 60, tm_min = r mod 3600 div 60, tm_hour = r div 3600,
      tm_mday = d, tm_mon = m, tm_year = y, tm_wday = (4 + n) mod 7\<rparr>"
    using assms(1) rng ids date
    unfolding tm_def hcore_gmtime_def Let_def s n(1) [symmetric] n(2) [symmetric] by simp
  have time: "r div 3600 * 3600 + r mod 3600 div 60 * 60 + r mod 3600 mod 60 = r" by simp
  have "r div 3600 < 24" "r mod 3600 div 60 < 60" using rng by linarith+
  then show ?thesis using gmtime_date_ok [OF rng(1,2) date] time rng unfolding tm n [symmetric] by simp
qed

theorem gmtime_correct_witness:
  "day_number (tm_year (hcore_gmtime 951782400)) (tm_mon (hcore_gmtime 951782400))
     (tm_mday (hcore_gmtime 951782400)) = 11016"
  using gmtime_correct [of 951782400] by simp

subsection \<open>hcore_parse_time\<close>

text \<open>The values of the enumeration: \<open>st_start\<close> 0, year 1, month 2, week 3, day 4, hour 5, minute 6,
  second 7, millisecond 8, \<open>st_last\<close> 9. The switch returns the new step, \<open>max\<close>, \<open>scale\<close> and
  the rest of the line; \<open>None\<close> is HCORE_ERROR.\<close>

definition pt_unit :: "bool \<Rightarrow> int \<Rightarrow> byte \<Rightarrow> byte list \<Rightarrow> (int \<times> int \<times> int \<times> byte list) option" where
  "pt_unit is_sec step c rest =
     (let mx = HCORE_MAX_INT_T_VALUE in
      if c = 121 then
        (if 0 < step then None else Some (1, mx div (60 * 60 * 24 * 365), 60 * 60 * 24 * 365, rest))
      else if c = 77 then
        (if 2 \<le> step then None else Some (2, mx div (60 * 60 * 24 * 30), 60 * 60 * 24 * 30, rest))
      else if c = 119 then
        (if 3 \<le> step then None else Some (3, mx div (60 * 60 * 24 * 7), 60 * 60 * 24 * 7, rest))
      else if c = 100 then
        (if 4 \<le> step then None else Some (4, mx div (60 * 60 * 24), 60 * 60 * 24, rest))
      else if c = 104 then
        (if 5 \<le> step then None else Some (5, mx div (60 * 60), 60 * 60, rest))
      else if c = 109 then
        (if rest \<noteq> [] \<and> hd rest = 115
         then (if is_sec \<or> 8 \<le> step then None else Some (8, mx, 1, tl rest))
         else if 6 \<le> step then None else Some (6, mx div 60, 60, rest))
      else if c = 115 then (if 7 \<le> step then None else Some (7, mx, 1, rest))
      else if c = 32 then (if 7 \<le> step then None else Some (9, mx, 1, rest))
      else None)"

text \<open>The factor of a unit in milliseconds mode.\<close>

definition pt_scale :: "bool \<Rightarrow> int \<Rightarrow> int \<Rightarrow> int \<Rightarrow> int \<times> int" where
  "pt_scale is_sec step mx scale =
     (if step \<noteq> 8 \<and> \<not> is_sec then (i32 (scale * 1000), mx div 1000) else (scale, mx))"

definition pt_finish :: "bool \<Rightarrow> int \<Rightarrow> int \<Rightarrow> bool \<Rightarrow> int" where
  "pt_finish is_sec v tot valid =
     (if \<not> valid then HCORE_ERROR
      else if \<not> is_sec \<and> HCORE_MAX_INT_T_VALUE div 1000 < v then HCORE_ERROR
      else let v = (if \<not> is_sec then i32 (v * 1000) else v) in
           if i32 (HCORE_MAX_INT_T_VALUE - v) < tot then HCORE_ERROR else i32 (tot + v))"

lemma pt_unit_shorter: "pt_unit is_sec step c rest = Some (st, mx, sc, rest') \<Longrightarrow> length rest' \<le> length rest"
  by (auto simp: pt_unit_def Let_def split: if_splits)

function pt_loop :: "bool \<Rightarrow> int \<Rightarrow> int \<Rightarrow> int \<Rightarrow> bool \<Rightarrow> byte list \<Rightarrow> int" where
  "pt_loop is_sec step v tot valid [] = pt_finish is_sec v tot valid"
| "pt_loop is_sec step v tot valid (c # cs) =
     (let cutoff = HCORE_MAX_INT_T_VALUE div 10; cutlim = HCORE_MAX_INT_T_VALUE mod 10 in
      if is_digit c then
        (if cutoff \<le> v \<and> (cutoff < v \<or> cutlim < digit_val c) then HCORE_ERROR
         else pt_loop is_sec step (i32 (v * 10 + digit_val c)) tot True cs)
      else
        case pt_unit is_sec step c cs of
          None \<Rightarrow> HCORE_ERROR
        | Some (step, mx, scale, rest) \<Rightarrow>
            (let (scale, mx) = pt_scale is_sec step mx scale in
             if mx < v then HCORE_ERROR
             else let v = i32 (v * scale) in
                  if i32 (HCORE_MAX_INT_T_VALUE - v) < tot then HCORE_ERROR
                  else pt_loop is_sec step 0 (i32 (tot + v)) valid (dropWhile (\<lambda>x. x = 32) rest)))"
  by pat_completeness auto
termination
  by (relation "measure (\<lambda>(is_sec, step, v, tot, valid, line). length line)")
    (auto dest!: pt_unit_shorter intro!: le_imp_less_Suc elim: order_trans [OF length_dropWhile_le])

definition hcore_parse_time :: "byte list \<Rightarrow> bool \<Rightarrow> int" where
  "hcore_parse_time line is_sec = pt_loop is_sec (if is_sec then 0 else 2) 0 0 False line"

text \<open>A unit keeps the limits: what passes the test against \<open>max\<close> does not overflow.\<close>

lemma pt_unit_limits:
  assumes "pt_unit is_sec step c rest = Some (st, mx, sc, rest')" and "is_sec \<or> 2 \<le> step"
    and "pt_scale is_sec st mx sc = (sc', mx')"
  shows "1 \<le> sc'" and "0 \<le> mx'" and "0 \<le> v \<Longrightarrow> v \<le> mx' \<Longrightarrow> v * sc' \<le> 2147483647" and "is_sec \<or> 2 \<le> st"
  using assms by (auto simp: pt_unit_def pt_scale_def i32_id Let_def split: if_splits)

lemma pt_loop_range:
  assumes "0 \<le> v" "v \<le> 2147483647" "0 \<le> tot" "tot \<le> 2147483647" "is_sec \<or> 2 \<le> step"
  shows "pt_loop is_sec step v tot valid line = -1
    \<or> 0 \<le> pt_loop is_sec step v tot valid line \<and> pt_loop is_sec step v tot valid line \<le> 2147483647"
  using assms
proof (induction is_sec step v tot valid line rule: pt_loop.induct)
  case (1 is_sec step v tot valid)
  then show ?case by (auto simp: pt_finish_def i32_id Let_def)
next
  case (2 is_sec step v tot valid c cs)
  show ?case
  proof (cases "is_digit c")
    case True
    then have "0 \<le> digit_val c" "digit_val c \<le> 9" using digit_val_range by auto
    then show ?thesis using 2(1) [OF refl refl True] 2(3-) True
      by (cases "214748364 \<le> v \<and> (214748364 < v \<or> 7 < digit_val c)") (auto simp: Let_def i32_id)
  next
    case False
    show ?thesis
    proof (cases "pt_unit is_sec step c cs")
      case None
      then show ?thesis using False by simp
    next
      case (Some u)
      obtain st mx sc rest where u: "u = (st, mx, sc, rest)" by (cases u)
      obtain sc' mx' where sc: "pt_scale is_sec st mx sc = (sc', mx')" by fastforce
      note lim = pt_unit_limits [OF Some [unfolded u] 2(7) sc]
      show ?thesis
      proof (cases "mx' < v")
        case True
        then show ?thesis using False Some u sc by simp
      next
        case ok: False
        have m: "0 \<le> v * sc'" "v * sc' \<le> 2147483647" using lim(1,3) ok 2(3) by simp_all
        then have w: "i32 (v * sc') = v * sc'" "i32 (2147483647 - v * sc') = 2147483647 - v * sc'"
          by (simp_all add: i32_id)
        show ?thesis
        proof (cases "2147483647 - v * sc' < tot")
          case True
          then show ?thesis using False Some u sc ok w by simp
        next
          case fits: False
          then have t: "i32 (tot + v * sc') = tot + v * sc'" using m 2(5) by (intro i32_id) auto
          show ?thesis
            using 2(2) [OF refl refl False Some [unfolded u] refl refl refl refl sc [symmetric] ok refl] False Some u sc ok w fits t m lim 2(3-)
            by (simp add: Let_def)
        qed
      qed
    qed
  qed
qed


end
