(* ===== verification/HInet.thy ===== *)
theory HInet
  imports HFormat
begin

section \<open>Addresses (src/hcore_inet.c, include/hcore_inet.h)\<close>

text \<open>
  Printing socket addresses, and reading URLs, IPv4 addresses, port ranges, masks and MAC
  addresses. Numbers in network order are words whose bytes in memory are named by \<open>byte_at\<close>,
  the least significant first, as the target stores them. A string is its bytes; a function that
  looks behind the end of its argument takes the whole object the string is in and is \<open>Fault\<close>
  outside it. inet_ntop of the C library is a parameter.
\<close>

unbundle bit_operations_syntax

subsection \<open>Bytes of words\<close>

definition byte_at :: "word32 \<Rightarrow> nat \<Rightarrow> byte" where
  "byte_at w k = ucast (drop_bit (8 * k) w)"

definition of_memory :: "byte \<Rightarrow> byte \<Rightarrow> byte \<Rightarrow> byte \<Rightarrow> word32" where
  "of_memory b0 b1 b2 b3 =
     ucast b0 OR push_bit 8 (ucast b1) OR push_bit 16 (ucast b2) OR push_bit 24 (ucast b3)"

definition hcore_swap32 :: "word32 \<Rightarrow> word32" where
  "hcore_swap32 v = of_memory (byte_at v 3) (byte_at v 2) (byte_at v 1) (byte_at v 0)"

definition hcore_endian32 :: "word32 \<Rightarrow> word32" where
  "hcore_endian32 src = (let x = 1 in if byte_at x 0 \<noteq> 0 then hcore_swap32 src else src)"

text \<open>htonl, htons and ntohs of the C library reverse the bytes on a little-endian target.\<close>

definition htonl :: "word32 \<Rightarrow> word32" where
  "htonl v = of_memory (byte_at v 3) (byte_at v 2) (byte_at v 1) (byte_at v 0)"

definition htons :: "16 word \<Rightarrow> 16 word" where
  "htons v = ucast (ucast (drop_bit 8 v) :: byte) OR push_bit 8 (ucast (ucast v :: byte))"

lemma byte_bit_high [simp]: "8 \<le> n \<Longrightarrow> \<not> bit (b::byte) n"
  using byte_bit_bound [of b n] by auto

lemma byte_at_of_memory [simp]:
  "byte_at (of_memory a b c d) 0 = a" "byte_at (of_memory a b c d) 1 = b"
  "byte_at (of_memory a b c d) (Suc 0) = b"
  "byte_at (of_memory a b c d) 2 = c" "byte_at (of_memory a b c d) 3 = d"
  by (auto intro!: bit_word_eqI simp: byte_at_def of_memory_def bit_simps)

lemma of_memory_byte_at: "of_memory (byte_at w 0) (byte_at w 1) (byte_at w 2) (byte_at w 3) = w"
proof (rule bit_word_eqI)
  fix n assume "n < LENGTH(32)"
  then consider "n < 8" | "8 \<le> n" "n < 16" | "16 \<le> n" "n < 24" | "24 \<le> n" "n < 32" by fastforce
  then show "bit (of_memory (byte_at w 0) (byte_at w 1) (byte_at w 2) (byte_at w 3)) n = bit w n"
    by cases (auto simp: of_memory_def byte_at_def bit_simps)
qed

lemma htons_htons [simp]: "htons (htons p) = p"
proof (rule bit_word_eqI)
  fix n assume "n < LENGTH(16)"
  then consider "n < 8" | "8 \<le> n" "n < 16" by fastforce
  then show "bit (htons (htons p)) n = bit p n"
    by cases (auto simp: htons_def bit_simps)
qed

lemma swap32_swap32 [simp]: "hcore_swap32 (hcore_swap32 v) = v"
  using of_memory_byte_at [of v] by (simp add: hcore_swap32_def)

text \<open>hcore_endian32 is htonl: its own inverse, and it reverses the bytes in memory.\<close>

lemma endian32_htonl: "hcore_endian32 v = htonl v"
  by (simp add: hcore_endian32_def hcore_swap32_def htonl_def byte_at_def)

subsection \<open>hcore_inet_addr\<close>

abbreviation (input) INADDR_NONE :: word32 where "INADDR_NONE \<equiv> 0xffffffff"

fun inet_loop :: "word32 \<Rightarrow> int \<Rightarrow> int \<Rightarrow> byte list \<Rightarrow> word32" where
  "inet_loop addr octet n [] =
     (if n = 3 then (let addr = push_bit 8 addr + word_of_int octet in htonl addr) else INADDR_NONE)"
| "inet_loop addr octet n (c # text) =
     (if is_digit c then
        (let octet = u32 (octet * 10 + digit_val c) in
         if 255 < octet then INADDR_NONE else inet_loop addr octet n text)
      else if c = 46 then inet_loop (push_bit 8 addr + word_of_int octet) 0 (u32 (n + 1)) text
      else INADDR_NONE)"

definition hcore_inet_addr :: "byte list \<Rightarrow> word32" where
  "hcore_inet_addr text = inet_loop 0 0 0 text"

lemma inet_loop_number:
  assumes "0 \<le> v" "value_of dec_digit 10 v cs = Some r" "r \<le> 255"
  shows "inet_loop addr v n (cs @ rest) = inet_loop addr r n rest"
  using assms
proof (induction cs arbitrary: v)
  case Nil
  then show ?case by simp
next
  case (Cons c cs)
  then obtain d where d: "dec_digit c = Some d" "value_of dec_digit 10 (v * 10 + d) cs = Some r"
    by (auto split: option.splits)
  have r: "0 \<le> v * 10 + d" "v * 10 + d \<le> r"
    using dec_digit_pos [OF d(1)] Cons.prems(1) atosz.value_mono [OF _ d(2)] by simp_all
  moreover have "is_digit c" "digit_val c = d" using d(1) by (auto simp: dec_digit_def split: if_splits)
  ultimately show ?case using Cons.IH [OF r(1) d(2)] Cons.prems(3) by (simp add: u32_id Let_def)
qed

lemma push_plus_byte: "push_bit 8 (w::word32) + ucast (b::byte) = push_bit 8 w OR ucast b"
  by (rule disjunctive_add_eq_or) (auto intro!: bit_word_eqI simp: bit_simps not_less)

lemma octets_htonl:
  "htonl (push_bit 8 (push_bit 8 (push_bit 8 (push_bit 8 0 + ucast a) + ucast b) + ucast c) + ucast d)
    = of_memory a b c d"
  unfolding htonl_def push_plus_byte
  by (rule arg_cong4 [of _ _ _ _ _ _ _ _ of_memory])
    (auto intro!: bit_word_eqI simp: byte_at_def bit_simps)

text \<open>The dotted form of four octets, as \<open>%ud.%ud.%ud.%ud\<close> prints it.\<close>

definition dotted :: "byte \<Rightarrow> byte \<Rightarrow> byte \<Rightarrow> byte \<Rightarrow> byte list" where
  "dotted a b c d = num_digits (uint a) 0 @ 46 # num_digits (uint b) 0 @ 46 # num_digits (uint c) 0 @ 46
     # num_digits (uint d) 0"

lemma uint_byte: "0 \<le> uint (a::byte)" "uint (a::byte) \<le> 255"
  using uint_lt2p [of a] by simp_all

lemma inet_addr_dotted: "hcore_inet_addr (dotted a b c d) = of_memory a b c d"
proof -
  have num: "inet_loop addr 0 n (num_digits (uint x) 0 @ rest) = inet_loop addr (uint x) n rest"
    for addr n rest and x :: byte using num_digits_value(1) [of "uint x"] uint_byte [of x] by (intro inet_loop_number) simp_all
  have num': "inet_loop addr 0 n (num_digits (uint x) 0) = inet_loop addr (uint x) n []"
    for addr n and x :: byte using num [of addr n x "[]"] by simp
  have u: "word_of_int (uint x) = (ucast x :: word32)" for x :: byte by (rule ucast_eq [symmetric])
  have dot: "inet_loop addr (uint x) n (46 # t) = inet_loop (push_bit 8 addr + ucast x) 0 (u32 (n + 1)) t"
    for addr n t and x :: byte by (simp add: is_digit_def u)
  have stop: "inet_loop addr (uint x) 3 [] = htonl (push_bit 8 addr + ucast x)"
    for addr and x :: byte by (simp add: u)
  have "u32 1 = 1" "u32 (1 + 1) = 2" "u32 (2 + 1) = 3" by (simp_all add: u32_id)
  then show ?thesis
    unfolding hcore_inet_addr_def dotted_def num num' dot octets_htonl [symmetric]
    by (simp only: stop add_0)
qed

subsection \<open>Socket addresses and URLs\<close>

text \<open>The members of \<open>struct sockaddr_in\<close> the code uses, the union hcore_sockaddr_t by the family
  of its contents, and hcore_url_t with its strings by their bytes.\<close>

record sockaddr_in =
  sin_family :: int
  sin_port :: "16 word"
  sin_addr :: word32

datatype hcore_sockaddr =
  Sockaddr_in sockaddr_in
| Sockaddr_in6 "byte list" "16 word"
| Sockaddr_un "byte list"
| Sockaddr_other int

record hcore_url =
  url_family :: int
  url_sockaddr :: sockaddr_in
  url_socklen :: int
  url_port :: int
  url_port_text :: "byte list"
  url_host :: "byte list"
  url_text :: "byte list"
  url_err :: "string option"
  url_listen :: bool

abbreviation (input) AF_UNIX :: int where "AF_UNIX \<equiv> 1"

abbreviation (input) AF_INET :: int where "AF_INET \<equiv> 2"

abbreviation (input) AF_INET6 :: int where "AF_INET6 \<equiv> 10"

definition hcore_get_max_addr_len :: "int \<Rightarrow> int" where
  "hcore_get_max_addr_len family =
     (if family = AF_INET then 15 else if family = AF_INET6 then 45
      else if family = AF_UNIX then 5 + 110 - 2 else 5 + 110 - 2)"

text \<open>The bytes written to \<open>text\<close> and the value returned. \<open>inet_ntop\<close> gives the text of the
  sixteen bytes of an IPv6 address, or \<open>None\<close> for NULL.\<close>

definition hcore_sock_ntop :: "'d dblops \<Rightarrow> (byte list \<Rightarrow> byte list option) \<Rightarrow> hcore_sockaddr \<Rightarrow> nat \<Rightarrow> nat
    \<Rightarrow> (byte list \<times> int) run" where
  "hcore_sock_ntop ops inet_ntop sa socklen len =
     (case sa of
        Sockaddr_in sin \<Rightarrow>
          bind_run (hcore_snprintf ops len (bytes ''%ud.%ud.%ud.%ud:%d'' @ [0])
              [VInt (uint (byte_at (sin_addr sin) 0)), VInt (uint (byte_at (sin_addr sin) 1)),
               VInt (uint (byte_at (sin_addr sin) 2)), VInt (uint (byte_at (sin_addr sin) 3)),
               VInt (uint (htons (sin_port sin)))])
            (\<lambda>t. Ret (t, int (length t)))
      | Sockaddr_in6 addr port \<Rightarrow>
          (case inet_ntop addr of
             None \<Rightarrow> Ret ([91], 0)
           | Some t \<Rightarrow>
               (let n = 1 + length t in
                bind_run (hcore_snprintf ops (len - n) (bytes '']:%d'' @ [0]) [VInt (uint (htons port))])
                  (\<lambda>r. Ret (91 # t @ r, int (n + length r)))))
      | Sockaddr_un path \<Rightarrow>
          bind_run
            (if socklen \<le> 2 then hcore_snprintf ops len (bytes ''unix:%Z'' @ [0]) []
             else if 0 \<notin> set path \<and> length path < socklen - 2 then Fault
             else (let n = length (takeWhile (\<lambda>c. c \<noteq> 0) (take (socklen - 2) path)) in
                   hcore_snprintf ops len (bytes ''unix:%*s%Z'' @ [0]) [VInt (int n), VStr path]))
            (\<lambda>t. Ret (t, u64 (int (length t) - 1)))
      | Sockaddr_other family \<Rightarrow> Ret ([], 0))"

definition url_fail :: "string \<Rightarrow> hcore_url \<Rightarrow> int \<times> hcore_url" where
  "url_fail msg url = (HCORE_ERROR, url\<lparr>url_err := Some msg\<rparr>)"

definition url_set_port :: "int \<Rightarrow> byte list \<Rightarrow> hcore_url \<Rightarrow> hcore_url" where
  "url_set_port n text url =
     url\<lparr>url_port := n, url_sockaddr := (url_sockaddr url)\<lparr>sin_port := htons (word_of_int n)\<rparr>,
         url_port_text := text\<rparr>"

definition url_set_addr :: "word32 \<Rightarrow> hcore_url \<Rightarrow> hcore_url" where
  "url_set_addr a url = url\<lparr>url_sockaddr := (url_sockaddr url)\<lparr>sin_addr := a\<rparr>\<rparr>"

definition parse_url_host :: "byte list \<Rightarrow> hcore_url \<Rightarrow> int \<times> hcore_url" where
  "parse_url_host host url =
     (if host = [] then url_fail ''no host'' url
      else
        let url = url\<lparr>url_host := host\<rparr> in
        if length host = 1 \<and> hd host = 42 then
          (if \<not> url_listen url then url_fail (''unsupport '' @ [CHR 0x27, CHR ''*'', CHR 0x27] @ '' for no listen'') url
           else (HCORE_OK, url_set_addr 0 url))
        else
          let url = url_set_addr (hcore_inet_addr host) url in
          if sin_addr (url_sockaddr url) = INADDR_NONE then url_fail ''invalid ip'' url
          else (HCORE_OK, url\<lparr>url_err := None\<rparr>))"

definition hcore_parse_inet_sock :: "byte list \<Rightarrow> hcore_url \<Rightarrow> int \<times> hcore_url" where
  "hcore_parse_inet_sock str url =
     (if str = [] then (HCORE_ERROR, url)
      else
        let url = url\<lparr>url_socklen := 16, url_family := AF_INET,
                      url_sockaddr := (url_sockaddr url)\<lparr>sin_family := AF_INET\<rparr>\<rparr> in
        case hcore_strlchr str 58 0 of
          Some k \<Rightarrow>
            (let port = drop (Suc k) str; n = hcore_atoi port in
             if n < 1 \<or> 65535 < n then url_fail ''invalid port'' url
             else parse_url_host (take k str) (url_set_port n port url))
        | None \<Rightarrow>
            (if \<not> url_listen url then url_fail ''need a host'' url
             else
               let n = hcore_atoi str in
               if n = HCORE_ERROR then url_fail ''no port'' url
               else if n < 1 \<or> 65535 < n then url_fail ''invalid port'' url
               else (HCORE_OK, url_set_addr 0 (url_set_port n str url)\<lparr>url_host := [42]\<rparr>)))"

definition hcore_parse_unix_sock :: "byte list \<Rightarrow> hcore_url \<Rightarrow> int \<times> hcore_url" where
  "hcore_parse_unix_sock str url = (HCORE_ERROR, url)"

text \<open>\<open>sizeof("unix:")\<close> counts the terminator, so the prefix alone is not taken for a path.\<close>

definition hcore_parse_url :: "byte list \<Rightarrow> hcore_url \<Rightarrow> int \<times> hcore_url" where
  "hcore_parse_url str url =
     (let url = url\<lparr>url_text := str\<rparr> in
      if 6 \<le> length str \<and> take 5 str = bytes ''unix:'' then hcore_parse_unix_sock (drop 5 str) url
      else hcore_parse_inet_sock str url)"

definition hcore_parse_listen :: "byte list \<Rightarrow> hcore_url \<Rightarrow> int \<times> hcore_url" where
  "hcore_parse_listen str url = hcore_parse_url str (url\<lparr>url_listen := True\<rparr>)"

subsection \<open>hcore_parse_port_range\<close>

text \<open>\<open>Some\<close> is HCORE_OK with both results set, \<open>None\<close> is HCORE_ERROR with neither.\<close>

definition hcore_parse_port_range :: "byte list \<Rightarrow> (int \<times> int) option" where
  "hcore_parse_port_range data =
     (let first = (\<lambda>ep data.
            let bp = hcore_atoi data in
            if bp < 1 \<or> 65535 < bp then None
            else if ep \<noteq> -1 \<and> ep < bp then None
            else Some (bp, if ep = -1 then bp else ep))
      in case hcore_strlchr data 45 0 of
           Some k \<Rightarrow>
             (let ep = hcore_atoi (drop (Suc k) data) in
              if ep < 1 \<or> 65535 < ep then None else first ep (take k data))
         | None \<Rightarrow> first (-1) data)"

subsection \<open>Masks\<close>

text \<open>The two loops of hcore_check_mask with their variables \<open>(err, check_value)\<close>; \<open>None\<close> is the
  return of HCORE_ERROR.\<close>

function check_mask_bits :: "byte \<Rightarrow> int \<Rightarrow> bool \<times> int \<Rightarrow> (bool \<times> int) option" where
  "check_mask_bits b bt (err, check) =
     (if bt = 0 then
        (if uint (b AND push_bit (nat bt) 1) \<noteq> check then
           (if err then None else check_mask_bits b (u32 (bt - 1)) (True, 0))
         else check_mask_bits b (u32 (bt - 1)) (err, check))
      else Some (err, check))"
  by pat_completeness auto
termination
  by (relation "measure (\<lambda>(b, bt, s). if bt = 0 then 1 else 0)") (auto simp: u32_def)

fun check_mask_loop :: "byte list \<Rightarrow> bool \<times> int \<Rightarrow> int" where
  "check_mask_loop [] s = HCORE_OK"
| "check_mask_loop (b # bs) s =
     (case check_mask_bits b 7 s of None \<Rightarrow> HCORE_ERROR | Some s \<Rightarrow> check_mask_loop bs s)"

definition hcore_check_mask :: "byte list \<Rightarrow> int" where
  "hcore_check_mask data = check_mask_loop data (False, 1)"

definition hcore_parse_ip_and_mask :: "byte list \<Rightarrow> (word32 \<times> word32) option" where
  "hcore_parse_ip_and_mask data =
     (case hcore_strlchr data 47 0 of
        None \<Rightarrow> None
      | Some k \<Rightarrow>
          (let ip_text = take k data; mask_text = drop (Suc k) data in
           if 15 < length ip_text then None
           else if 15 < length mask_text then None
           else
             let inet_ip = hcore_inet_addr ip_text in
             if inet_ip = INADDR_NONE then None
             else if length mask_text = 15 \<and> mask_text = bytes ''255.255.255.255'' then Some (inet_ip, -1)
             else
               let inet_mask = hcore_inet_addr mask_text in
               if inet_mask = INADDR_NONE then None
               else if hcore_check_mask [byte_at inet_mask 0, byte_at inet_mask 1, byte_at inet_mask 2,
                         byte_at inet_mask 3] \<noteq> HCORE_OK then None
               else Some (inet_ip, inet_mask)))"

subsection \<open>MAC addresses\<close>

text \<open>hcore_hextoi on the two bytes at the start of what is left of the object: it reads the second
  only when the first is a digit.\<close>

definition hextoi_two :: "byte list \<Rightarrow> int run" where
  "hextoi_two p =
     (case p of
        [] \<Rightarrow> Fault
      | [a] \<Rightarrow> if hcore_hextoi [a] = HCORE_ERROR then Ret HCORE_ERROR else Fault
      | a # b # _ \<Rightarrow> Ret (hcore_hextoi [a, b]))"

text \<open>The loop over \<open>p\<close>, with \<open>n\<close> for \<open>last - p\<close> (negative when two bytes were taken where one
  was left) and \<open>i\<close> the number of bytes of \<open>mac\<close> written.\<close>

function parse_mac_loop :: "byte list \<Rightarrow> int \<Rightarrow> bool \<Rightarrow> nat \<Rightarrow> byte list \<Rightarrow> (int \<times> byte list) run" where
  "parse_mac_loop p n sep i mac =
     (if n \<le> 0 then Ret (if i \<noteq> 6 then HCORE_ERROR else HCORE_OK, mac)
      else if i = 6 then Ret (HCORE_ERROR, mac)
      else if sep then
        (case p of [] \<Rightarrow> Fault
         | c # p \<Rightarrow> if c = 58 \<or> c = 45 then parse_mac_loop p (n - 1) False i mac
                   else Ret (HCORE_ERROR, mac))
      else
        bind_run (hextoi_two p) (\<lambda>v.
          if v = HCORE_ERROR then Ret (HCORE_ERROR, mac)
          else parse_mac_loop (drop 2 p) (n - 2) True (Suc i) (mac[i := word_of_int v])))"
  by pat_completeness auto
termination by (relation "measure (\<lambda>(p, n, sep, i, mac). nat n)") auto

definition hcore_parse_mac :: "byte list \<Rightarrow> nat \<Rightarrow> byte list \<Rightarrow> (int \<times> byte list) run" where
  "hcore_parse_mac data len mac = parse_mac_loop data (int len) False 0 mac"

definition hcore_parse_mac_and_mask :: "byte list \<Rightarrow> byte list \<Rightarrow> byte list \<Rightarrow> (int \<times> byte list \<times> byte list) run" where
  "hcore_parse_mac_and_mask mac msk data =
     (case hcore_strlchr data 47 0 of
        None \<Rightarrow> Ret (HCORE_ERROR, mac, msk)
      | Some k \<Rightarrow>
          (let mask_text = drop (Suc k) data in
           if k \<noteq> 17 then Ret (HCORE_ERROR, mac, msk)
           else if length mask_text \<noteq> 17 then Ret (HCORE_ERROR, mac, msk)
           else
             bind_run (hcore_parse_mac data k mac) (\<lambda>(r, mac).
               if r \<noteq> HCORE_OK then Ret (HCORE_ERROR, mac, msk)
               else bind_run (hcore_parse_mac mask_text (length mask_text) msk) (\<lambda>(r, msk).
                 if r \<noteq> HCORE_OK then Ret (HCORE_ERROR, mac, msk)
                 else if hcore_check_mask msk \<noteq> HCORE_OK then Ret (HCORE_ERROR, mac, msk)
                 else Ret (HCORE_OK, mac, msk)))))"

subsection \<open>What the printers print, the parsers read\<close>

lemma mask_bits_skipped: "check_mask_bits b 7 s = Some s"
  by (cases s) simp

lemma check_mask_accepts: "hcore_check_mask bs = HCORE_OK"
proof -
  have "check_mask_loop bs s = HCORE_OK" for s by (induction bs arbitrary: s) (simp_all add: mask_bits_skipped)
  then show ?thesis by (simp add: hcore_check_mask_def)
qed

lemma digits_chars:
  assumes "0 \<le> n" and "c \<in> set (num_digits n 0)"
  shows "is_digit c"
proof -
  have "value_of dec_digit 10 v cs = Some r \<Longrightarrow> c \<in> set cs \<Longrightarrow> is_digit c" for v cs r
    by (induction cs arbitrary: v) (auto simp: dec_digit_def split: option.splits if_splits)
  then show ?thesis using num_digits_value(1) [OF assms(1)] assms(2) by blast
qed

lemma dotted_chars: "c \<in> set (dotted a0 a1 a2 a3) \<Longrightarrow> is_digit c \<or> c = 46"
  using digits_chars uint_byte(1) by (auto simp: dotted_def)

lemma dotted_not: "\<not> is_digit c \<Longrightarrow> c \<noteq> 46 \<Longrightarrow> c \<notin> set (dotted a0 a1 a2 a3)"
  using dotted_chars by blast

lemma dotted_no:
  "58 \<notin> set (dotted a0 a1 a2 a3)" "47 \<notin> set (dotted a0 a1 a2 a3)" "42 \<notin> set (dotted a0 a1 a2 a3)"
  "117 \<notin> set (dotted a0 a1 a2 a3)" "dotted a0 a1 a2 a3 \<noteq> []"
  by (rule dotted_not; simp add: is_digit_def)+ (simp add: dotted_def)

lemma digits_length:
  "0 \<le> n \<Longrightarrow> n < 1000 \<Longrightarrow> length (num_digits n 0) \<le> 3"
  "0 \<le> n \<Longrightarrow> n < 100000 \<Longrightarrow> length (num_digits n 0) \<le> 5"
  by (simp_all add: num_digits_ref num_base_def num_ref_length nat_less_iff)

lemma dotted_length: "length (dotted a0 a1 a2 a3) \<le> 15"
proof -
  have "length (num_digits (uint x) 0) \<le> 3" for x :: byte
    using digits_length(1) uint_byte [of x] by simp
  from this [of a0] this [of a1] this [of a2] this [of a3] show ?thesis by (simp add: dotted_def)
qed

lemma strlchr_found: "c \<notin> set xs \<Longrightarrow> hcore_strlchr (xs @ c # ys) c 0 = Some (length xs)"
proof -
  assume "c \<notin> set xs"
  then have "takeWhile (\<lambda>x. x \<noteq> c) (xs @ c # ys) = xs" by (induction xs) auto
  then show ?thesis by (simp add: strlchr_first)
qed

lemma all_ones_text: "dotted 255 255 255 255 = bytes ''255.255.255.255''"
proof -
  have "num_digits 255 0 = [50, 53, 53]" by (simp add: num_digits_def dec_loop.simps u32_id)
  then show ?thesis by (simp add: dotted_def bytes_def of_char_def)
qed

lemma all_ones_word: "of_memory 255 255 255 255 = INADDR_NONE"
  by (rule bit_word_eqI) (auto simp: of_memory_def)

lemma of_memory_all_ones:
  assumes "of_memory a b c d = INADDR_NONE"
  shows "a = 255 \<and> b = 255 \<and> c = 255 \<and> d = 255"
proof -
  have "of_memory a b c d = of_memory 255 255 255 255" using assms all_ones_word by simp
  then show ?thesis by (metis byte_at_of_memory)
qed

lemma dotted_all_ones:
  "of_memory m0 m1 m2 m3 = INADDR_NONE \<longleftrightarrow> dotted m0 m1 m2 m3 = bytes ''255.255.255.255''"
  by (metis all_ones_text all_ones_word of_memory_all_ones inet_addr_dotted)



text \<open>Steps of the formatter on the formats used above.\<close>

lemma vslprintf_plain:
  "c \<noteq> 0 \<Longrightarrow> c \<noteq> 37 \<Longrightarrow> length buf < cap \<Longrightarrow>
   hcore_vslprintf ops cap buf (c # fmt) args = hcore_vslprintf ops cap (buf @ [c]) fmt args"
  by (simp add: hcore_vslprintf.simps [of _ _ _ "c # fmt"])

lemma vslprintf_stop: "hcore_vslprintf ops cap buf [0] args = Ret buf"
  by (simp add: hcore_vslprintf.simps [of _ _ _ "[0]"])

lemma sprintf_num_fits:
  "length buf + length (num_digits n h) \<le> cap \<Longrightarrow> hcore_sprintf_num cap buf n z h 0 = buf @ num_digits n h"
  by (simp add: hcore_sprintf_num_def Let_def)

lemma vslprintf_ud:
  assumes "0 \<le> n" "n < 4294967296" "length buf < cap" "length buf + length (num_digits n 0) \<le> cap"
  shows "hcore_vslprintf ops cap buf (37 # 117 # 100 # fmt) (VInt n # args)
    = hcore_vslprintf ops cap (buf @ num_digits n 0) fmt args"
  using assms
  by (simp add: hcore_vslprintf.simps [of _ _ _ "37 # 117 # 100 # fmt"] conversion_def is_digit_def convert_def
      conv_text_def conv_int_def fspec_init_def put_number_def u32_id sprintf_num_fits)

lemma vslprintf_d:
  assumes "0 \<le> n" "n \<le> 2147483647" "length buf < cap" "length buf + length (num_digits n 0) \<le> cap"
  shows "hcore_vslprintf ops cap buf (37 # 100 # fmt) (VInt n # args)
    = hcore_vslprintf ops cap (buf @ num_digits n 0) fmt args"
  using assms
  by (simp add: hcore_vslprintf.simps [of _ _ _ "37 # 100 # fmt"] conversion_def is_digit_def convert_def
      conv_text_def conv_int_def fspec_init_def put_number_def i32_id u64_id sprintf_num_fits)

lemma uint_port: "0 \<le> uint (p :: 16 word)" "uint (p :: 16 word) \<le> 65535"
  using uint_lt2p [of p] by simp_all

definition host_port :: "sockaddr_in \<Rightarrow> byte list" where
  "host_port sin = dotted (byte_at (sin_addr sin) 0) (byte_at (sin_addr sin) 1) (byte_at (sin_addr sin) 2)
     (byte_at (sin_addr sin) 3) @ 58 # num_digits (uint (htons (sin_port sin))) 0"

lemma sock_ntop_inet:
  assumes "21 \<le> cap"
  shows "hcore_sock_ntop ops ntop (Sockaddr_in sin) socklen cap = Ret (host_port sin, int (length (host_port sin)))"
proof -
  have fmt: "bytes ''%ud.%ud.%ud.%ud:%d'' @ [0] = [37, 117, 100, 46, 37, 117, 100, 46, 37, 117, 100, 46,
      37, 117, 100, 58, 37, 100, 0]" by (simp add: bytes_def of_char_def)
  have l3: "length (num_digits (uint x) 0) \<le> 3" for x :: byte
    using digits_length(1) uint_byte [of x] by simp
  have l5: "length (num_digits (uint (htons (sin_port sin))) 0) \<le> 5"
    using digits_length(2) uint_port [of "htons (sin_port sin)"] by simp
  note len = l3 [of "byte_at (sin_addr sin) 0"] l3 [of "byte_at (sin_addr sin) 1"]
    l3 [of "byte_at (sin_addr sin) 2"] l3 [of "byte_at (sin_addr sin) 3"] l5
  have u: "uint x < 4294967296" for x :: byte using uint_byte [of x] by simp
  have p: "uint (htons (sin_port sin)) \<le> 2147483647" using uint_port [of "htons (sin_port sin)"] by simp
  show ?thesis
    using len assms u p
    by (simp add: hcore_sock_ntop_def hcore_snprintf_def fmt vslprintf_ud vslprintf_plain vslprintf_d
        vslprintf_stop host_port_def dotted_def)
qed

lemma atoi_digits: "0 \<le> n \<Longrightarrow> n \<le> 2147483647 \<Longrightarrow> hcore_atoi (num_digits n 0) = n"
  using num_digits_value(1) [of n] num_digits_length(2) [of n 0]
  by (simp add: atoi_spec reader_spec_def)

lemma not_unix: "\<not> is_digit 117 \<and> (take 5 (dotted a b c d @ r) \<noteq> bytes ''unix:'')"
proof -
  have "hd (dotted a b c d) \<noteq> 117" using dotted_no(4,5) hd_in_set by metis
  then have "hd (take 5 (dotted a b c d @ r)) \<noteq> 117" using dotted_no(5) by (cases "dotted a b c d") auto
  then show ?thesis by (auto simp: bytes_def of_char_def is_digit_def)
qed

lemma parse_url_host_addr:
  assumes "a \<noteq> []" "a \<noteq> [42]" "hcore_inet_addr a \<noteq> INADDR_NONE"
  shows "parse_url_host a url
    = (HCORE_OK, (url_set_addr (hcore_inet_addr a) (url\<lparr>url_host := a\<rparr>))\<lparr>url_err := None\<rparr>)"
proof -
  have "\<not> (length a = 1 \<and> hd a = 42)" using assms(1,2) by (cases a) auto
  then have star: "(length a = 1 \<and> hd a = 42) = False" by blast
  show ?thesis using assms(1,3)
    unfolding parse_url_host_def Let_def url_set_addr_def star by simp
qed

lemma host_text: "dotted a b c d \<noteq> [42]"
  using dotted_no(3) by (metis list.set_intros(1))

text \<open>C33: what hcore_sock_ntop prints for an IPv4 address and port, hcore_parse_url reads back into the
  same socket address: two components of different files agree on the text format. The two
  exceptions are port 0 and the address 255.255.255.255, which the reader uses as its error value.\<close>

theorem url_roundtrip:
  assumes "21 \<le> cap" and "sin_family sin = AF_INET" and "sin_port sin \<noteq> 0" and "sin_addr sin \<noteq> INADDR_NONE"
  shows "\<exists>t. hcore_sock_ntop ops ntop (Sockaddr_in sin) socklen cap = Ret (t, int (length t))
    \<and> fst (hcore_parse_url t url) = HCORE_OK
    \<and> url_sockaddr (snd (hcore_parse_url t url)) = sin
    \<and> url_port (snd (hcore_parse_url t url)) = uint (htons (sin_port sin))"
proof -
  define a where "a = dotted (byte_at (sin_addr sin) 0) (byte_at (sin_addr sin) 1) (byte_at (sin_addr sin) 2)
     (byte_at (sin_addr sin) 3)"
  define n where "n = uint (htons (sin_port sin))"
  have "htons (sin_port sin) \<noteq> 0"
  proof
    assume "htons (sin_port sin) = 0"
    then have "sin_port sin = htons 0" by (metis htons_htons)
    then show False using assms(3) by (simp add: htons_def)
  qed
  then have "n \<noteq> 0" unfolding n_def by (metis uint_0_iff)
  then have n: "1 \<le> n" "n \<le> 65535" using uint_port [of "htons (sin_port sin)"] unfolding n_def by linarith+
  have shown: "host_port sin = a @ 58 # num_digits n 0" by (simp add: host_port_def a_def n_def)
  have "hcore_inet_addr a = sin_addr sin" unfolding a_def inet_addr_dotted by (rule of_memory_byte_at)
  moreover have "word_of_int n = htons (sin_port sin)" by (simp add: n_def)
  moreover have "hcore_strlchr (a @ 58 # num_digits n 0) 58 0 = Some (length a)"
    unfolding a_def by (rule strlchr_found [OF dotted_no(1)])
  moreover have "a \<noteq> []" "a \<noteq> [42]" "take 5 (a @ 58 # num_digits n 0) \<noteq> bytes ''unix:''"
    using dotted_no(5) host_text not_unix by (simp_all add: a_def)
  ultimately have "fst (hcore_parse_url (host_port sin) url) = HCORE_OK
    \<and> url_sockaddr (snd (hcore_parse_url (host_port sin) url)) = sin
    \<and> url_port (snd (hcore_parse_url (host_port sin) url)) = n"
    using assms(2,4) n
    by (simp add: shown hcore_parse_url_def hcore_parse_inet_sock_def atoi_digits parse_url_host_addr
        url_set_port_def url_set_addr_def Let_def)
  then show ?thesis using sock_ntop_inet [OF assms(1)]
    by (intro exI [of _ "host_port sin"]) (simp add: n_def)
qed

theorem url_roundtrip_witness:
  "\<forall>url. \<exists>t. hcore_sock_ntop whole_ops (\<lambda>_. None)
      (Sockaddr_in \<lparr>sin_family = 2, sin_port = 0x5000, sin_addr = 0x0100007f\<rparr>) 16 64 = Ret (t, int (length t))
    \<and> fst (hcore_parse_url t url) = HCORE_OK"
proof
  fix url
  show "\<exists>t. hcore_sock_ntop whole_ops (\<lambda>_. None)
      (Sockaddr_in \<lparr>sin_family = 2, sin_port = 0x5000, sin_addr = 0x0100007f\<rparr>) 16 64 = Ret (t, int (length t))
    \<and> fst (hcore_parse_url t url) = HCORE_OK"
    using url_roundtrip [of 64 "\<lparr>sin_family = 2, sin_port = 0x5000, sin_addr = 0x0100007f\<rparr>" whole_ops
        "\<lambda>_. None" 16 url] by auto
qed

text \<open>C34: a port range is read exactly when both numbers are ports in order, and then both limits are
  the numbers written; a single port is a range of one.\<close>

theorem port_range_correct:
  assumes "0 \<le> b" "b \<le> 2147483647" "0 \<le> e" "e \<le> 2147483647"
  shows "hcore_parse_port_range (num_digits b 0 @ 45 # num_digits e 0) =
      (if 1 \<le> b \<and> b \<le> e \<and> e \<le> 65535 then Some (b, e) else None)
    \<and> hcore_parse_port_range (num_digits b 0) = (if 1 \<le> b \<and> b \<le> 65535 then Some (b, b) else None)
    \<and> (hcore_parse_port_range data = Some (b', e') \<longrightarrow> 1 \<le> b' \<and> b' \<le> e' \<and> e' \<le> 65535)"
proof -
  have no: "45 \<notin> set (num_digits b 0)" using digits_chars [OF assms(1), of 45] by (auto simp: is_digit_def)
  then have none: "hcore_strlchr (num_digits b 0) 45 0 = None" by (simp add: strlchr_first)
  show ?thesis
    using strlchr_found [OF no, of "num_digits e 0"] none atoi_digits assms
    by (auto simp: hcore_parse_port_range_def Let_def split: if_splits option.splits)
qed

theorem port_range_correct_witness:
  "hcore_parse_port_range (num_digits 5000 0 @ 45 # num_digits 5010 0) = Some (5000, 5010)"
  using port_range_correct [of 5000 5010 "[]" 1 1] by simp

text \<open>The text of a MAC address: two hexadecimal characters per byte and a separator between.\<close>

fun mac_text :: "byte list \<Rightarrow> byte list \<Rightarrow> byte list" where
  "mac_text [] ss = []"
| "mac_text (b # bs) [] = hcore_hex_dump [b]"
| "mac_text (b # bs) (s # ss) = hcore_hex_dump [b] @ s # mac_text bs ss"

lemma hextoi_two_dump: "hextoi_two (hcore_hex_dump [b] @ rest) = Ret (uint b)"
  using hex_dump_value [of 0 "[b]"] uint_byte [of b]
  by (simp add: hextoi_two_def hextoi_spec reader_spec_def)

lemma uint_not_minus: "uint (b::byte) \<noteq> -1"
  using uint_byte(1) [of b] by linarith

lemma parse_mac_loop_text:
  assumes "length bs + i = 6" "length ss + 1 = length bs" "set ss \<subseteq> {58, 45}" "length mac = 6"
  shows "parse_mac_loop (mac_text bs ss @ rest) (3 * int (length bs) - 1) False i mac
    = Ret (HCORE_OK, take i mac @ bs)"
  using assms
proof (induction bs ss arbitrary: i mac rule: mac_text.induct)
  case (2 b bs)
  then have i: "i = 5" "bs = []" by auto
  have "take 5 mac @ [b] = mac[5 := b]" using 2(4) by (simp add: upd_conv_take_nth_drop)
  then show ?case
    using i hextoi_two_dump [of b rest] uint_byte [of b] uint_not_minus
    by (subst parse_mac_loop.simps) (simp add: parse_mac_loop.simps [of _ 0])
next
  case (3 b bs s ss)
  have IH: "parse_mac_loop (mac_text bs ss @ rest) (3 * int (length bs) - 1) False (Suc i) (mac[i := b])
    = Ret (0, take (Suc i) (mac[i := b]) @ bs)"
    using 3 by (intro "3.IH") auto
  have "take (Suc i) (mac[i := b]) = take i mac @ [b]" using 3 by (simp add: take_Suc_conv_app_nth)
  moreover have "parse_mac_loop (mac_text (b # bs) (s # ss) @ rest) (3 * int (length (b # bs)) - 1) False i mac
    = parse_mac_loop (s # mac_text bs ss @ rest) (3 * int (length bs)) True (Suc i) (mac[i := b])"
    using 3(2-) uint_not_minus hextoi_two_dump [of b "s # mac_text bs ss @ rest"]
    by (subst parse_mac_loop.simps) simp
  moreover have "\<dots> = parse_mac_loop (mac_text bs ss @ rest) (3 * int (length bs) - 1) False (Suc i) (mac[i := b])"
    using 3(2-) by (subst parse_mac_loop.simps) auto
  ultimately show ?case using IH by simp
qed simp

text \<open>C35: hcore_parse_mac reads the text of any six bytes back, whatever colons and dashes separate
  them, and touches nothing behind the 17 characters.\<close>

theorem mac_roundtrip:
  assumes "length bs = 6" "length ss = 5" "set ss \<subseteq> {58, 45}" "length mac = 6"
  shows "length (mac_text bs ss) = 17 \<and> hcore_parse_mac (mac_text bs ss @ rest) 17 mac = Ret (HCORE_OK, bs)"
proof -
  have "length ss + 1 = length bs \<Longrightarrow> length (mac_text bs ss) = 3 * length bs - 1" for bs ss
    by (induction bs ss rule: mac_text.induct) auto
  then show ?thesis using assms parse_mac_loop_text [of bs 0 ss mac rest] by (simp add: hcore_parse_mac_def)
qed

theorem mac_roundtrip_witness:
  "hcore_parse_mac (mac_text [0, 0x1b, 0x44, 0x11, 0x3a, 0xb7] [58, 58, 45, 45, 58] @ [7]) 17 [0, 0, 0, 0, 0, 0]
     = Ret (HCORE_OK, [0, 0x1b, 0x44, 0x11, 0x3a, 0xb7])"
  using mac_roundtrip [of "[0, 0x1b, 0x44, 0x11, 0x3a, 0xb7]" "[58, 58, 45, 45, 58]" "[0, 0, 0, 0, 0, 0]" "[7]"]
  by simp

end
