(* ===== verification/HList.thy ===== *)
theory HList
  imports HArray HOrder
begin

section \<open>The pointer list (src/hcore_list.c, include/hcore_list.h)\<close>

text \<open>
  A list is a growing block of item pointers, kept in the order of a callback as long as only
  hcore_list_insert adds to it. The block comes from a pool or, without one, from malloc; its
  words are \<open>l_vec\<close>, one per reserved item, and \<open>l_p\<close> is its address or \<open>None\<close> for NULL.
  Reading or writing through a null block or outside it is \<open>Fault\<close>. The callback gets pointers
  to two items and is modelled on the items; it is an argument, because what it compares is the
  memory the items point to. qsort and bsearch of the C library are the fields of a record, and
  the locale \<open>sort_library\<close> states what their manual promises. The items are below 2^30 in
  number, so the indices fit \<open>int\<close>. A null list argument returns before anything else and has
  no model.
\<close>

subsection \<open>State and storage\<close>

record 'a hlist =
  l_pool :: bool
  l_num :: int
  l_reserved :: int
  l_p :: "int option"
  l_vec :: "'a list"
  l_sorted :: bool

record 'a sortlib =
  c_qsort :: "('a \<Rightarrow> 'a \<Rightarrow> int) \<Rightarrow> 'a list \<Rightarrow> 'a list"
  c_bsearch :: "('a \<Rightarrow> 'a \<Rightarrow> int) \<Rightarrow> 'a \<Rightarrow> 'a list \<Rightarrow> 'a option"

abbreviation (input) HCORE_LIST_INIT_NUM_RESERVED :: int where "HCORE_LIST_INIT_NUM_RESERVED \<equiv> 32"

abbreviation (input) sizeof_hcore_list_t :: int where "sizeof_hcore_list_t \<equiv> 40"

definition hcore_list_alloc :: "bool \<Rightarrow> int \<Rightarrow> pstate \<Rightarrow> int option \<times> pstate" where
  "hcore_list_alloc pool sz s =
     (if pool then (case hcore_palloc (fst s) sz (snd s) of (r, p, e) \<Rightarrow> (r, p, e))
      else (case hcore_malloc sz (snd s) of (r, e) \<Rightarrow> (r, fst s, e)))"

definition hcore_list_realloc :: "bool \<Rightarrow> int option \<Rightarrow> int \<Rightarrow> int \<Rightarrow> pstate \<Rightarrow> int option \<times> pstate" where
  "hcore_list_realloc pool p old_size new_size s =
     (if pool then (case hcore_prealloc (fst s) p old_size new_size (snd s) of (r, q, e) \<Rightarrow> (r, q, e))
      else (case next_answer (snd s) of (r, e) \<Rightarrow> (r, fst s, e)))"

text \<open>The block moved to the memory realloc gives it: the words that fit are kept, and the ones
  behind them are whatever the memory holds, here the filler \<open>undefined\<close>.\<close>

definition list_resize :: "int \<Rightarrow> 'a hlist \<Rightarrow> pstate \<Rightarrow> 'a hlist \<times> pstate" where
  "list_resize new_num l s =
     (case hcore_list_realloc (l_pool l) (l_p l) (u64 (8 * l_reserved l)) (u64 (8 * new_num)) s of
        (r, s) \<Rightarrow>
          (l\<lparr>l_reserved := new_num, l_p := r,
             l_vec := take (nat new_num) (l_vec l @ replicate (nat new_num - length (l_vec l)) undefined)\<rparr>, s))"

definition list_read :: "'a hlist \<Rightarrow> int \<Rightarrow> 'a run" where
  "list_read l i = (if l_p l = None \<or> i < 0 \<or> int (length (l_vec l)) \<le> i then Fault else Ret (l_vec l ! nat i))"

definition list_write :: "'a hlist \<Rightarrow> int \<Rightarrow> 'a \<Rightarrow> 'a hlist run" where
  "list_write l i x = (if l_p l = None \<or> i < 0 \<or> int (length (l_vec l)) \<le> i then Fault
     else Ret (l\<lparr>l_vec := (l_vec l)[nat i := x]\<rparr>))"

subsection \<open>Creation and destruction\<close>

text \<open>The test behind the allocation looks at the pool and not at the block: without a pool it
  always fails, with one it never does.\<close>

definition hcore_init_list :: "bool \<Rightarrow> pstate \<Rightarrow> int \<times> 'a hlist \<times> pstate" where
  "hcore_init_list pool s =
     (let l = \<lparr>l_pool = pool, l_num = 0, l_reserved = HCORE_LIST_INIT_NUM_RESERVED, l_p = None,
               l_vec = replicate 32 undefined, l_sorted = False\<rparr> in
      case hcore_list_alloc pool (8 * HCORE_LIST_INIT_NUM_RESERVED) s of
        (r, s) \<Rightarrow>
          if \<not> pool then (HCORE_ERROR, l\<lparr>l_p := r\<rparr>, s)
          else (HCORE_OK, l\<lparr>l_p := r, l_sorted := True\<rparr>, s))"

definition hcore_create_list :: "bool \<Rightarrow> pstate \<Rightarrow> (int \<times> 'a hlist) option \<times> pstate" where
  "hcore_create_list pool s =
     (case hcore_list_alloc pool sizeof_hcore_list_t s of
        (None, s) \<Rightarrow> (None, s)
      | (Some a, s) \<Rightarrow>
          (case hcore_init_list pool s of
             (rc, l, s) \<Rightarrow> if rc \<noteq> HCORE_OK then (None, s) else (Some (a, l), s)))"

definition hcore_deinit_list :: "'a hlist \<Rightarrow> env \<Rightarrow> env" where
  "hcore_deinit_list l e =
     (if \<not> l_pool l then (case l_p l of Some p \<Rightarrow> hcore_free p e | None \<Rightarrow> e) else e)"

definition hcore_destroy_list :: "int \<Rightarrow> 'a hlist \<Rightarrow> env \<Rightarrow> env" where
  "hcore_destroy_list addr l e =
     (let e = hcore_deinit_list l e in if \<not> l_pool l then hcore_free addr e else e)"

subsection \<open>Adding, sorting, inserting\<close>

text \<open>One item more, and twice the block when it is full; the flag says whether it was.\<close>

definition list_make_room :: "'a hlist \<Rightarrow> pstate \<Rightarrow> bool \<times> 'a hlist \<times> pstate" where
  "list_make_room l s =
     (let l = l\<lparr>l_num := u32 (l_num l + 1)\<rparr> in
      if l_reserved l < l_num l then (True, list_resize (u32 (l_reserved l * 2)) l s) else (False, l, s))"

definition hcore_list_add :: "'a hlist \<Rightarrow> 'a option \<Rightarrow> pstate \<Rightarrow> (int \<times> 'a hlist \<times> pstate) run" where
  "hcore_list_add l p s =
     (case p of
        None \<Rightarrow> Ret (HCORE_ERROR, l, s)
      | Some x \<Rightarrow>
          (let i = l_num l; (full, l, s) = list_make_room l s
           in if full \<and> l_p l = None then Ret (HCORE_ERROR, l, s)
              else bind_run (list_write l i x) (\<lambda>l. Ret (HCORE_OK, l\<lparr>l_sorted := False\<rparr>, s))))"

definition hcore_list_sort :: "'a sortlib \<Rightarrow> ('a \<Rightarrow> 'a \<Rightarrow> int) option \<Rightarrow> 'a hlist \<Rightarrow> 'a hlist" where
  "hcore_list_sort lib cmp l =
     (case cmp of
        None \<Rightarrow> l
      | Some c \<Rightarrow>
          l\<lparr>l_vec := c_qsort lib c (take (nat (l_num l)) (l_vec l)) @ drop (nat (l_num l)) (l_vec l),
            l_sorted := True\<rparr>)"

text \<open>The binary search of hcore_list_insert: the position of an equal item, or \<open>low\<close>.\<close>

function list_position :: "('a \<Rightarrow> 'a \<Rightarrow> int) \<Rightarrow> 'a hlist \<Rightarrow> 'a \<Rightarrow> int \<Rightarrow> int \<Rightarrow> int run" where
  "list_position cmp l x low high =
     (if low \<le> high then
        (let middle = (low + high) div 2 in
         bind_run (list_read l middle) (\<lambda>y.
           if cmp y x = 0 then Ret middle
           else if 0 < cmp y x then list_position cmp l x low (middle - 1)
           else list_position cmp l x (middle + 1) high))
      else Ret low)"
  by pat_completeness auto
termination
  by (relation "measure (\<lambda>(cmp, l, x, low, high). nat (high - low + 1))") (auto simp: Let_def)

text \<open>\<open>for (i = num - 2; i >= pos; i--) p[i + 1] = p[i]\<close>\<close>

function list_shift_up :: "'a hlist \<Rightarrow> int \<Rightarrow> int \<Rightarrow> 'a hlist run" where
  "list_shift_up l i pos =
     (if pos \<le> i
      then bind_run (list_read l i) (\<lambda>y. bind_run (list_write l (i + 1) y) (\<lambda>l. list_shift_up l (i - 1) pos))
      else Ret l)"
  by pat_completeness auto
termination by (relation "measure (\<lambda>(l, i, pos). nat (i - pos + 1))") auto

declare list_position.simps [simp del] list_shift_up.simps [simp del]

definition hcore_list_insert ::
  "'a sortlib \<Rightarrow> ('a \<Rightarrow> 'a \<Rightarrow> int) option \<Rightarrow> 'a hlist \<Rightarrow> 'a option \<Rightarrow> pstate \<Rightarrow> (int \<times> 'a hlist \<times> pstate) run" where
  "hcore_list_insert lib cmp l p s =
     (case p of
        None \<Rightarrow> Ret (HCORE_ERROR, l, s)
      | Some x \<Rightarrow>
        (case cmp of
           None \<Rightarrow> bind_run (hcore_list_add l p s) (\<lambda>(rc, l, s). Ret (HCORE_OK, l, s))
         | Some c \<Rightarrow>
             (let l = (if \<not> l_sorted l then hcore_list_sort lib cmp l else l) in
              bind_run (list_position c l x 0 (l_num l - 1)) (\<lambda>pos.
                let (full, l, s) = list_make_room l s
                in bind_run (if 2 \<le> l_num l then list_shift_up l (l_num l - 2) pos else Ret l) (\<lambda>l.
                   bind_run (list_write l pos x) (\<lambda>l. Ret (HCORE_OK, l, s)))))))"

subsection \<open>Deleting and searching\<close>

function list_index :: "'a hlist \<Rightarrow> 'a \<Rightarrow> int \<Rightarrow> int run" where
  "list_index l x i =
     (if i < l_num l
      then bind_run (list_read l i) (\<lambda>y. if y = x then Ret i else list_index l x (i + 1))
      else Ret i)"
  by pat_completeness auto
termination by (relation "measure (\<lambda>(l, x, i). nat (l_num l - i))") auto

text \<open>\<open>for (i = n; i < num - 1; i++) p[i] = p[i + 1]\<close>\<close>

function list_shift_down :: "int \<Rightarrow> int \<Rightarrow> 'a hlist \<Rightarrow> 'a hlist run" where
  "list_shift_down i n l =
     (if i < n
      then bind_run (list_read l (i + 1)) (\<lambda>y. bind_run (list_write l i y) (\<lambda>l. list_shift_down (i + 1) n l))
      else Ret l)"
  by pat_completeness auto
termination by (relation "measure (\<lambda>(i, n, l). nat (n - i))") auto

declare list_index.simps [simp del] list_shift_down.simps [simp del]

definition hcore_list_delete :: "'a hlist \<Rightarrow> 'a option \<Rightarrow> pstate \<Rightarrow> (int \<times> 'a hlist \<times> pstate) run" where
  "hcore_list_delete l p s =
     (case p of
        None \<Rightarrow> Ret (HCORE_ERROR, l, s)
      | Some x \<Rightarrow>
          bind_run (list_index l x 0) (\<lambda>i.
            if i = l_num l then Ret (HCORE_ERROR, l, s)
            else bind_run (list_shift_down i (u32 (l_num l - 1)) l) (\<lambda>l.
              let l = l\<lparr>l_num := u32 (l_num l - 1)\<rparr>;
                  (l, s) = (if u32 (l_num l * 2) \<le> l_reserved l \<and> HCORE_LIST_INIT_NUM_RESERVED * 2 < l_reserved l
                            then list_resize (l_reserved l div 2) l s else (l, s))
              in Ret (HCORE_OK, l, s))))"

definition hcore_list_delete_all :: "'a hlist \<Rightarrow> pstate \<Rightarrow> 'a hlist \<times> pstate" where
  "hcore_list_delete_all l s = list_resize HCORE_LIST_INIT_NUM_RESERVED (l\<lparr>l_num := 0\<rparr>) s"

text \<open>The item found and the list, which the search may have sorted.\<close>

definition hcore_list_search ::
  "'a sortlib \<Rightarrow> ('a \<Rightarrow> 'a \<Rightarrow> int) option \<Rightarrow> 'a hlist \<Rightarrow> 'a option \<Rightarrow> 'a option \<times> 'a hlist" where
  "hcore_list_search lib cmp l target =
     (case (target, cmp) of
        (Some x, Some c) \<Rightarrow>
          (let l = (if \<not> l_sorted l then hcore_list_sort lib cmp l else l) in
           (c_bsearch lib c x (take (nat (l_num l)) (l_vec l)), l))
      | _ \<Rightarrow> (None, l))"

subsection \<open>What the library's sorting and searching promise\<close>

locale sort_library = comparator cmp S
  for cmp :: "'a \<Rightarrow> 'a \<Rightarrow> int" and S :: "'a set" +
  fixes lib :: "'a sortlib"
  assumes qsort_perm: "set xs \<subseteq> S \<Longrightarrow> mset (c_qsort lib cmp xs) = mset xs"
    and qsort_sorted: "set xs \<subseteq> S \<Longrightarrow> sorted_cmp cmp (c_qsort lib cmp xs)"
    and bsearch_some: "set xs \<subseteq> S \<Longrightarrow> x \<in> S \<Longrightarrow> sorted_cmp cmp xs \<Longrightarrow>
      c_bsearch lib cmp x xs = Some y \<Longrightarrow> y \<in> set xs \<and> cmp x y = 0"
    and bsearch_none: "set xs \<subseteq> S \<Longrightarrow> x \<in> S \<Longrightarrow> sorted_cmp cmp xs \<Longrightarrow>
      c_bsearch lib cmp x xs = None \<Longrightarrow> \<forall>y\<in>set xs. cmp x y \<noteq> 0"

text \<open>A library that keeps the promise: sorting by insertion and searching from the left.\<close>

definition ref_sortlib :: "'a sortlib" where
  "ref_sortlib = \<lparr>c_qsort = insertion_sort, c_bsearch = (\<lambda>cmp x xs. find (\<lambda>y. cmp x y = 0) xs)\<rparr>"

lemma ref_sort_library:
  assumes "comparator cmp S"
  shows "sort_library cmp S ref_sortlib"
  using assms comparator.sorted_insertion_sort [OF assms]
  by (auto simp: sort_library_def sort_library_axioms_def ref_sortlib_def find_Some_iff find_None_iff)

subsection \<open>The invariant of a list\<close>

definition list_items :: "'a hlist \<Rightarrow> 'a list" where
  "list_items l = take (nat (l_num l)) (l_vec l)"

definition list_ok :: "'a hlist \<Rightarrow> bool" where
  "list_ok l \<longleftrightarrow> l_p l \<noteq> None \<and> 0 \<le> l_num l \<and> l_num l \<le> l_reserved l
     \<and> l_reserved l = int (length (l_vec l)) \<and> 32 \<le> l_reserved l \<and> l_reserved l < 1073741824"

text \<open>The block is large enough for one more item, or the memory for a larger one is there.\<close>

definition list_can_grow :: "'a hlist \<Rightarrow> pstate \<Rightarrow> bool" where
  "list_can_grow l s \<longleftrightarrow> l_num l < l_reserved l
     \<or> l_reserved l < 536870912 \<and> l_p (fst (list_resize (u32 (l_reserved l * 2)) l s)) \<noteq> None"

lemma list_items_length [simp]: "list_ok l \<Longrightarrow> int (length (list_items l)) = l_num l"
  by (auto simp: list_ok_def list_items_def min_def)

lemma list_read_in: "l_p l \<noteq> None \<Longrightarrow> k < length (l_vec l) \<Longrightarrow> list_read l (int k) = Ret (l_vec l ! k)"
  by (simp add: list_read_def)

lemma list_write_in:
  "l_p l \<noteq> None \<Longrightarrow> k < length (l_vec l) \<Longrightarrow> list_write l (int k) x = Ret (l\<lparr>l_vec := (l_vec l)[k := x]\<rparr>)"
  by (simp add: list_write_def)

lemma list_read_item:
  assumes "list_ok l" "0 \<le> i" "i < l_num l"
  shows "list_read l i = Ret (list_items l ! nat i)"
  using assms by (simp add: list_read_def list_items_def list_ok_def)

lemma list_resize_words:
  "list_resize n l s = (l', s') \<Longrightarrow> l_num l' = l_num l \<and> l_reserved l' = n
     \<and> length (l_vec l') = min (nat n) (length (l_vec l) + (nat n - length (l_vec l)))
     \<and> (\<forall>k < min (nat n) (length (l_vec l)). l_vec l' ! k = l_vec l ! k) \<and> l_sorted l' = l_sorted l
     \<and> l_pool l' = l_pool l"
  by (auto simp: list_resize_def nth_append split: prod.splits)

text \<open>Growing keeps the items.\<close>

lemma list_grow_ok:
  assumes "list_ok l" and "list_can_grow l s"
    and run: "list_make_room l s = (full, l', s')"
  shows "list_ok l'" and "l_num l' = l_num l + 1" and "l_sorted l' = l_sorted l"
    and "take (nat (l_num l)) (l_vec l') = list_items l" and "l_p l' \<noteq> None"
proof -
  have num: "u32 (l_num l + 1) = l_num l + 1" using assms(1) by (simp add: list_ok_def u32_id)
  have "list_ok l' \<and> l_num l' = l_num l + 1 \<and> l_sorted l' = l_sorted l
      \<and> take (nat (l_num l)) (l_vec l') = list_items l"
  proof (cases "l_num l < l_reserved l")
    case True
    then show ?thesis using assms(1) run num by (auto simp: list_make_room_def list_ok_def list_items_def)
  next
    case False
    then have big: "l_reserved l < 536870912" "l_p (fst (list_resize (u32 (l_reserved l * 2)) l s)) \<noteq> None"
      using assms(2) by (auto simp: list_can_grow_def)
    have two: "u32 (l_reserved l * 2) = l_reserved l * 2" using big assms(1) by (simp add: list_ok_def u32_id)
    have run': "list_resize (l_reserved l * 2) (l\<lparr>l_num := l_num l + 1\<rparr>) s = (l', s')"
      using run num two False assms(1) by (simp add: list_make_room_def list_ok_def)
    have "l_p l' = l_p (fst (list_resize (l_reserved l * 2) l s))"
      using run' by (auto simp: list_resize_def split: prod.splits)
    then have "l_p l' \<noteq> None" using big(2) two by simp
    moreover note w = list_resize_words [OF run']
    moreover have "take (nat (l_num l)) (l_vec l') = list_items l"
      using w assms(1) by (intro nth_equalityI) (auto simp: list_items_def list_ok_def)
    ultimately show ?thesis using assms(1) False big by (auto simp: list_ok_def)
  qed
  then show "list_ok l'" and "l_num l' = l_num l + 1" and "l_sorted l' = l_sorted l"
    and "take (nat (l_num l)) (l_vec l') = list_items l" and "l_p l' \<noteq> None"
    by (auto simp: list_ok_def)
qed

subsection \<open>The loops\<close>

lemma list_shift_up_spec:
  assumes "l_p l \<noteq> None" "0 \<le> pos" "i + 1 < int (length (l_vec l))"
  shows "\<exists>w. list_shift_up l i pos = Ret (l\<lparr>l_vec := w\<rparr>) \<and> length w = length (l_vec l)
    \<and> (\<forall>k < length (l_vec l). w ! k = (if pos < int k \<and> int k \<le> i + 1 then l_vec l ! (k - 1) else l_vec l ! k))"
  using assms
proof (induction l i pos rule: list_shift_up.induct)
  case (1 l i pos)
  show ?case
  proof (cases "pos \<le> i")
    case False
    then show ?thesis by (intro exI [of _ "l_vec l"]) (auto simp: list_shift_up.simps [of l])
  next
    case True
    define v where "v = (l_vec l)[nat (i + 1) := l_vec l ! nat i]"
    have rd: "list_read l i = Ret (l_vec l ! nat i)"
      and wr: "list_write l (i + 1) (l_vec l ! nat i) = Ret (l\<lparr>l_vec := v\<rparr>)"
      using 1(2-) True by (simp_all add: list_read_def list_write_def v_def)
    obtain w where w: "list_shift_up (l\<lparr>l_vec := v\<rparr>) (i - 1) pos = Ret (l\<lparr>l_vec := v\<rparr>\<lparr>l_vec := w\<rparr>)"
      "length w = length v" "\<forall>k < length v. w ! k = (if pos < int k \<and> int k \<le> i then v ! (k - 1) else v ! k)"
      using 1(1) [OF True, of "l\<lparr>l_vec := v\<rparr>"] 1(2-) by (auto simp: v_def)
    have "list_shift_up l i pos = Ret (l\<lparr>l_vec := w\<rparr>)"
      using True rd wr w(1) by (simp add: list_shift_up.simps [of l])
    moreover have "w ! k = (if pos < int k \<and> int k \<le> i + 1 then l_vec l ! (k - 1) else l_vec l ! k)"
      if k: "k < length (l_vec l)" for k
    proof (cases "int k = i + 1")
      case eq: True
      then have "k = nat (i + 1)" "nat i = k - 1" by auto
      then show ?thesis using w k True eq 1(3) by (simp add: v_def)
    next
      case False
      then have "k \<noteq> nat (i + 1)" "\<And>j. j \<le> k \<Longrightarrow> int k \<le> i \<Longrightarrow> j \<noteq> nat (i + 1)" using 1(3) True by auto
      then show ?thesis using w(3) k False by (auto simp: v_def)
    qed
    ultimately show ?thesis using w(2) by (intro exI [of _ w]) (auto simp: v_def)
  qed
qed

lemma list_shift_down_spec:
  assumes "l_p l \<noteq> None" "0 \<le> i" "n < int (length (l_vec l))"
  shows "\<exists>w. list_shift_down i n l = Ret (l\<lparr>l_vec := w\<rparr>) \<and> length w = length (l_vec l)
    \<and> (\<forall>k < length (l_vec l). w ! k = (if i \<le> int k \<and> int k < n then l_vec l ! Suc k else l_vec l ! k))"
  using assms
proof (induction i n l rule: list_shift_down.induct)
  case (1 i n l)
  show ?case
  proof (cases "i < n")
    case False
    then show ?thesis by (intro exI [of _ "l_vec l"]) (auto simp: list_shift_down.simps [of i])
  next
    case True
    define v where "v = (l_vec l)[nat i := l_vec l ! nat (i + 1)]"
    have rd: "list_read l (i + 1) = Ret (l_vec l ! nat (i + 1))"
      and wr: "list_write l i (l_vec l ! nat (i + 1)) = Ret (l\<lparr>l_vec := v\<rparr>)"
      using 1(2-) True by (simp_all add: list_read_def list_write_def v_def)
    obtain w where w: "list_shift_down (i + 1) n (l\<lparr>l_vec := v\<rparr>) = Ret (l\<lparr>l_vec := v\<rparr>\<lparr>l_vec := w\<rparr>)"
      "length w = length v" "\<forall>k < length v. w ! k = (if i + 1 \<le> int k \<and> int k < n then v ! Suc k else v ! k)"
      using 1(1) [OF True, of "l\<lparr>l_vec := v\<rparr>"] 1(2-) by (auto simp: v_def)
    have "list_shift_down i n l = Ret (l\<lparr>l_vec := w\<rparr>)"
      using True rd wr w(1) by (simp add: list_shift_down.simps [of i])
    moreover have "w ! k = (if i \<le> int k \<and> int k < n then l_vec l ! Suc k else l_vec l ! k)"
      if k: "k < length (l_vec l)" for k
    proof (cases "int k = i")
      case eq: True
      then have "k = nat i" "nat (i + 1) = Suc k" by auto
      then show ?thesis using w k True eq 1(3) by (simp add: v_def)
    next
      case False
      then have "k \<noteq> nat i" "i \<le> int k \<Longrightarrow> nat i \<noteq> Suc k" using 1(3) True by auto
      then show ?thesis using w(3) k False by (auto simp: v_def)
    qed
    ultimately show ?thesis using w(2) by (intro exI [of _ w]) (auto simp: v_def)
  qed
qed

lemma list_index_spec:
  assumes "list_ok l" "0 \<le> i" "i \<le> l_num l" "x \<notin> set (take (nat i) (list_items l))"
  shows "\<exists>k. list_index l x i = Ret (int k) \<and> k \<le> length (list_items l)
    \<and> x \<notin> set (take k (list_items l)) \<and> (k < length (list_items l) \<longrightarrow> list_items l ! k = x)"
  using assms
proof (induction l x i rule: list_index.induct)
  case (1 l x i)
  show ?case
  proof (cases "i < l_num l")
    case False
    then have "i = int (length (list_items l))" using 1(4) list_items_length [OF 1(2)] by simp
    then show ?thesis using 1(5) False
      by (intro exI [of _ "length (list_items l)"]) (simp add: list_index.simps [of l])
  next
    case True
    note rd = list_read_item [OF 1(2,3) True]
    have ln: "nat i < length (list_items l)" using list_items_length [OF 1(2)] True 1(3) by linarith
    show ?thesis
    proof (cases "list_items l ! nat i = x")
      case hit: True
      then show ?thesis using True rd ln 1(2-)
        by (intro exI [of _ "nat i"]) (simp add: list_index.simps [of l])
    next
      case False
      have "take (nat (i + 1)) (list_items l) = take (nat i) (list_items l) @ [list_items l ! nat i]"
        using ln 1(3) by (simp add: nat_add_distrib take_Suc_conv_app_nth)
      then show ?thesis using 1(1) [OF True False] 1(2-) True rd False
        by (simp add: list_index.simps [of l _ i])
    qed
  qed
qed

context comparator
begin

lemma sorted_nth_le:
  assumes "sorted_cmp cmp xs" "set xs \<subseteq> S" "i \<le> j" "j < length xs"
  shows "cmp (xs ! i) (xs ! j) \<le> 0"
proof (cases "i = j")
  case True
  then show ?thesis using cmp_refl [of "xs ! j"] assms(2,4) nth_mem by fastforce
next
  case False
  then show ?thesis using assms by (simp add: sorted_cmp_def sorted_wrt_iff_nth_less)
qed

lemma sorted_nth_below:
  assumes "sorted_cmp cmp xs" "set xs \<subseteq> S" "x \<in> S" "j < length xs" "cmp (xs ! j) x \<le> 0" "i \<le> j"
  shows "cmp (xs ! i) x \<le> 0"
proof -
  have "xs ! i \<in> S" "xs ! j \<in> S" using assms(2,4,6) nth_mem [of i xs] nth_mem [of j xs] by auto
  then show ?thesis using cmp_trans [of "xs ! i" "xs ! j" x] sorted_nth_le [OF assms(1,2,6,4)] assms(3,5) by blast
qed

lemma sorted_nth_above:
  assumes "sorted_cmp cmp xs" "set xs \<subseteq> S" "x \<in> S" "j < length xs" "cmp x (xs ! i) \<le> 0" "i \<le> j"
  shows "cmp x (xs ! j) \<le> 0"
proof -
  have "xs ! i \<in> S" "xs ! j \<in> S" using assms(2,4,6) nth_mem [of i xs] nth_mem [of j xs] by auto
  then show ?thesis using cmp_trans [of x "xs ! i" "xs ! j"] sorted_nth_le [OF assms(1,2,6,4)] assms(3,5) by blast
qed

lemma list_position_spec:
  assumes ok: "list_ok l" and srt: "sorted_cmp cmp (list_items l)" and S: "set (list_items l) \<subseteq> S" "x \<in> S"
    and r: "0 \<le> low" "high < l_num l" "low \<le> high + 1"
    and lo: "\<forall>k. int k < low \<longrightarrow> cmp (list_items l ! k) x \<le> 0"
    and hi: "\<forall>k. high < int k \<and> int k < l_num l \<longrightarrow> cmp x (list_items l ! k) \<le> 0"
  shows "\<exists>p. list_position cmp l x low high = Ret (int p) \<and> int p \<le> l_num l
    \<and> (\<forall>k<p. cmp (list_items l ! k) x \<le> 0)
    \<and> (\<forall>k. p \<le> k \<and> int k < l_num l \<longrightarrow> cmp x (list_items l ! k) \<le> 0)"
  using r lo hi
proof (induction "nat (high - low + 1)" arbitrary: low high rule: less_induct)
  case less
  show ?case
  proof (cases "low \<le> high")
    case False
    then show ?thesis using less.prems
      by (intro exI [of _ "nat low"]) (auto simp: list_position.simps [of _ _ _ low])
  next
    case True
    define m where "m = nat ((low + high) div 2)"
    have m: "low \<le> int m" "int m \<le> high" "int m < l_num l" "(low + high) div 2 = int m"
      using True less.prems by (auto simp: m_def)
    define y where "y = list_items l ! m"
    have rd: "list_read l (int m) = Ret y" using list_read_item [OF ok _ m(3)] by (simp add: y_def)
    have inside: "int k < l_num l \<Longrightarrow> k < length (list_items l)" for k using list_items_length [OF ok] by linarith
    then have yS: "y \<in> S" using S(1) nth_mem m(3) unfolding y_def by blast
    have lower: "cmp y x \<le> 0 \<Longrightarrow> k \<le> m \<Longrightarrow> cmp (list_items l ! k) x \<le> 0" for k
      using sorted_nth_below [OF srt S inside [OF m(3)]] by (simp add: y_def)
    have upper: "cmp x y \<le> 0 \<Longrightarrow> m \<le> k \<Longrightarrow> int k < l_num l \<Longrightarrow> cmp x (list_items l ! k) \<le> 0" for k
      using sorted_nth_above [OF srt S inside] by (simp add: y_def)
    note eq = list_position.simps [of cmp l x low high, unfolded m(4) Let_def rd]
    consider "cmp y x = 0" | "0 < cmp y x" | "cmp y x < 0" by linarith
    then show ?thesis
    proof cases
      case 1
      then have "cmp x y \<le> 0" using cmp_zero_sym [OF yS S(2)] by simp
      then show ?thesis using 1 True eq m(3) upper lower by (intro exI [of _ m]) auto
    next
      case 2
      then have "\<forall>k. int m - 1 < int k \<and> int k < l_num l \<longrightarrow> cmp x (list_items l ! k) \<le> 0"
        using upper cmp_total [OF yS S(2)] by simp
      then show ?thesis using less.hyps [of "int m - 1" low] less.prems m 2 True eq by simp
    next
      case 3
      then have "\<forall>k. int k < int m + 1 \<longrightarrow> cmp (list_items l ! k) x \<le> 0" using lower by auto
      then show ?thesis using less.hyps [of high "int m + 1"] less.prems m 3 True eq by simp
    qed
  qed
qed

end

subsection \<open>Inserting into a sorted list\<close>

lemma take_shifted:
  assumes "length w = length v" "p \<le> n" "n < length v"
    and "\<forall>k < length v. w ! k = (if int p < int k \<and> int k \<le> int n then v ! (k - 1) else v ! k)"
  shows "take (Suc n) (w[p := x]) = take p (take n v) @ x # drop p (take n v)"
  using assms by (intro nth_equalityI) (auto simp: nth_append nth_list_update nth_Cons')

lemma sorted_cmp_inserted:
  assumes "sorted_cmp c xs" and "\<forall>k<p. c (xs ! k) x \<le> 0" and "\<forall>k. p \<le> k \<and> k < length xs \<longrightarrow> c x (xs ! k) \<le> 0"
  shows "sorted_cmp c (take p xs @ x # drop p xs)"
proof -
  have "\<forall>a\<in>set (take p xs). c a x \<le> 0" using assms(2) by (auto simp: in_set_conv_nth)
  moreover have "\<forall>b\<in>set (drop p xs). c x b \<le> 0" using assms(3) by (auto simp: in_set_conv_nth)
  moreover have "sorted_cmp c (take p xs)" "sorted_cmp c (drop p xs)"
    "\<forall>a\<in>set (take p xs). \<forall>b\<in>set (drop p xs). c a b \<le> 0"
    using assms(1) sorted_cmp_append [of c "take p xs" "drop p xs"] by simp_all
  ultimately show ?thesis by (auto simp: sorted_cmp_append sorted_cmp_Cons)
qed

text \<open>Whatever the order of the callback, the new item ends at the position of the bisection.\<close>

lemma list_position_range:
  assumes "list_ok l" and "0 \<le> low" "high < l_num l" "low \<le> high + 1"
  shows "\<exists>p. list_position cmp l x low high = Ret (int p) \<and> int p \<le> l_num l"
  using assms(2-)
proof (induction "nat (high - low + 1)" arbitrary: low high rule: less_induct)
  case less
  show ?case
  proof (cases "low \<le> high")
    case False
    then show ?thesis using less.prems
      by (intro exI [of _ "nat low"]) (auto simp: list_position.simps [of _ _ _ low])
  next
    case True
    define m where "m = (low + high) div 2"
    have m: "low \<le> m" "m \<le> high" using True by (auto simp: m_def)
    then have rd: "list_read l m = Ret (list_items l ! nat m)"
      using list_read_item [OF assms(1), of m] less.prems by simp
    note eq = list_position.simps [of cmp l x low high, folded m_def]
    consider "cmp (list_items l ! nat m) x = 0" | "0 < cmp (list_items l ! nat m) x" | "cmp (list_items l ! nat m) x < 0" by linarith
    then show ?thesis
    proof cases
      case 1
      then show ?thesis using eq True rd m less.prems by (intro exI [of _ "nat m"]) simp
    next
      case 2
      then show ?thesis using less.hyps [of "m - 1" low] eq True rd m less.prems by simp
    next
      case 3
      then show ?thesis using less.hyps [of high "m + 1"] eq True rd m less.prems by simp
    qed
  qed
qed

lemma list_insert_at:
  assumes "list_ok l" and "l_sorted l" and "list_can_grow l s" and grow: "list_make_room l s = (full, l1, s1)"
    and p: "list_position c l x 0 (l_num l - 1) = Ret (int p)" "int p \<le> l_num l"
  obtains l' where "hcore_list_insert lib (Some c) l (Some x) s = Ret (HCORE_OK, l', s1)"
    and "list_ok l'" "l_sorted l'" "l_pool l' = l_pool l1" "l_p l' = l_p l1"
    and "list_items l' = take p (list_items l) @ x # drop p (list_items l)"
proof -
  note g = list_grow_ok [OF assms(1,3) grow]
  define n where "n = nat (l_num l)"
  have n: "l_num l = int n" "n < length (l_vec l1)" "l_p l1 \<noteq> None" "p \<le> n" "take n (l_vec l1) = list_items l"
    using assms(1) g p(2) by (auto simp: list_ok_def n_def)
  obtain w where w: "(if 2 \<le> l_num l1 then list_shift_up l1 (l_num l1 - 2) (int p) else Ret l1) = Ret (l1\<lparr>l_vec := w\<rparr>)"
    "length w = length (l_vec l1)"
    "\<forall>k < length (l_vec l1). w ! k = (if int p < int k \<and> int k \<le> int n then l_vec l1 ! (k - 1) else l_vec l1 ! k)"
  proof (cases "2 \<le> l_num l1")
    case True
    then show thesis using list_shift_up_spec [of l1 "int p" "l_num l1 - 2"] n g(2) that by auto
  next
    case False
    then have "n = 0" using g(2) n(1) by linarith
    then show thesis using False that [of "l_vec l1"] n by auto
  qed
  define l' where "l' = l1\<lparr>l_vec := w[p := x]\<rparr>"
  have wr: "list_write (l1\<lparr>l_vec := w\<rparr>) (int p) x = Ret l'"
    using list_write_in [of "l1\<lparr>l_vec := w\<rparr>" p x] n w(2) by (simp add: l'_def)
  have run: "hcore_list_insert lib (Some c) l (Some x) s = Ret (HCORE_OK, l', s1)"
    using p(1) grow w(1) wr assms(2) by (simp add: hcore_list_insert_def Let_def)
  have ok: "list_ok l'" "l_sorted l'" using g(1,3) assms(2) w(2) by (auto simp: l'_def list_ok_def)
  have "nat (l_num l1) = Suc n" using g(2) n(1) by simp
  then have items: "list_items l' = take p (list_items l) @ x # drop p (list_items l)"
    using take_shifted [OF w(2) n(4,2) w(3), of x] n(5) by (simp add: list_items_def l'_def)
  show thesis using that [OF run ok _ _ items] by (simp add: l'_def)
qed

lemma list_insert_steps:
  assumes "list_ok l" and "l_sorted l" and "list_can_grow l s" and grow: "list_make_room l s = (full, l1, s1)"
    and "comparator c (set (list_items l) \<union> {x})" and "sorted_cmp c (list_items l)"
  obtains p l' where "hcore_list_insert lib (Some c) l (Some x) s = Ret (HCORE_OK, l', s1)"
    and "list_ok l'" "l_sorted l'" "l_pool l' = l_pool l1" "l_p l' = l_p l1"
    and "list_items l' = take p (list_items l) @ x # drop p (list_items l)"
    and "\<forall>k<p. c (list_items l ! k) x \<le> 0" "\<forall>k. p \<le> k \<and> int k < l_num l \<longrightarrow> c x (list_items l ! k) \<le> 0"
proof -
  obtain p where p: "list_position c l x 0 (l_num l - 1) = Ret (int p)" "int p \<le> l_num l"
    "\<forall>k<p. c (list_items l ! k) x \<le> 0" "\<forall>k. p \<le> k \<and> int k < l_num l \<longrightarrow> c x (list_items l ! k) \<le> 0"
    using comparator.list_position_spec [OF assms(5,1,6), of x 0 "l_num l - 1"] assms(1) by (auto simp: list_ok_def)
  show thesis by (rule list_insert_at [OF assms(1-3) grow p(1,2), of lib]) (rule that [OF _ _ _ _ _ _ p(3,4)])
qed



subsection \<open>Deleting\<close>

lemma remove1_at:
  assumes "k < length xs" "x \<notin> set (take k xs)" "xs ! k = x"
  shows "remove1 x xs = take k xs @ drop (Suc k) xs"
proof -
  have "xs = take k xs @ x # drop (Suc k) xs" using assms(1,3) id_take_nth_drop by metis
  then have "remove1 x xs = remove1 x (take k xs @ x # drop (Suc k) xs)" by simp
  also have "\<dots> = take k xs @ drop (Suc k) xs" using assms(2) by (simp add: remove1_append)
  finally show ?thesis .
qed

lemma take_shifted_down:
  assumes "length w = length v" "Suc n \<le> length v" "p \<le> n"
    and "\<forall>k < length v. w ! k = (if int p \<le> int k \<and> int k < int n then v ! Suc k else v ! k)"
  shows "take n w = take p (take (Suc n) v) @ drop (Suc p) (take (Suc n) v)"
  using assms by (intro nth_equalityI) (auto simp: nth_append min_def)

lemma sorted_cmp_remove1: "sorted_cmp c xs \<Longrightarrow> sorted_cmp c (remove1 x xs)"
  by (induction xs) (auto simp: sorted_cmp_Cons dest: in_set_remove1 notin_set_remove1)

lemma list_shrink_ok:
  assumes "list_ok l" and run: "(if l_num l * 2 \<le> l_reserved l \<and> 64 < l_reserved l
        then list_resize (l_reserved l div 2) l s else (l, s)) = (l', s')"
  shows "list_items l' = list_items l \<and> l_sorted l' = l_sorted l \<and> (l_p l' \<noteq> None \<longrightarrow> list_ok l')
    \<and> l_num l' = l_num l \<and> 32 \<le> l_reserved l' \<and> l_pool l' = l_pool l"
proof (cases "l_num l * 2 \<le> l_reserved l \<and> 64 < l_reserved l")
  case True
  note words = list_resize_words [OF run [unfolded if_P [OF True]]]
  have half: "nat (l_num l) \<le> nat (l_reserved l div 2)" "nat (l_reserved l div 2) \<le> length (l_vec l)"
    "l_num l \<le> l_reserved l div 2" "0 \<le> l_reserved l div 2" "32 \<le> l_reserved l div 2"
    "l_reserved l div 2 < 1073741824"
    using True assms(1) by (auto simp: list_ok_def)
  have "list_items l' = list_items l" using words half by (intro nth_equalityI) (auto simp: list_items_def)
  then show ?thesis using words half assms(1) by (auto simp: list_ok_def)
next
  case False
  then show ?thesis using assms by (auto simp: list_ok_def)
qed

lemma list_delete_steps:
  assumes "list_ok l"
  shows "(x \<notin> set (list_items l) \<longrightarrow> hcore_list_delete l (Some x) s = Ret (HCORE_ERROR, l, s))
    \<and> (x \<in> set (list_items l) \<longrightarrow>
        (\<exists>l' s'. hcore_list_delete l (Some x) s = Ret (HCORE_OK, l', s')
          \<and> list_items l' = remove1 x (list_items l) \<and> l_sorted l' = l_sorted l
          \<and> (l_p l' \<noteq> None \<longrightarrow> list_ok l') \<and> l_num l' = int (length (list_items l')) \<and> 32 \<le> l_reserved l' \<and> l_pool l' = l_pool l))"
proof -
  obtain k where k: "list_index l x 0 = Ret (int k)" "k \<le> length (list_items l)"
    "x \<notin> set (take k (list_items l))" "k < length (list_items l) \<longrightarrow> list_items l ! k = x"
    using list_index_spec [OF assms, of 0 x] assms by (auto simp: list_ok_def)
  note len = list_items_length [OF assms]
  show ?thesis
  proof (cases "k < length (list_items l)")
    case False
    then have "x \<notin> set (list_items l)" "int k = l_num l" using k len by auto
    then show ?thesis using k(1) by (simp add: hcore_list_delete_def)
  next
    case True
    define n where "n = nat (l_num l - 1)"
    have n: "l_num l = int n + 1" "u32 (l_num l - 1) = int n" "k \<le> n" "Suc n \<le> length (l_vec l)" "l_p l \<noteq> None"
      using True len assms by (auto simp: n_def list_ok_def u32_id)
    obtain w where w: "list_shift_down (int k) (int n) l = Ret (l\<lparr>l_vec := w\<rparr>)" "length w = length (l_vec l)"
      "\<forall>j < length (l_vec l). w ! j = (if int k \<le> int j \<and> int j < int n then l_vec l ! Suc j else l_vec l ! j)"
      using list_shift_down_spec [of l "int k" "int n"] n by auto
    define l1 where "l1 = l\<lparr>l_vec := w, l_num := int n\<rparr>"
    obtain l' s' where shrink: "(if u32 (int n * 2) \<le> l_reserved l \<and> 64 < l_reserved l
        then list_resize (l_reserved l div 2) l1 s else (l1, s)) = (l', s')" by (metis surj_pair)
    have run: "hcore_list_delete l (Some x) s = Ret (HCORE_OK, l', s')"
      using k(1) True len w(1) n(1,2) shrink by (auto simp: hcore_list_delete_def Let_def l1_def)
    have two: "u32 (int n * 2) = int n * 2" using n(1) assms by (simp add: list_ok_def u32_id)
    have "list_items l = take (Suc n) (l_vec l)" using n(1) by (simp add: list_items_def nat_add_distrib)
    then have take1: "take n w = remove1 x (list_items l)"
      using take_shifted_down [OF w(2) n(4,3) w(3)] remove1_at [OF True k(3)] k(4) True by simp
    have kept: "list_items l' = take n w \<and> l_sorted l' = l_sorted l \<and> (l_p l' \<noteq> None \<longrightarrow> list_ok l')
      \<and> l_num l' = int n \<and> 32 \<le> l_reserved l' \<and> l_pool l' = l_pool l"
    proof -
      have l1: "list_ok l1" "list_items l1 = take n w" "l_num l1 = int n" "l_reserved l1 = l_reserved l"
        "l_sorted l1 = l_sorted l" "l_pool l1 = l_pool l"
        using assms n w(2) by (auto simp: l1_def list_ok_def list_items_def)
      show ?thesis using list_shrink_ok [OF l1(1), of s l' s', unfolded l1(2-6)] shrink [unfolded two] by simp
    qed
    moreover have "x \<in> set (list_items l)" using k(4) True nth_mem by fastforce
    moreover have "length (take n w) = n" using n(4) w(2) by simp
    ultimately show ?thesis using run take1 by auto
  qed
qed

text \<open>C36: hcore_list_delete removes the first item that is the given pointer and nothing else, so a list
  in order stays in order; a pointer that is not in the list is HCORE_ERROR and changes nothing.
  The block may shrink, and then it still has room for the items.\<close>

theorem list_delete_correct:
  assumes "list_ok l"
  shows "(x \<notin> set (list_items l) \<longrightarrow> hcore_list_delete l (Some x) s = Ret (HCORE_ERROR, l, s))
    \<and> (x \<in> set (list_items l) \<longrightarrow>
        (\<exists>l' s'. hcore_list_delete l (Some x) s = Ret (HCORE_OK, l', s')
          \<and> list_items l' = remove1 x (list_items l) \<and> l_sorted l' = l_sorted l
          \<and> (sorted_cmp c (list_items l) \<longrightarrow> sorted_cmp c (list_items l'))
          \<and> (l_p l' \<noteq> None \<longrightarrow> list_ok l')))"
  using list_delete_steps [OF assms, of x s] sorted_cmp_remove1 [of c "list_items l" x] by fastforce

theorem list_delete_correct_witness:
  "\<exists>l' s'. hcore_list_delete
      \<lparr>l_pool = True, l_num = 3, l_reserved = 32, l_p = Some 64, l_vec = [2, 4, 6] @ replicate 29 0, l_sorted = True\<rparr>
      (Some 4) (sample_pool, sample_env) = Ret (HCORE_OK, l', s') \<and> list_items l' = [2, 6 :: int]"
proof -
  let ?l = "\<lparr>l_pool = True, l_num = 3, l_reserved = 32, l_p = Some 64,
    l_vec = [2, 4, 6] @ replicate 29 0, l_sorted = True\<rparr> :: int hlist"
  have "list_items ?l = [2, 4, 6]" "list_ok ?l" by (simp_all add: list_items_def list_ok_def)
  then show ?thesis using list_delete_correct [of ?l 4 "(sample_pool, sample_env)" "\<lambda>a b. a - b"] by auto
qed

subsection \<open>Searching\<close>

context sort_library
begin

lemma list_sort_ok:
  assumes "list_ok l" and "set (list_items l) \<subseteq> S"
  shows "list_ok (hcore_list_sort lib (Some cmp) l)"
    and "mset (list_items (hcore_list_sort lib (Some cmp) l)) = mset (list_items l)"
    and "sorted_cmp cmp (list_items (hcore_list_sort lib (Some cmp) l))"
proof -
  define xs where "xs = c_qsort lib cmp (list_items l)"
  have xs: "mset xs = mset (list_items l)" "sorted_cmp cmp xs"
    using qsort_perm [OF assms(2)] qsort_sorted [OF assms(2)] by (simp_all add: xs_def)
  have len: "length xs = nat (l_num l)" using xs(1) list_items_length [OF assms(1)] mset_eq_length by fastforce
  have vec: "hcore_list_sort lib (Some cmp) l = l\<lparr>l_vec := xs @ drop (nat (l_num l)) (l_vec l), l_sorted := True\<rparr>"
    by (simp add: hcore_list_sort_def xs_def list_items_def)
  have items: "list_items (hcore_list_sort lib (Some cmp) l) = xs"
    using len by (simp add: vec list_items_def)
  show "list_ok (hcore_list_sort lib (Some cmp) l)" using assms(1) len by (auto simp: vec list_ok_def)
  show "mset (list_items (hcore_list_sort lib (Some cmp) l)) = mset (list_items l)"
    "sorted_cmp cmp (list_items (hcore_list_sort lib (Some cmp) l))" using xs by (simp_all add: items)
qed

lemma list_search_spec:
  assumes "list_ok l" and "set (list_items l) \<subseteq> S" and "x \<in> S"
    and "l_sorted l \<longrightarrow> sorted_cmp cmp (list_items l)"
    and run: "hcore_list_search lib (Some cmp) l (Some x) = (r, l')"
  shows "list_ok l' \<and> mset (list_items l') = mset (list_items l) \<and> sorted_cmp cmp (list_items l')
    \<and> (case r of Some y \<Rightarrow> y \<in> set (list_items l) \<and> cmp x y = 0
       | None \<Rightarrow> \<forall>y\<in>set (list_items l). cmp x y \<noteq> 0)"
proof -
  define m where "m = (if \<not> l_sorted l then hcore_list_sort lib (Some cmp) l else l)"
  have m: "list_ok m" "mset (list_items m) = mset (list_items l)" "sorted_cmp cmp (list_items m)"
    using assms(1,4) list_sort_ok [OF assms(1,2)] by (auto simp: m_def)
  then have "set (list_items m) = set (list_items l)" by (metis set_mset_mset)
  moreover have "r = c_bsearch lib cmp x (list_items m)" "l' = m"
    using run by (auto simp: hcore_list_search_def m_def list_items_def Let_def)
  ultimately show ?thesis
    using m bsearch_some [of "list_items m" x] bsearch_none [of "list_items m" x] assms(2,3)
    by (auto split: option.splits)
qed

end

text \<open>C37: with a qsort and a bsearch that keep their promises, hcore_list_search finds an item equal to
  the target exactly when there is one, sorting the list first when additions have left it out of
  order; it neither loses nor invents items.\<close>

theorem list_search_correct:
  assumes "sort_library c (insert x (set (list_items l))) lib" and "list_ok l"
    and "l_sorted l \<longrightarrow> sorted_cmp c (list_items l)"
    and "hcore_list_search lib (Some c) l (Some x) = (r, l')"
  shows "list_ok l' \<and> mset (list_items l') = mset (list_items l) \<and> sorted_cmp c (list_items l')
    \<and> (case r of Some y \<Rightarrow> y \<in> set (list_items l) \<and> c x y = 0
       | None \<Rightarrow> \<forall>y\<in>set (list_items l). c x y \<noteq> 0)"
  using sort_library.list_search_spec [OF assms(1,2) _ _ assms(3,4)] by blast

theorem list_search_correct_witness:
  "\<exists>r l'. hcore_list_search ref_sortlib (Some (\<lambda>a b. a - b))
      \<lparr>l_pool = True, l_num = 3, l_reserved = 32, l_p = Some 64, l_vec = [6, 2, 4] @ replicate 29 0, l_sorted = False\<rparr>
      (Some (4 :: int)) = (r, l') \<and> mset (list_items l') = {#2, 4, 6#} \<and> r = Some 4"
proof -
  let ?l = "\<lparr>l_pool = True, l_num = 3, l_reserved = 32, l_p = Some 64,
    l_vec = [6, 2, 4] @ replicate 29 0, l_sorted = False\<rparr> :: int hlist"
  have items: "list_items ?l = [6, 2, 4]" "list_ok ?l" by (simp_all add: list_items_def list_ok_def)
  have "comparator (\<lambda>a b. a - b) (insert 4 (set (list_items ?l)))" by unfold_locales auto
  then have lib: "sort_library (\<lambda>a b. a - b) (insert 4 (set (list_items ?l))) ref_sortlib"
    by (rule ref_sort_library)
  obtain r l' where run: "hcore_list_search ref_sortlib (Some (\<lambda>a b. a - b)) ?l (Some 4) = (r, l')"
    by (metis surj_pair)
  show ?thesis using list_search_correct [OF lib items(2) _ run] items(1) run
    by (auto split: option.splits simp: add_mset_commute)
qed

end
