(* ===== verification/HSupply.thy ===== *)
theory HSupply
  imports HList
begin

section \<open>Allocations that succeed\<close>

text \<open>
  The theorems about code that allocates many times need memory to be there. \<open>ready k\<close> says that
  the system grants the next \<open>k\<close> requests, and \<open>granted\<close> adds the pool's invariant and that the
  addresses are those of user space, far below the end of the address space. One allocation from
  a pool asks the system at most twice: for a large block and for the entry that holds it.
\<close>

definition ready :: "nat \<Rightarrow> env \<Rightarrow> bool" where
  "ready k e \<longleftrightarrow> (\<exists>as bs. answers e = map Some as @ bs \<and> k \<le> length as)"

lemma ready_mono: "ready k e \<Longrightarrow> j \<le> k \<Longrightarrow> ready j e"
  unfolding ready_def by (meson le_trans)

lemma ready_next:
  assumes "ready (Suc k) e"
  obtains a e' where "next_answer e = (Some a, e')" "ready k e'"
proof -
  obtain as bs where as: "answers e = map Some as @ bs" "Suc k \<le> length as" using assms by (auto simp: ready_def)
  then obtain a as' where "as = a # as'" by (cases as) auto
  then show thesis using as that [of a "e\<lparr>answers := map Some as' @ bs\<rparr>"]
    by (auto simp: next_answer_def ready_def)
qed

lemma ready_same [simp]:
  "ready k (e\<lparr>trace := t\<rparr>) = ready k e" "ready k (e\<lparr>mem := m\<rparr>) = ready k e"
  "ready k (log_event x e) = ready k e" "ready k (hcore_memcpy d q n e) = ready k e"
  "ready k (hcore_memzero d n e) = ready k e" "ready k (hcore_free d e) = ready k e"
  by (simp_all add: ready_def log_event_def hcore_memcpy_def hcore_memzero_def hcore_free_def)

lemma palloc_small_ready:
  assumes "ready (Suc k) e"
  shows "\<exists>a p' e'. hcore_palloc_small p n align e = (Some a, p', e') \<and> ready k e'"
proof (cases "palloc_scan n align (drop (pool_current p) (pool_blocks p))")
  case None
  obtain b e' where "next_answer e = (Some b, e')" "ready k e'" by (rule ready_next [OF assms])
  then show ?thesis using None
    by (auto simp: hcore_palloc_small_def hcore_palloc_block_def hcore_memalign_def Let_def split: prod.splits)
next
  case (Some r)
  then show ?thesis using ready_mono [OF assms, of k] by (cases r) (simp add: hcore_palloc_small_def)
qed

lemma palloc_large_ready:
  assumes "ready (Suc (Suc k)) e"
  shows "\<exists>a p' e'. hcore_palloc_large p n e = (Some a, p', e') \<and> ready k e'"
proof -
  obtain b e1 where b: "next_answer e = (Some b, e1)" "ready (Suc k) e1" by (rule ready_next [OF assms])
  obtain a p' e' where s: "hcore_palloc_small p 16 True e1 = (Some a, p', e')" "ready k e'"
    using palloc_small_ready [OF b(2)] by blast
  have "ready k e1" using ready_mono [OF b(2)] by simp
  then show ?thesis using b(1) s
    by (auto simp: hcore_palloc_large_def hcore_malloc_def split: option.splits)
qed

lemma pnalloc_ready:
  assumes "ready (Suc (Suc k)) e"
  shows "\<exists>a p' e'. hcore_pnalloc p n e = (Some a, p', e') \<and> ready k e'"
proof -
  obtain b e1 where "next_answer e = (Some b, e1)" "ready (Suc k) e1" by (rule ready_next [OF assms])
  moreover from this have "ready k e1" using ready_mono by simp
  moreover have "\<exists>a p' e'. hcore_palloc_small p n False e = (Some a, p', e') \<and> ready k e'"
    using palloc_small_ready [OF assms, of p n False] ready_mono by (metis Suc_n_not_le_n nat_le_linear)
  ultimately show ?thesis using palloc_large_ready [OF assms, of p n] by (simp add: hcore_pnalloc_def)
qed

subsection \<open>With the invariant of the pool\<close>

definition granted :: "int \<Rightarrow> int \<Rightarrow> nat \<Rightarrow> pstate \<Rightarrow> bool" where
  "granted psz G k s \<longleftrightarrow> pool_wf psz G s \<and> ready k (snd s) \<and> G < 2 ^ 62 \<and> (\<forall>x\<in>pool_avail G s. x < 2 ^ 62)"

lemma granted_mono: "granted psz G k s \<Longrightarrow> j \<le> k \<Longrightarrow> granted psz G j s"
  using ready_mono by (auto simp: granted_def)

text \<open>What an allocation leaves: less memory, and its region is out of reach of the next one.\<close>

definition took :: "int \<Rightarrow> pstate \<Rightarrow> int set \<Rightarrow> pstate \<Rightarrow> bool" where
  "took G s R t \<longleftrightarrow> pool_avail G t \<subseteq> pool_avail G s \<and> R \<subseteq> pool_avail G s \<and> R \<inter> pool_avail G t = {}"

lemma took_trans: "took G s R t \<Longrightarrow> took G t R' u \<Longrightarrow> took G s R u"
  unfolding took_def by blast

lemma took_none: "took G s R t \<Longrightarrow> took G s {} t"
  unfolding took_def by blast

lemma granted_alloc:
  assumes "granted psz G (Suc (Suc k)) s" and "0 \<le> n" "n \<le> G"
  obtains a t where "hcore_pnalloc (fst s) n (snd s) = (Some a, t)" "granted psz G k t"
    "took G s (mem_region (a, n)) t"
proof -
  have wf: "pool_wf psz G (fst s, snd s)" using assms(1) by (simp add: granted_def)
  obtain a p' e' where run: "hcore_pnalloc (fst s) n (snd s) = (Some a, p', e')" "ready k e'"
    using pnalloc_ready assms(1) unfolding granted_def by blast
  have "alloc_ok psz G n (fst s, snd s) (Some a) (p', e')" using pnalloc_ok [OF wf assms(2,3) run(1)] .
  then show thesis using run assms(1) that [of a "(p', e')"] by (auto simp: alloc_ok_def granted_def took_def)
qed

lemma granted_cong:
  assumes "answers e' = answers (snd s)" and "pool_blocks q = pool_blocks (fst s)"
    and "pool_current q = pool_current (fst s)" and "pool_max q = pool_max (fst s)"
    and "pool_customed q = pool_customed (fst s)"
  shows "granted psz G k (q, e') = granted psz G k s" and "pool_avail G (q, e') = pool_avail G s"
  using pool_wf_cong [of e' "snd s" q "fst s"] assms
  by (simp_all add: granted_def answers_of_def ready_def)

text \<open>hcore_pfree changes neither the blocks nor the answers.\<close>

lemma granted_pfree:
  shows "granted psz G k (snd (hcore_pfree p ptr e)) = granted psz G k (p, e)"
    and "pool_avail G (snd (hcore_pfree p ptr e)) = pool_avail G (p, e)"
proof -
  obtain rc q e' where f: "hcore_pfree p ptr e = (rc, q, e')" by (metis surj_pair)
  then have same: "answers e' = answers e" "pool_blocks q = pool_blocks p" "pool_current q = pool_current p"
    "pool_max q = pool_max p" "pool_customed q = pool_customed p"
    by (auto simp: hcore_pfree_def hcore_free_def log_event_def split: option.splits if_splits)
  show "granted psz G k (snd (hcore_pfree p ptr e)) = granted psz G k (p, e)"
    "pool_avail G (snd (hcore_pfree p ptr e)) = pool_avail G (p, e)"
    using granted_cong [of e' "(p, e)" q] same f by simp_all
qed

lemma prealloc_extend_split:
  "prealloc_extend p old new bs = Some cs \<Longrightarrow>
     \<exists>pre b post. bs = pre @ b # post \<and> cs = pre @ b\<lparr>pb_last := u64 (p + new)\<rparr> # post
       \<and> u64 (p + old) = pb_last b \<and> u64 (p + new) \<le> pb_end b"
proof (induction bs arbitrary: cs)
  case (Cons b bs)
  show ?case
  proof (cases "u64 (p + old) = pb_last b \<and> u64 (p + new) \<le> pb_end b")
    case True
    then show ?thesis using Cons.prems by (intro exI [of _ "[]"] exI [of _ b] exI [of _ bs]) auto
  next
    case False
    then obtain ds where "prealloc_extend p old new bs = Some ds" "cs = b # ds" using Cons.prems by auto
    then show ?thesis using Cons.IH [of ds] by (metis append_Cons)
  qed
qed simp

lemma granted_prealloc:
  assumes s: "granted psz G (Suc (Suc k)) s" and n: "0 \<le> old" "old < new" "new \<le> G" and p: "0 < p" "p < 2 ^ 62"
  obtains r t where "hcore_prealloc (fst s) (Some p) old new (snd s) = (Some r, t)" "granted psz G k t"
    "took G s {} t" "0 < r" "r < 2 ^ 62"
proof (cases "if old \<le> pool_max (fst s) then prealloc_extend p old new (pool_blocks (fst s)) else None")
  case (Some bs)
  then obtain pre b post where b: "pool_blocks (fst s) = pre @ b # post"
    "bs = pre @ b\<lparr>pb_last := u64 (p + new)\<rparr> # post" "u64 (p + old) = pb_last b" "u64 (p + new) \<le> pb_end b"
    using prealloc_extend_split [of p old new "pool_blocks (fst s)" bs] by (auto split: if_splits)
  have G: "G < 2 ^ 62" using s by (simp add: granted_def)
  then have ids: "u64 (p + old) = p + old" "u64 (p + new) = p + new" using n p by (auto intro!: u64_id)
  have wf: "pool_wf psz G (fst s, snd s)" using s by (simp add: granted_def)
  have last: "pb_last b = p + old" "pb_last b + (new - old) = p + new" using b(3) ids by simp_all
  define q where "q = (fst s)\<lparr>pool_blocks := pre @ b\<lparr>pb_last := pb_last b + (new - old)\<rparr> # post\<rparr>"
  have "pb_last b + (new - old) \<le> pb_end b" "0 \<le> new - old" using b(4) ids last n by simp_all
  note bump = pool_bump [OF wf b(1) order_refl this, folded q_def]
  have "granted psz G k (q, snd s)" "took G s {} (q, snd s)"
    using bump(1,2) granted_mono [OF s, of k] by (auto simp: granted_def took_def)
  moreover have "hcore_prealloc (fst s) (Some p) old new (snd s) = (Some p, q, snd s)"
    using Some n b(2) ids last by (simp add: hcore_prealloc_def q_def)
  ultimately show thesis using that p by blast
next
  case None
  obtain a t where a: "hcore_pnalloc (fst s) new (snd s) = (Some a, t)" "granted psz G k t"
    "took G s (mem_region (a, new)) t" using granted_alloc [OF s _ n(3)] n by auto
  define u where "u = snd (hcore_pfree (fst t) (Some p) (hcore_memcpy a p old (snd t)))"
  have cong: "granted psz G k (fst t, hcore_memcpy a p old (snd t)) = granted psz G k t"
    "pool_avail G (fst t, hcore_memcpy a p old (snd t)) = pool_avail G t"
    using granted_cong [of "hcore_memcpy a p old (snd t)" t "fst t"] by (simp_all add: hcore_memcpy_def)
  have "a \<in> pool_avail G s" using a(3) n by (auto simp: took_def mem_region_def)
  then have "0 < a" "a < 2 ^ 62" using pool_avail_bounds [of psz G s a] s by (auto simp: granted_def)
  moreover have "hcore_prealloc (fst s) (Some p) old new (snd s) = (Some a, u)"
    using None a(1) n by (cases t) (simp add: hcore_prealloc_def u_def)
  moreover have "granted psz G k u" "took G s {} u"
    using a(2,3) cong granted_pfree [where p = "fst t"] by (simp_all add: u_def took_def)
  ultimately show thesis using that by blast
qed

subsection \<open>Arrays and lists\<close>

lemma granted_array_create:
  assumes s: "granted psz G (k + 4) s" and n: "0 \<le> n" "0 \<le> sz" "n * sz \<le> G" "40 \<le> G"
  obtains aa elts t where "hcore_array_create (fst s) n sz (snd s)
      = (Some (aa, \<lparr>ar_elts = elts, ar_nelts = 0, ar_size = sz, ar_nalloc = n\<rparr>), t)"
    "granted psz G k t" "took G s {} t"
proof -
  have "granted psz G (Suc (Suc (k + 2))) s" using s by (simp add: numeral_eq_Suc)
  then obtain aa t1 where a: "hcore_pnalloc (fst s) 40 (snd s) = (Some aa, t1)" "granted psz G (k + 2) t1"
    "took G s (mem_region (aa, 40)) t1" using granted_alloc [of psz G "k + 2" s 40] n(4) by auto
  have "G < 2 ^ 62" "0 \<le> n * sz" using s n by (simp_all add: granted_def)
  then have id: "u64 (n * sz) = n * sz" using n(3) by (intro u64_id) auto
  obtain b t2 where b: "hcore_pnalloc (fst t1) (n * sz) (snd t1) = (Some b, t2)" "granted psz G k t2"
    "took G t1 (mem_region (b, n * sz)) t2"
    using granted_alloc [of psz G k t1 "n * sz"] a(2) n \<open>0 \<le> n * sz\<close> by auto
  have "hcore_array_create (fst s) n sz (snd s)
      = (Some (aa, \<lparr>ar_elts = b, ar_nelts = 0, ar_size = sz, ar_nalloc = n\<rparr>), t2)"
    using a(1) b(1) id by (cases t1; cases t2) (simp add: hcore_array_create_def hcore_array_init_def)
  moreover have "took G s {} t2" using took_trans [OF took_none [OF a(3)] b(3)] .
  ultimately show thesis using that b(2) by blast
qed

lemma array_push_room:
  assumes "ar_nelts a \<noteq> ar_nalloc a"
  shows "hcore_array_push a p e = (Some (u64 (ar_elts a + u64 (ar_size a * ar_nelts a))),
    a\<lparr>ar_nelts := u32 (ar_nelts a + 1)\<rparr>, p, e)"
  using assms by (simp add: hcore_array_push_def)

lemma granted_make_room:
  assumes ok: "list_ok l" "l_pool l" "l_p l = Some p" "0 < p" "p < 2 ^ 62"
    and N: "l_num l < N" "16 * N \<le> G" "N < 536870912" and s: "granted psz G (Suc (Suc k)) s"
  obtains full l' t r where "list_make_room l s = (full, l', t)" "list_can_grow l s" "l_pool l'" "l_p l' = Some r"
    "0 < r" "r < 2 ^ 62" "granted psz G k t" "took G s {} t"
proof (cases "l_num l < l_reserved l")
  case True
  then have "list_make_room l s = (False, l\<lparr>l_num := l_num l + 1\<rparr>, s)"
    using ok(1) by (simp add: list_make_room_def list_ok_def u32_id)
  then show thesis using True ok granted_mono [OF s, of k]
    by (intro that [of False "l\<lparr>l_num := l_num l + 1\<rparr>" s p]) (auto simp: list_can_grow_def took_def)
next
  case False
  then have res: "l_reserved l = l_num l" "32 \<le> l_reserved l" using ok(1) by (auto simp: list_ok_def)
  then have ids: "u32 (l_num l + 1) = l_num l + 1" "u32 (l_reserved l * 2) = l_reserved l * 2"
    "u64 (8 * l_reserved l) = 8 * l_reserved l" "u64 (8 * (l_reserved l * 2)) = 16 * l_reserved l"
    using N by (simp_all add: u32_id u64_id)
  obtain r t where r: "hcore_prealloc (fst s) (Some p) (8 * l_reserved l) (16 * l_reserved l) (snd s) = (Some r, t)"
    "granted psz G k t" "took G s {} t" "0 < r" "r < 2 ^ 62"
    using granted_prealloc [OF s, of "8 * l_reserved l" "16 * l_reserved l" p] res N ok by auto
  have resize: "list_resize (u32 (l_reserved l * 2)) m s
      = (m\<lparr>l_reserved := l_reserved l * 2, l_p := Some r,
           l_vec := take (nat (l_reserved l * 2)) (l_vec m @ replicate (nat (l_reserved l * 2) - length (l_vec m)) undefined)\<rparr>, t)"
    if "l_p m = l_p l" "l_pool m" "l_reserved m = l_reserved l" for m :: "'a hlist"
    using that r(1) ids ok(3) by (cases t) (simp add: list_resize_def hcore_list_realloc_def)
  have "list_can_grow l s" using resize [of l] ok res N by (simp add: list_can_grow_def)
  moreover obtain l' where "list_make_room l s = (True, l', t)" "l_pool l'" "l_p l' = Some r"
    using resize [of "l\<lparr>l_num := l_num l + 1\<rparr>"] ok res ids
    by (simp add: list_make_room_def)
  ultimately show thesis using that r by blast
qed

end
