(* ===== verification/HPack.thy ===== *)
theory HPack
  imports HInet HList
begin

section \<open>Packs: typed values by name, and their wire format (src/hcore_pack.c, include/hcore_pack.h)\<close>

text \<open>
  A pack is a sorted list of named elements, each with an array of integers, strings or data. The
  list holds pointers: \<open>pk_heap\<close> gives the element at an address. Names and values are their
  bytes; the memory they take comes from the pool, and a value whose memory could not be had stays
  behind uninitialised, as in the code. hcore_pack_read is a state machine that can be fed piece by
  piece; it takes the object the buffer is in and the length of the buffer. The formatter is used
  with \<open>%s\<close> only, so the operations on \<open>double\<close> it is given do not matter.
\<close>

subsection \<open>Data\<close>

abbreviation (input) HCORE_PACK_ELEM_TYPE_INT :: int where "HCORE_PACK_ELEM_TYPE_INT \<equiv> 0"

abbreviation (input) HCORE_PACK_ELEM_TYPE_DATA :: int where "HCORE_PACK_ELEM_TYPE_DATA \<equiv> 1"

abbreviation (input) HCORE_PACK_ELEM_TYPE_STR :: int where "HCORE_PACK_ELEM_TYPE_STR \<equiv> 2"

datatype pvalue =
  PInt int
| PBytes "byte list"
| PUninit

record pack_elem =
  e_name :: "byte list"
  e_type :: int
  e_array :: harray
  e_vals :: "pvalue list"

datatype pack_phase =
  phase_init
| phase_elem_name_len
| phase_elem_name
| phase_elem_type
| phase_value_num
| phase_value_data_int
| phase_value_data_value_len
| phase_value_data_value
| phase_done

record hpack =
  pk_list :: "int hlist"
  pk_heap :: "int \<Rightarrow> pack_elem"
  pk_max :: int
  pk_ref :: int
  pk_buf :: "byte list option"
  pk_total :: int
  pk_phase :: pack_phase
  pk_need :: int
  pk_num :: int
  pk_cur_num :: int
  pk_value_len :: int
  pk_cur_value_num :: int
  pk_value_num :: int
  pk_elem_type :: int
  pk_name_len :: int
  pk_name :: "byte list"
  pk_cur_elem :: int

abbreviation (input) sizeof_hcore_pack_t :: int where "sizeof_hcore_pack_t \<equiv> 96"

abbreviation (input) sizeof_hcore_pack_elem_t :: int where "sizeof_hcore_pack_elem_t \<equiv> 40"

abbreviation (input) HCORE_POOL_SIZE_DEFAULT :: int where "HCORE_POOL_SIZE_DEFAULT \<equiv> 16384"

subsection \<open>The order of elements\<close>

text \<open>memcmp gives the sign of the first difference.\<close>

fun hcore_memcmp :: "byte list \<Rightarrow> byte list \<Rightarrow> int" where
  "hcore_memcmp (x # xs) (y # ys) = (if x \<noteq> y then uint x - uint y else hcore_memcmp xs ys)"
| "hcore_memcmp xs ys = 0"

definition pack_elem_cmp :: "pack_elem \<Rightarrow> pack_elem \<Rightarrow> int" where
  "pack_elem_cmp o1 o2 =
     (if e_type o1 \<noteq> e_type o2 then i32 (e_type o1 - e_type o2)
      else if length (e_name o1) \<noteq> length (e_name o2)
      then i32 (u64 (int (length (e_name o1)) - int (length (e_name o2))))
      else hcore_memcmp (e_name o1) (e_name o2))"

definition hcore_pack_cmp_name :: "(int \<Rightarrow> pack_elem) \<Rightarrow> int \<Rightarrow> int \<Rightarrow> int" where
  "hcore_pack_cmp_name heap p1 p2 = pack_elem_cmp (heap p1) (heap p2)"

subsection \<open>Elements\<close>

definition hcore_pack_elem_create ::
  "byte list \<Rightarrow> int \<Rightarrow> int \<Rightarrow> pstate \<Rightarrow> (int \<times> pack_elem) option \<times> pstate" where
  "hcore_pack_elem_create name type num s =
     (case hcore_palloc (fst s) sizeof_hcore_pack_elem_t (snd s) of
        (None, p, e) \<Rightarrow> (None, p, e)
      | (Some a, p, e) \<Rightarrow>
          (case hcore_palloc p (int (length name)) e of
             (None, p, e) \<Rightarrow> (None, p, e)
           | (Some d, p, e) \<Rightarrow>
               if type \<noteq> HCORE_PACK_ELEM_TYPE_INT \<and> type \<noteq> HCORE_PACK_ELEM_TYPE_STR
                  \<and> type \<noteq> HCORE_PACK_ELEM_TYPE_DATA
               then (None, p, e)
               else
                 let sz = (if type = HCORE_PACK_ELEM_TYPE_INT then 4 else 16);
                     num = (if num = 0 then 1 else num)
                 in case hcore_array_create p num sz e of
                      (None, p, e) \<Rightarrow> (None, p, e)
                    | (Some (aa, ar), p, e) \<Rightarrow>
                        (Some (a, \<lparr>e_name = name, e_type = type, e_array = ar, e_vals = []\<rparr>), p, e)))"

definition hcore_pack_elem_add_int :: "pack_elem \<Rightarrow> int \<Rightarrow> pstate \<Rightarrow> int \<times> pack_elem \<times> pstate" where
  "hcore_pack_elem_add_int el i s =
     (case hcore_array_push (e_array el) (fst s) (snd s) of
        (None, ar, p, e) \<Rightarrow> (HCORE_ERROR, el\<lparr>e_array := ar\<rparr>, p, e)
      | (Some v, ar, p, e) \<Rightarrow> (HCORE_OK, el\<lparr>e_array := ar, e_vals := e_vals el @ [PInt i]\<rparr>, p, e))"

definition hcore_pack_elem_add_data :: "pack_elem \<Rightarrow> byte list \<Rightarrow> pstate \<Rightarrow> int \<times> pack_elem \<times> pstate" where
  "hcore_pack_elem_add_data el data s =
     (case hcore_array_push (e_array el) (fst s) (snd s) of
        (None, ar, p, e) \<Rightarrow> (HCORE_ERROR, el\<lparr>e_array := ar\<rparr>, p, e)
      | (Some v, ar, p, e) \<Rightarrow>
          (case hcore_pnalloc p (int (length data)) e of
             (None, p, e) \<Rightarrow> (HCORE_ERROR, el\<lparr>e_array := ar, e_vals := e_vals el @ [PUninit]\<rparr>, p, e)
           | (Some d, p, e) \<Rightarrow> (HCORE_OK, el\<lparr>e_array := ar, e_vals := e_vals el @ [PBytes data]\<rparr>, p, e)))"

text \<open>The string is copied with \<open>%s\<close> from the object that starts at its first byte, into \<open>len\<close>
  bytes.\<close>

definition hcore_pack_elem_add_str :: "pack_elem \<Rightarrow> byte list \<Rightarrow> nat \<Rightarrow> pstate \<Rightarrow> (int \<times> pack_elem \<times> pstate) run" where
  "hcore_pack_elem_add_str el obj len s =
     (case hcore_array_push (e_array el) (fst s) (snd s) of
        (None, ar, p, e) \<Rightarrow> Ret (HCORE_ERROR, el\<lparr>e_array := ar\<rparr>, p, e)
      | (Some v, ar, p, e) \<Rightarrow>
          (case hcore_pnalloc p (int len + 1) e of
             (None, p, e) \<Rightarrow> Ret (HCORE_ERROR, el\<lparr>e_array := ar, e_vals := e_vals el @ [PUninit]\<rparr>, p, e)
           | (Some d, p, e) \<Rightarrow>
               bind_run (hcore_snprintf whole_ops len (bytes ''%s'' @ [0]) [VStr obj])
                 (\<lambda>t. Ret (HCORE_OK, el\<lparr>e_array := ar, e_vals := e_vals el @ [PBytes t]\<rparr>, p, e))))"

subsection \<open>Creation and destruction\<close>

text \<open>hcore_pack_init on memory cleared by hcore_pcalloc.\<close>

definition hcore_pack_init :: "int \<Rightarrow> pstate \<Rightarrow> hpack option \<times> pstate" where
  "hcore_pack_init mx s =
     (case hcore_create_list True s of
        (None, s) \<Rightarrow> (None, s)
      | (Some (a, l), s) \<Rightarrow>
          (Some \<lparr>pk_list = l, pk_heap = (\<lambda>_. \<lparr>e_name = [], e_type = 0,
              e_array = \<lparr>ar_elts = 0, ar_nelts = 0, ar_size = 0, ar_nalloc = 0\<rparr>, e_vals = []\<rparr>),
            pk_max = mx, pk_ref = 1, pk_buf = None, pk_total = 4, pk_phase = phase_init, pk_need = 4,
            pk_num = 0, pk_cur_num = 0, pk_value_len = 0, pk_cur_value_num = 0, pk_value_num = 0,
            pk_elem_type = 0, pk_name_len = 0, pk_name = [], pk_cur_elem = 0\<rparr>, s))"

definition hcore_pack_create :: "int \<Rightarrow> int \<Rightarrow> env \<Rightarrow> (hpack \<times> hpool) option \<times> env" where
  "hcore_pack_create sys mx e =
     (case hcore_create_pool sys HCORE_POOL_SIZE_DEFAULT e of
        (None, e) \<Rightarrow> (None, e)
      | (Some pool, e) \<Rightarrow>
          (case hcore_pcalloc pool sizeof_hcore_pack_t e of
             (None, pool, e) \<Rightarrow> (None, hcore_destroy_pool pool e)
           | (Some a, pool, e) \<Rightarrow>
               (case hcore_pack_init mx (pool, e) of
                  (None, pool, e) \<Rightarrow> (None, hcore_destroy_pool pool e)
                | (Some pk, pool, e) \<Rightarrow> (Some (pk, pool), e))))"

definition hcore_pack_destroy :: "(hpack \<times> hpool) option \<Rightarrow> env \<Rightarrow> (hpack \<times> hpool) option \<times> env" where
  "hcore_pack_destroy p e =
     (case p of
        None \<Rightarrow> (None, e)
      | Some (pk, pool) \<Rightarrow>
          (let pk = pk\<lparr>pk_ref := u32 (pk_ref pk - 1)\<rparr> in
           if pk_ref pk = 0 then (None, hcore_destroy_pool pool e) else (Some (pk, pool), e)))"

subsection \<open>Writing\<close>

definition hcore_pack_write_int :: "int \<Rightarrow> byte list" where
  "hcore_pack_write_int i =
     (let w = word_of_int i in [byte_at w 0, byte_at w 1, byte_at w 2, byte_at w 3])"

definition hcore_pack_write_str :: "byte list \<Rightarrow> byte list" where
  "hcore_pack_write_str str = hcore_pack_write_int (int (length str)) @ str"

text \<open>The values of one element; one that is not of the element's type, or not initialised, is
  read from memory that does not hold it.\<close>

fun pack_write_values :: "int \<Rightarrow> pvalue list \<Rightarrow> byte list run" where
  "pack_write_values type [] = Ret []"
| "pack_write_values type (v # vs) =
     bind_run
       (if type = HCORE_PACK_ELEM_TYPE_INT then (case v of PInt i \<Rightarrow> Ret (hcore_pack_write_int i) | _ \<Rightarrow> Fault)
        else if type = HCORE_PACK_ELEM_TYPE_STR \<or> type = HCORE_PACK_ELEM_TYPE_DATA
        then (case v of PBytes b \<Rightarrow> Ret (hcore_pack_write_str b) | _ \<Rightarrow> Fault)
        else Ret [])
       (\<lambda>b. bind_run (pack_write_values type vs) (\<lambda>bs. Ret (b @ bs)))"

definition pack_write_elem :: "pack_elem \<Rightarrow> byte list run" where
  "pack_write_elem el =
     bind_run (pack_write_values (e_type el) (e_vals el)) (\<lambda>vs.
       Ret (hcore_pack_write_str (e_name el) @ hcore_pack_write_int (e_type el)
            @ hcore_pack_write_int (ar_nelts (e_array el)) @ vs))"

fun pack_write_elems :: "pack_elem list \<Rightarrow> byte list run" where
  "pack_write_elems [] = Ret []"
| "pack_write_elems (el # els) =
     bind_run (pack_write_elem el) (\<lambda>b. bind_run (pack_write_elems els) (\<lambda>bs. Ret (b @ bs)))"

definition pack_elems :: "hpack \<Rightarrow> pack_elem list" where
  "pack_elems pk = map (pk_heap pk) (list_items (pk_list pk))"

text \<open>The buffer returned, the value stored to \<open>size\<close> if one is, and the pack. The buffer has
  \<open>total_size\<close> bytes; more do not fit.\<close>

definition hcore_pack_write :: "hpack \<Rightarrow> pstate \<Rightarrow> (byte list option \<times> int option \<times> hpack \<times> pstate) run" where
  "hcore_pack_write pk s =
     (if l_num (pk_list pk) = 0 then Ret (None, None, pk, s)
      else case pk_buf pk of
             Some b \<Rightarrow> Ret (Some b, None, pk, s)
           | None \<Rightarrow>
               (case hcore_pnalloc (fst s) (pk_total pk) (snd s) of
                  (None, p, e) \<Rightarrow> Ret (None, None, pk, p, e)
                | (Some a, p, e) \<Rightarrow>
                    bind_run (pack_write_elems (pack_elems pk)) (\<lambda>els.
                      let buf = hcore_pack_write_int (l_num (pk_list pk)) @ els in
                      if pk_total pk < int (length buf) then Fault
                      else Ret (Some buf, Some (int (length buf)), pk\<lparr>pk_buf := Some buf\<rparr>, p, e))))"

subsection \<open>Reading\<close>

definition hcore_pack_read_int :: "byte list \<Rightarrow> (int \<times> byte list) run" where
  "hcore_pack_read_int p =
     (case p of
        a # b # c # d # p \<Rightarrow> Ret (uint (of_memory a b c d), p)
      | _ \<Rightarrow> Fault)"

text \<open>What one turn of the loop does: go on with the rest of the buffer, leave the loop, or return
  -1. \<open>p\<close> is the object from the read position on.\<close>

datatype 'a pstep = PCont 'a | PDone 'a | PFail 'a

definition pack_want :: "pack_phase \<Rightarrow> int \<Rightarrow> hpack \<Rightarrow> hpack" where
  "pack_want ph need pk = pk\<lparr>pk_phase := ph, pk_need := need\<rparr>"

definition pack_upd_elem :: "pack_elem \<Rightarrow> hpack \<Rightarrow> hpack" where
  "pack_upd_elem el pk = pk\<lparr>pk_heap := (pk_heap pk)(pk_cur_elem pk := el)\<rparr>"

text \<open>Behind a value: the next one of the element, in phase \<open>again\<close>, the next element, or the end.\<close>

definition pack_value_read :: "pack_phase \<Rightarrow> byte list \<Rightarrow> hpack \<Rightarrow> pstate \<Rightarrow> (byte list \<times> hpack \<times> pstate) pstep" where
  "pack_value_read again p pk s =
     (if pk_cur_value_num pk = pk_value_num pk then
        (let pk = pk\<lparr>pk_cur_num := u32 (pk_cur_num pk + 1)\<rparr> in
         if pk_cur_num pk = pk_num pk then PDone (p, pk\<lparr>pk_phase := phase_done\<rparr>, s)
         else PCont (p, pack_want phase_elem_name_len 4 pk, s))
      else PCont (p, pack_want again 4 pk, s))"

definition pack_read_value_num ::
  "int sortlib \<Rightarrow> byte list \<Rightarrow> hpack \<Rightarrow> pstate \<Rightarrow> (byte list \<times> hpack \<times> pstate) pstep run" where
  "pack_read_value_num lib p pk s =
     bind_run (hcore_pack_read_int p) (\<lambda>(num, p).
       let pk = pk\<lparr>pk_value_num := num\<rparr> in
       if num = 0 then Ret (PFail (p, pk, s))
       else
         let pk = pk\<lparr>pk_cur_value_num := 0\<rparr> in
         case hcore_pack_elem_create (pk_name pk) (pk_elem_type pk) num s of
           (None, s) \<Rightarrow> Ret (PFail (p, pk, s))
         | (Some (a, el), s) \<Rightarrow>
             (let pk = pack_upd_elem el (pk\<lparr>pk_cur_elem := a\<rparr>) in
              bind_run (hcore_list_insert lib (Some (hcore_pack_cmp_name (pk_heap pk))) (pk_list pk) (Some a) s)
                (\<lambda>(rc, l, s).
                  let pk = pk\<lparr>pk_list := l\<rparr> in
                  if rc \<noteq> HCORE_OK then Ret (PFail (p, pk, s))
                  else if pk_elem_type pk = HCORE_PACK_ELEM_TYPE_INT
                  then Ret (PCont (p, pack_want phase_value_data_int 4 pk, s))
                  else if pk_elem_type pk = HCORE_PACK_ELEM_TYPE_STR \<or> pk_elem_type pk = HCORE_PACK_ELEM_TYPE_DATA
                  then Ret (PCont (p, pack_want phase_value_data_value_len 4 pk, s))
                  else Ret (PFail (p, pk, s)))))"

definition pack_read_data_int ::
  "int \<Rightarrow> byte list \<Rightarrow> hpack \<Rightarrow> pstate \<Rightarrow> (byte list \<times> hpack \<times> pstate) pstep" where
  "pack_read_data_int i p pk s =
     (let pk = pk\<lparr>pk_cur_value_num := u32 (pk_cur_value_num pk + 1)\<rparr> in
      case hcore_pack_elem_add_int (pk_heap pk (pk_cur_elem pk)) i s of
        (rc, el, s) \<Rightarrow>
          (let pk = pack_upd_elem el pk in
           if rc \<noteq> HCORE_OK then PFail (p, pk, s)
           else pack_value_read phase_value_data_int p pk s))"

definition pack_read_value ::
  "byte list \<Rightarrow> hpack \<Rightarrow> pstate \<Rightarrow> (byte list \<times> hpack \<times> pstate) pstep run" where
  "pack_read_value p pk s =
     (let el = pk_heap pk (pk_cur_elem pk); len = nat (pk_value_len pk) in
      if length p < len then Fault
      else
        bind_run
          (if pk_elem_type pk = HCORE_PACK_ELEM_TYPE_STR then hcore_pack_elem_add_str el p len s
           else Ret (hcore_pack_elem_add_data el (take len p) s))
          (\<lambda>(rc, el, s).
            let pk = pack_upd_elem el pk in
            if rc \<noteq> HCORE_OK then Ret (PFail (p, pk, s))
            else Ret (pack_value_read phase_value_data_value_len (drop len p)
                   (pk\<lparr>pk_cur_value_num := u32 (pk_cur_value_num pk + 1)\<rparr>) s)))"

definition pack_read_step ::
  "int sortlib \<Rightarrow> byte list \<Rightarrow> hpack \<Rightarrow> pstate \<Rightarrow> (byte list \<times> hpack \<times> pstate) pstep run" where
  "pack_read_step lib p pk s =
     (case pk_phase pk of
        phase_init \<Rightarrow>
          bind_run (hcore_pack_read_int p) (\<lambda>(num, p).
            if num = 0 then Ret (PFail (p, pk, s))
            else Ret (PCont (p, pack_want phase_elem_name_len 4 (pk\<lparr>pk_num := num, pk_cur_num := 0\<rparr>), s)))
      | phase_elem_name_len \<Rightarrow>
          (if pk_max pk \<noteq> 0 \<and> pk_max pk < pk_num pk then Ret (PFail (p, pk, s))
           else bind_run (hcore_pack_read_int p) (\<lambda>(len, p).
             Ret (PCont (p, pack_want phase_elem_name len (pk\<lparr>pk_name_len := len\<rparr>), s))))
      | phase_elem_name \<Rightarrow>
          (case hcore_pnalloc (fst s) (pk_name_len pk) (snd s) of
             (None, q, e) \<Rightarrow> Ret (PFail (p, pk, q, e))
           | (Some a, q, e) \<Rightarrow>
               if int (length p) < pk_name_len pk then Fault
               else Ret (PCont (drop (nat (pk_name_len pk)) p,
                      pack_want phase_elem_type 4 (pk\<lparr>pk_name := take (nat (pk_name_len pk)) p\<rparr>), q, e)))
      | phase_elem_type \<Rightarrow>
          bind_run (hcore_pack_read_int p) (\<lambda>(type, p).
            Ret (PCont (p, pack_want phase_value_num 4 (pk\<lparr>pk_elem_type := type\<rparr>), s)))
      | phase_value_num \<Rightarrow> pack_read_value_num lib p pk s
      | phase_value_data_int \<Rightarrow>
          bind_run (hcore_pack_read_int p) (\<lambda>(i, p). Ret (pack_read_data_int i p pk s))
      | phase_value_data_value_len \<Rightarrow>
          bind_run (hcore_pack_read_int p) (\<lambda>(len, p).
            Ret (PCont (p, pack_want phase_value_data_value len (pk\<lparr>pk_value_len := len\<rparr>), s)))
      | phase_value_data_value \<Rightarrow> pack_read_value p pk s
      | phase_done \<Rightarrow> Ret (PDone (p, pk, s)))"

text \<open>Every turn either reads bytes or leaves a phase that may read none.\<close>

definition phase_weight :: "pack_phase \<Rightarrow> nat" where
  "phase_weight ph = (if ph = phase_elem_name \<or> ph = phase_value_data_value then 1 else 0)"

definition pack_left :: "byte list \<Rightarrow> hpack \<Rightarrow> nat" where
  "pack_left p pk = 2 * length p + phase_weight (pk_phase pk)"

lemma pack_read_int_Ret: "hcore_pack_read_int p = Ret (i, q) \<longleftrightarrow>
    (\<exists>a b c d. p = a # b # c # d # q \<and> i = uint (of_memory a b c d))"
  by (auto simp: hcore_pack_read_int_def split: list.splits)

lemma pack_value_read_cases:
  assumes "pack_value_read again p pk s = PCont (p', pk', s')"
  shows "p' = p" and "pk_phase pk' = again \<or> pk_phase pk' = phase_elem_name_len"
  using assms by (auto simp: pack_value_read_def pack_want_def Let_def split: if_splits)

lemma pack_read_value_num_left:
  assumes "pack_read_value_num lib p pk s = Ret (PCont (p', pk', s'))"
  shows "length p' + 4 = length p \<and> phase_weight (pk_phase pk') = 0"
  using assms
  by (auto simp: pack_read_value_num_def bind_run_Ret_iff pack_read_int_Ret Let_def pack_want_def
      phase_weight_def split: if_splits option.splits prod.splits)

lemma pack_read_value_left:
  assumes "pack_read_value p pk s = Ret (PCont (p', pk', s'))"
  shows "length p' \<le> length p \<and> phase_weight (pk_phase pk') = 0"
  using assms
  by (auto simp: pack_read_value_def bind_run_Ret_iff Let_def phase_weight_def
      split: if_splits prod.splits dest: pack_value_read_cases)

lemma pack_read_data_int_left:
  assumes "pack_read_data_int i p pk s = PCont (p', pk', s')"
  shows "p' = p \<and> phase_weight (pk_phase pk') = 0"
  using assms
  by (auto simp: pack_read_data_int_def Let_def phase_weight_def split: if_splits prod.splits
      dest: pack_value_read_cases)

lemma pack_read_step_left:
  assumes "pack_read_step lib p pk s = Ret (PCont (p', pk', s'))"
  shows "pack_left p' pk' < pack_left p pk"
proof (cases "pk_phase pk")
  case phase_value_num
  then show ?thesis using assms pack_read_value_num_left [of lib p pk s p' pk' s']
    by (simp add: pack_read_step_def pack_left_def)
next
  case phase_value_data_value
  then show ?thesis using assms pack_read_value_left [of p pk s p' pk' s']
    by (auto simp: pack_read_step_def pack_left_def phase_weight_def)
next
  case phase_value_data_int
  then show ?thesis using assms
    by (auto simp: pack_read_step_def pack_left_def bind_run_Ret_iff pack_read_int_Ret
        dest!: pack_read_data_int_left)
qed (use assms in \<open>auto simp: pack_read_step_def pack_left_def bind_run_Ret_iff pack_read_int_Ret Let_def
      pack_want_def phase_weight_def split: if_splits option.splits prod.splits\<close>)

text \<open>The loop; \<open>n\<close> is \<open>last - p\<close>. The result is what is left of the buffer, or \<open>None\<close> for -1.\<close>

function pack_read_loop ::
  "int sortlib \<Rightarrow> int \<Rightarrow> byte list \<Rightarrow> hpack \<Rightarrow> pstate \<Rightarrow> (int option \<times> hpack \<times> pstate) run" where
  "pack_read_loop lib n p pk s =
     (if pk_need pk \<le> n then
        (case pack_read_step lib p pk s of
           Fault \<Rightarrow> Fault
         | Ret (PFail (q, pk, s)) \<Rightarrow> Ret (None, pk, s)
         | Ret (PDone (q, pk, s)) \<Rightarrow> Ret (Some (n - (int (length p) - int (length q))), pk, s)
         | Ret (PCont (q, pk, s)) \<Rightarrow>
             pack_read_loop lib (n - (int (length p) - int (length q))) q pk s)
      else Ret (Some n, pk, s))"
  by pat_completeness auto
termination
  by (relation "measure (\<lambda>(lib, n, p, pk, s). pack_left p pk)") (auto dest: pack_read_step_left)

declare pack_read_loop.simps [simp del]

definition hcore_pack_read ::
  "int sortlib \<Rightarrow> byte list \<Rightarrow> int \<Rightarrow> hpack \<Rightarrow> pstate \<Rightarrow> (int \<times> hpack \<times> pstate) run" where
  "hcore_pack_read lib buffer len pk s =
     (if len < 0 then Ret (-1, pk, s)
      else bind_run (pack_read_loop lib len buffer pk s)
        (\<lambda>(r, pk, s). Ret (case r of None \<Rightarrow> -1 | Some n \<Rightarrow> len - n, pk, s)))"

definition hcore_pack_is_done :: "hpack \<Rightarrow> bool" where
  "hcore_pack_is_done pk \<longleftrightarrow> pk_phase pk = phase_done"

subsection \<open>Adding values\<close>

text \<open>What hcore_pack_add_int, hcore_pack_add_str and hcore_pack_add_data pass on: an integer, a
  string as the object it is in and its length, or data.\<close>

datatype pack_arg =
  AInt int
| AStr "byte list" nat
| AData "byte list"

definition arg_type :: "pack_arg \<Rightarrow> int" where
  "arg_type v = (case v of AInt i \<Rightarrow> HCORE_PACK_ELEM_TYPE_INT | AStr b n \<Rightarrow> HCORE_PACK_ELEM_TYPE_STR
     | AData b \<Rightarrow> HCORE_PACK_ELEM_TYPE_DATA)"

text \<open>The target of the search is an element on the stack, at an address no pool hands out.\<close>

definition stack_elem :: int where
  "stack_elem = -1"

definition hcore_pack_elem_get :: "int sortlib \<Rightarrow> hpack \<Rightarrow> byte list \<Rightarrow> int \<Rightarrow> int option \<times> hpack" where
  "hcore_pack_elem_get lib pk name type =
     (let t = (pk_heap pk stack_elem)\<lparr>e_name := name, e_type := type\<rparr>;
          heap = (pk_heap pk)(stack_elem := t)
      in case hcore_list_search lib (Some (hcore_pack_cmp_name heap)) (pk_list pk) (Some stack_elem) of
           (r, l) \<Rightarrow> (r, pk\<lparr>pk_list := l\<rparr>))"

definition pack_add_to_elem :: "int \<Rightarrow> pack_arg \<Rightarrow> hpack \<Rightarrow> pstate \<Rightarrow> (int \<times> hpack \<times> pstate) run" where
  "pack_add_to_elem a v pk s =
     (case v of
        AInt i \<Rightarrow>
          (case hcore_pack_elem_add_int (pk_heap pk a) i s of
             (rc, el, s) \<Rightarrow> Ret (rc, pk\<lparr>pk_total := u64 (pk_total pk + 4), pk_heap := (pk_heap pk)(a := el)\<rparr>, s))
      | AStr b n \<Rightarrow>
          bind_run (hcore_pack_elem_add_str (pk_heap pk a) b n s) (\<lambda>(rc, el, s).
            Ret (rc, pk\<lparr>pk_total := u64 (u64 (pk_total pk + 4) + int n), pk_heap := (pk_heap pk)(a := el)\<rparr>, s))
      | AData b \<Rightarrow>
          (case hcore_pack_elem_add_data (pk_heap pk a) b s of
             (rc, el, s) \<Rightarrow>
               Ret (rc, pk\<lparr>pk_total := u64 (u64 (pk_total pk + 4) + int (length b)),
                           pk_heap := (pk_heap pk)(a := el)\<rparr>, s)))"

definition hcore_pack_add_value ::
  "int sortlib \<Rightarrow> hpack \<Rightarrow> byte list \<Rightarrow> pack_arg \<Rightarrow> pstate \<Rightarrow> (int \<times> hpack \<times> pstate) run" where
  "hcore_pack_add_value lib pk name v s =
     (case hcore_pack_elem_get lib pk name (arg_type v) of
        (Some a, pk) \<Rightarrow> pack_add_to_elem a v pk s
      | (None, pk) \<Rightarrow>
          (if pk_max pk \<noteq> 0 \<and> pk_max pk \<le> l_num (pk_list pk) then Ret (HCORE_ERROR, pk, s)
           else case hcore_pack_elem_create name (arg_type v) 0 s of
                  (None, s) \<Rightarrow> Ret (HCORE_ERROR, pk, s)
                | (Some (a, el), s) \<Rightarrow>
                    (let pk = pk\<lparr>pk_heap := (pk_heap pk)(a := el)\<rparr> in
                     bind_run (hcore_list_insert lib (Some (hcore_pack_cmp_name (pk_heap pk))) (pk_list pk) (Some a) s)
                       (\<lambda>(rc, l, s).
                         let pk = pk\<lparr>pk_list := l\<rparr> in
                         if rc \<noteq> HCORE_OK then Ret (HCORE_ERROR, pk, s)
                         else pack_add_to_elem a v
                                (pk\<lparr>pk_total := u64 (u64 (u64 (u64 (pk_total pk + 4) + int (length name)) + 4) + 4)\<rparr>) s))))"

text \<open>The null pointers of the interface return HCORE_ERROR. A C string is its object: its length is
  that of the bytes before the terminator, and one without a terminator is \<open>Fault\<close>.\<close>

definition c_string :: "byte list \<Rightarrow> byte list run" where
  "c_string obj = (if 0 \<in> set obj then Ret (takeWhile (\<lambda>c. c \<noteq> 0) obj) else Fault)"

definition hcore_pack_add_int ::
  "int sortlib \<Rightarrow> hpack \<Rightarrow> byte list option \<Rightarrow> int \<Rightarrow> pstate \<Rightarrow> (int \<times> hpack \<times> pstate) run" where
  "hcore_pack_add_int lib pk name i s =
     (case name of None \<Rightarrow> Ret (HCORE_ERROR, pk, s)
      | Some nm \<Rightarrow> bind_run (c_string nm) (\<lambda>nm. hcore_pack_add_value lib pk nm (AInt i) s))"

definition hcore_pack_add_str ::
  "int sortlib \<Rightarrow> hpack \<Rightarrow> byte list option \<Rightarrow> (byte list \<times> nat) option \<Rightarrow> pstate \<Rightarrow> (int \<times> hpack \<times> pstate) run" where
  "hcore_pack_add_str lib pk name str s =
     (case (name, str) of
        (Some nm, Some (b, n)) \<Rightarrow> bind_run (c_string nm) (\<lambda>nm. hcore_pack_add_value lib pk nm (AStr b n) s)
      | _ \<Rightarrow> Ret (HCORE_ERROR, pk, s))"

definition hcore_pack_add_str_char ::
  "int sortlib \<Rightarrow> hpack \<Rightarrow> byte list option \<Rightarrow> byte list option \<Rightarrow> pstate \<Rightarrow> (int \<times> hpack \<times> pstate) run" where
  "hcore_pack_add_str_char lib pk name str s =
     (case (name, str) of
        (Some nm, Some b) \<Rightarrow>
          bind_run (c_string b) (\<lambda>t.
          bind_run (c_string nm) (\<lambda>nm. hcore_pack_add_value lib pk nm (AStr b (length t)) s))
      | _ \<Rightarrow> Ret (HCORE_ERROR, pk, s))"

definition hcore_pack_add_data ::
  "int sortlib \<Rightarrow> hpack \<Rightarrow> byte list option \<Rightarrow> byte list option \<Rightarrow> pstate \<Rightarrow> (int \<times> hpack \<times> pstate) run" where
  "hcore_pack_add_data lib pk name data s =
     (case (name, data) of
        (Some nm, Some b) \<Rightarrow> bind_run (c_string nm) (\<lambda>nm. hcore_pack_add_value lib pk nm (AData b) s)
      | _ \<Rightarrow> Ret (HCORE_ERROR, pk, s))"

subsection \<open>Getting values\<close>

text \<open>The values of an element of the given type, and their number; \<open>None\<close> is HCORE_ERROR.\<close>

definition pack_get_array ::
  "int \<Rightarrow> int sortlib \<Rightarrow> hpack \<Rightarrow> byte list \<Rightarrow> ((pvalue list \<times> int) option \<times> hpack) run" where
  "pack_get_array type lib pk name =
     bind_run (c_string name) (\<lambda>nm.
       case hcore_pack_elem_get lib pk nm type of
         (None, pk) \<Rightarrow> Ret (None, pk)
       | (Some a, pk) \<Rightarrow>
           (let el = pk_heap pk a in
            Ret (if ar_nelts (e_array el) = 0 then None else Some (e_vals el, ar_nelts (e_array el)), pk)))"

definition hcore_pack_get_int_array ::
  "int sortlib \<Rightarrow> hpack \<Rightarrow> byte list \<Rightarrow> ((pvalue list \<times> int) option \<times> hpack) run" where
  "hcore_pack_get_int_array = pack_get_array HCORE_PACK_ELEM_TYPE_INT"

definition hcore_pack_get_str_array ::
  "int sortlib \<Rightarrow> hpack \<Rightarrow> byte list \<Rightarrow> ((pvalue list \<times> int) option \<times> hpack) run" where
  "hcore_pack_get_str_array = pack_get_array HCORE_PACK_ELEM_TYPE_STR"

definition hcore_pack_get_data_array ::
  "int sortlib \<Rightarrow> hpack \<Rightarrow> byte list \<Rightarrow> ((pvalue list \<times> int) option \<times> hpack) run" where
  "hcore_pack_get_data_array = pack_get_array HCORE_PACK_ELEM_TYPE_DATA"

text \<open>The first value, or what the result is set to before the search.\<close>

definition pack_get_first :: "pvalue \<Rightarrow> (pvalue list \<times> int) option \<times> hpack \<Rightarrow> int \<times> pvalue \<times> hpack" where
  "pack_get_first dflt r =
     (case r of (None, pk) \<Rightarrow> (HCORE_ERROR, dflt, pk) | (Some (vs, n), pk) \<Rightarrow> (HCORE_OK, hd vs, pk))"

definition hcore_pack_get_int :: "int sortlib \<Rightarrow> hpack \<Rightarrow> byte list \<Rightarrow> (int \<times> pvalue \<times> hpack) run" where
  "hcore_pack_get_int lib pk name =
     bind_run (hcore_pack_get_int_array lib pk name) (\<lambda>r. Ret (pack_get_first (PInt 0) r))"

definition hcore_pack_get_str :: "int sortlib \<Rightarrow> hpack \<Rightarrow> byte list \<Rightarrow> (int \<times> pvalue \<times> hpack) run" where
  "hcore_pack_get_str lib pk name =
     bind_run (hcore_pack_get_str_array lib pk name) (\<lambda>r. Ret (pack_get_first (PBytes []) r))"

definition hcore_pack_get_data :: "int sortlib \<Rightarrow> hpack \<Rightarrow> byte list \<Rightarrow> (int \<times> pvalue \<times> hpack) run" where
  "hcore_pack_get_data lib pk name =
     bind_run (hcore_pack_get_data_array lib pk name) (\<lambda>r. Ret (pack_get_first (PBytes []) r))"

subsection \<open>The order is an order\<close>

lemma memcmp_sign:
  "length xs = length ys \<Longrightarrow> hcore_memcmp xs ys < 0 \<longleftrightarrow> 0 < hcore_memcmp ys xs"
  by (induction xs ys rule: list_induct2) auto

lemma memcmp_zero: "length xs = length ys \<Longrightarrow> hcore_memcmp xs ys = 0 \<longleftrightarrow> xs = ys"
  by (induction xs ys rule: list_induct2) (auto simp: word_uint_eq_iff)

lemma memcmp_trans:
  "length xs = length ys \<Longrightarrow> length ys = length zs \<Longrightarrow>
     hcore_memcmp xs ys \<le> 0 \<Longrightarrow> hcore_memcmp ys zs \<le> 0 \<Longrightarrow> hcore_memcmp xs zs \<le> 0"
proof (induction xs ys zs rule: list_induct3)
  case (Cons x xs y ys z zs)
  have "a \<noteq> b \<Longrightarrow> uint a \<noteq> uint b" for a b :: byte by (simp add: word_uint_eq_iff)
  then have "x \<noteq> y \<Longrightarrow> uint x < uint y" "y \<noteq> z \<Longrightarrow> uint y < uint z"
    using Cons.prems by (fastforce split: if_splits)+
  then show ?case using Cons by (cases "x = y"; cases "y = z"; cases "x = z") auto
qed simp

definition pack_key_ok :: "pack_elem \<Rightarrow> bool" where
  "pack_key_ok el \<longleftrightarrow> 0 \<le> e_type el \<and> e_type el \<le> 2147483647 \<and> length (e_name el) \<le> 2147483647"

text \<open>Types and lengths that fit \<open>int\<close> do not wrap in the differences.\<close>

lemma i32_u64: "-2147483648 \<le> x \<Longrightarrow> x \<le> 2147483647 \<Longrightarrow> i32 (u64 x) = x"
proof -
  assume x: "-2147483648 \<le> x" "x \<le> 2147483647"
  have cancel: "x mod 18446744073709551616 mod 4294967296 = x mod 4294967296"
    by (rule mod_mod_cancel) simp
  have "(y + 2147483648) mod 4294967296 = (y mod 4294967296 + 2147483648) mod 4294967296" for y :: int
    by (rule mod_add_left_eq [symmetric])
  then have "(x mod 18446744073709551616 + 2147483648) mod 4294967296 = (x + 2147483648) mod 4294967296"
    using cancel by metis
  then show ?thesis using x i32_id [OF x] by (simp add: i32_def u64_def)
qed

lemma pack_elem_cmp_key:
  assumes "pack_key_ok a" "pack_key_ok b"
  shows "pack_elem_cmp a b =
    (if e_type a \<noteq> e_type b then e_type a - e_type b
     else if length (e_name a) \<noteq> length (e_name b) then int (length (e_name a)) - int (length (e_name b))
     else hcore_memcmp (e_name a) (e_name b))"
  using assms by (auto simp: pack_elem_cmp_def pack_key_ok_def i32_id i32_u64)

interpretation pack_order: comparator pack_elem_cmp "Collect pack_key_ok"
proof
  fix a b
  assume "a \<in> Collect pack_key_ok" "b \<in> Collect pack_key_ok"
  then show "pack_elem_cmp a b < 0 \<longleftrightarrow> 0 < pack_elem_cmp b a"
    by (auto simp: pack_elem_cmp_key memcmp_sign)
next
  fix a b c
  assume "a \<in> Collect pack_key_ok" "b \<in> Collect pack_key_ok" "c \<in> Collect pack_key_ok"
    and "pack_elem_cmp a b \<le> 0" "pack_elem_cmp b c \<le> 0"
  then show "pack_elem_cmp a c \<le> 0"
    using memcmp_trans [of "e_name a" "e_name b" "e_name c"]
    by (auto simp: pack_elem_cmp_key split: if_splits)
qed

text \<open>On the pointers of a list, as the list's code calls it.\<close>

lemma pack_cmp_name_comparator:
  assumes "\<And>a. a \<in> S \<Longrightarrow> pack_key_ok (heap a)"
  shows "comparator (hcore_pack_cmp_name heap) S"
proof
  fix a b assume "a \<in> S" "b \<in> S"
  then show "hcore_pack_cmp_name heap a b < 0 \<longleftrightarrow> 0 < hcore_pack_cmp_name heap b a"
    using assms pack_order.cmp_swap by (simp add: hcore_pack_cmp_name_def)
next
  fix a b c assume "a \<in> S" "b \<in> S" "c \<in> S"
    and "hcore_pack_cmp_name heap a b \<le> 0" "hcore_pack_cmp_name heap b c \<le> 0"
  then show "hcore_pack_cmp_name heap a c \<le> 0"
    using assms pack_order.cmp_trans [of "heap a" "heap b" "heap c"] by (simp add: hcore_pack_cmp_name_def)
qed

lemma pack_cmp_zero:
  assumes "pack_key_ok a" "pack_key_ok b"
  shows "pack_elem_cmp a b = 0 \<longleftrightarrow> e_type a = e_type b \<and> e_name a = e_name b"
  using assms by (auto simp: pack_elem_cmp_key memcmp_zero)



subsection \<open>The wire format\<close>

fun enc_val :: "pvalue \<Rightarrow> byte list" where
  "enc_val (PInt i) = hcore_pack_write_int i"
| "enc_val (PBytes b) = hcore_pack_write_str b"
| "enc_val PUninit = []"

fun val_ok :: "int \<Rightarrow> pvalue \<Rightarrow> bool" where
  "val_ok type (PInt i) = (type = HCORE_PACK_ELEM_TYPE_INT \<and> 0 \<le> i \<and> i < 4294967296)"
| "val_ok type (PBytes b) = ((type = HCORE_PACK_ELEM_TYPE_STR \<and> 0 \<notin> set b \<or> type = HCORE_PACK_ELEM_TYPE_DATA)
     \<and> length b < 4294967296)"
| "val_ok type PUninit = False"

definition enc_elem :: "pack_elem \<Rightarrow> byte list" where
  "enc_elem el = hcore_pack_write_str (e_name el) @ hcore_pack_write_int (e_type el)
     @ hcore_pack_write_int (int (length (e_vals el))) @ concat (map enc_val (e_vals el))"

definition elem_ok :: "pack_elem \<Rightarrow> bool" where
  "elem_ok el \<longleftrightarrow> pack_key_ok el \<and> e_vals el \<noteq> [] \<and> (\<forall>v\<in>set (e_vals el). val_ok (e_type el) v)
     \<and> ar_nelts (e_array el) = int (length (e_vals el)) \<and> length (e_vals el) < 4294967296"

lemma write_values_enc:
  "\<forall>v\<in>set vs. val_ok type v \<Longrightarrow> pack_write_values type vs = Ret (concat (map enc_val vs))"
proof (induction vs)
  case (Cons v vs)
  then show ?case by (cases v) auto
qed simp

lemma write_elem_enc: "elem_ok el \<Longrightarrow> pack_write_elem el = Ret (enc_elem el)"
  by (simp add: pack_write_elem_def elem_ok_def enc_elem_def write_values_enc)

lemma write_elems_enc: "\<forall>el\<in>set els. elem_ok el \<Longrightarrow> pack_write_elems els = Ret (concat (map enc_elem els))"
  by (induction els) (simp_all add: write_elem_enc)

lemma write_int_length [simp]: "length (hcore_pack_write_int i) = 4"
  by (simp add: hcore_pack_write_int_def Let_def)

lemma read_write_int [simp]:
  assumes "0 \<le> i" "i < 4294967296"
  shows "hcore_pack_read_int (hcore_pack_write_int i @ p) = Ret (i, p)"
proof -
  have "uint (word_of_int i :: word32) = i" using assms by (simp add: uint_word_of_int)
  then show ?thesis
    by (simp add: hcore_pack_read_int_def hcore_pack_write_int_def Let_def of_memory_byte_at [simplified])
qed

end
