(* ===== verification/HPackRound.thy ===== *)
theory HPackRound
  imports HPack HSupply
begin

section \<open>Packs: what is written is read back (src/hcore_pack.c)\<close>

text \<open>
  hcore_pack_read on the bytes hcore_pack_write makes. The lemmas follow the state machine: one
  value, the values of an element, one element, all elements. Memory is granted by the system as
  often as the element needs it, \<open>elem_cost\<close>; that no element is placed over another follows from
  the pool's invariant.
\<close>

subsection \<open>One turn of the loop\<close>

definition loop_next :: "int sortlib \<Rightarrow> int \<Rightarrow> (byte list \<times> hpack \<times> pstate) pstep \<Rightarrow> (int option \<times> hpack \<times> pstate) run" where
  "loop_next lib n r = (case r of PFail (q, pk, s) \<Rightarrow> Ret (None, pk, s) | PDone (q, pk, s) \<Rightarrow> Ret (Some n, pk, s)
     | PCont (q, pk, s) \<Rightarrow> pack_read_loop lib n q pk s)"

lemma read_loop_turn:
  assumes "pk_need pk \<le> n" and "pack_read_step lib (b @ q) pk s = Ret (PCont (q, pk', s'))"
  shows "pack_read_loop lib n (b @ q) pk s = pack_read_loop lib (n - int (length b)) q pk' s'"
  using assms by (subst pack_read_loop.simps) simp

lemma read_loop_value:
  assumes "pk_need pk \<le> n" and "pack_read_step lib (b @ q) pk s = Ret (pack_value_read ph q pk' s')"
  shows "pack_read_loop lib n (b @ q) pk s = loop_next lib (n - int (length b)) (pack_value_read ph q pk' s')"
  using assms by (subst pack_read_loop.simps) (auto simp: loop_next_def pack_value_read_def Let_def)

lemma snprintf_s:
  assumes "0 \<notin> set b" and "q \<noteq> []"
  shows "hcore_snprintf ops (length b) (bytes ''%s'' @ [0]) [VStr (b @ q)] = Ret b"
proof -
  have fmt: "bytes ''%s'' @ [0] = [37, 115, 0]" by (simp add: bytes_def of_char_def)
  have copy: "copy_cstr (length b) (b @ q) = Ret b" using assms by (induction b) (auto split: list.splits)
  show ?thesis
  proof (cases "b = []")
    case True
    then show ?thesis by (simp add: hcore_snprintf_def fmt hcore_vslprintf.simps [of _ _ _ "[37, 115, 0]"])
  next
    case False
    then show ?thesis using copy
      by (simp add: hcore_snprintf_def fmt hcore_vslprintf.simps [of _ _ _ "[37, 115, 0]"] conversion_def
          is_digit_def convert_def conv_text_def fspec_init_def hcore_vslprintf.simps [of _ _ _ "[0]"])
  qed
qed

subsection \<open>One value\<close>

text \<open>The reader in the middle of an element: the element under construction at its address, and the
  counters that agree with it.\<close>

definition reading :: "hpack \<Rightarrow> pack_elem \<Rightarrow> bool" where
  "reading pk el \<longleftrightarrow> pk_heap pk (pk_cur_elem pk) = el \<and> pk_elem_type pk = e_type el
     \<and> pk_cur_value_num pk = int (length (e_vals el)) \<and> ar_nelts (e_array el) = int (length (e_vals el))
     \<and> ar_nalloc (e_array el) = pk_value_num pk \<and> pk_value_num pk < 4294967296"

definition same_frame :: "hpack \<Rightarrow> hpack \<Rightarrow> bool" where
  "same_frame pk pk' \<longleftrightarrow> pk_list pk' = pk_list pk \<and> pk_num pk' = pk_num pk \<and> pk_cur_num pk' = pk_cur_num pk
     \<and> pk_max pk' = pk_max pk \<and> pk_cur_elem pk' = pk_cur_elem pk \<and> pk_value_num pk' = pk_value_num pk
     \<and> (\<forall>a. a \<noteq> pk_cur_elem pk \<longrightarrow> pk_heap pk' a = pk_heap pk a)"

lemma same_frame_trans: "same_frame p q \<Longrightarrow> same_frame q r \<Longrightarrow> same_frame p r"
  by (simp add: same_frame_def)

definition value_phase :: "int \<Rightarrow> pack_phase" where
  "value_phase type = (if type = HCORE_PACK_ELEM_TYPE_INT then phase_value_data_int else phase_value_data_value_len)"

definition value_bytes :: "pvalue \<Rightarrow> byte list" where
  "value_bytes v = (case v of PBytes b \<Rightarrow> b | _ \<Rightarrow> [])"

definition with_value :: "pack_elem \<Rightarrow> pvalue \<Rightarrow> pack_elem" where
  "with_value el v = el\<lparr>e_array := (e_array el)\<lparr>ar_nelts := ar_nelts (e_array el) + 1\<rparr>, e_vals := e_vals el @ [v]\<rparr>"

text \<open>Pushing into the room the array was created with asks nothing of the pool.\<close>

lemma push_reading:
  assumes "reading pk el" and "int (length (e_vals el)) < pk_value_num pk"
  shows "\<exists>a. hcore_array_push (e_array el) p e = (Some a, (e_array el)\<lparr>ar_nelts := ar_nelts (e_array el) + 1\<rparr>, p, e)"
  using assms by (simp add: reading_def array_push_room u32_id)

lemma add_data_reading:
  assumes "reading pk el" and "int (length (e_vals el)) < pk_value_num pk"
    and s: "granted psz G (Suc (Suc k)) s" and "int (length b) \<le> G"
  obtains t where "hcore_pack_elem_add_data el b s = (HCORE_OK, with_value el (PBytes b), t)"
    "granted psz G k t" "took G s {} t"
proof -
  obtain a where a: "hcore_array_push (e_array el) (fst s) (snd s)
      = (Some a, (e_array el)\<lparr>ar_nelts := ar_nelts (e_array el) + 1\<rparr>, fst s, snd s)"
    using push_reading [OF assms(1,2)] by blast
  obtain d t where d: "hcore_pnalloc (fst s) (int (length b)) (snd s) = (Some d, t)" "granted psz G k t"
    "took G s (mem_region (d, int (length b))) t" using granted_alloc [OF s _ assms(4)] by auto
  show thesis using a d that [of t] took_none [OF d(3)]
    by (cases s; cases t) (simp add: hcore_pack_elem_add_data_def with_value_def)
qed

lemma add_str_reading:
  assumes "reading pk el" and "int (length (e_vals el)) < pk_value_num pk"
    and s: "granted psz G (Suc (Suc k)) s" and "int (length b) + 1 \<le> G" and "0 \<notin> set b" "q \<noteq> []"
  obtains t where "hcore_pack_elem_add_str el (b @ q) (length b) s = Ret (HCORE_OK, with_value el (PBytes b), t)"
    "granted psz G k t" "took G s {} t"
proof -
  obtain a where a: "hcore_array_push (e_array el) (fst s) (snd s)
      = (Some a, (e_array el)\<lparr>ar_nelts := ar_nelts (e_array el) + 1\<rparr>, fst s, snd s)"
    using push_reading [OF assms(1,2)] by blast
  obtain d t where d: "hcore_pnalloc (fst s) (int (length b) + 1) (snd s) = (Some d, t)" "granted psz G k t"
    "took G s (mem_region (d, int (length b) + 1)) t" using granted_alloc [OF s _ assms(4)] by auto
  show thesis using a d that [of t] took_none [OF d(3)] snprintf_s [OF assms(5,6), of whole_ops]
    by (cases s; cases t) (simp add: hcore_pack_elem_add_str_def with_value_def)
qed

text \<open>What reading a value comes to, whatever its type.\<close>

definition value_done :: "int \<Rightarrow> int \<Rightarrow> nat \<Rightarrow> hpack \<Rightarrow> pack_elem \<Rightarrow> pstate \<Rightarrow> hpack \<Rightarrow> pstate \<Rightarrow> bool" where
  "value_done psz G k pk el s pk' s' \<longleftrightarrow> reading pk' el \<and> same_frame pk pk' \<and> granted psz G k s' \<and> took G s {} s'"

lemma reading_with_value:
  assumes "reading pk el" and "int (length (e_vals el)) < pk_value_num pk"
  shows "reading (pack_upd_elem (with_value el v) pk\<lparr>pk_cur_value_num := u32 (pk_cur_value_num pk + 1)\<rparr>) (with_value el v)"
    and "same_frame pk (pack_upd_elem (with_value el v) pk\<lparr>pk_cur_value_num := u32 (pk_cur_value_num pk + 1)\<rparr>)"
  using assms by (auto simp: reading_def pack_upd_elem_def with_value_def u32_id same_frame_def)

lemma upd_elem_count:
  "pack_upd_elem el (pk\<lparr>pk_cur_value_num := n\<rparr>) = pack_upd_elem el pk\<lparr>pk_cur_value_num := n\<rparr>"
  by (cases pk) (simp add: pack_upd_elem_def)

lemma read_int_value:
  assumes rd: "reading pk el" "int (length (e_vals el)) < pk_value_num pk"
    and ph: "pk_phase pk = phase_value_data_int" "pk_need pk = 4" "e_type el = 0" and i: "0 \<le> i" "i < 4294967296"
    and s: "granted psz G (Suc (Suc k)) s" and n: "4 \<le> n"
  obtains pk' where "pack_read_loop lib n (hcore_pack_write_int i @ q) pk s
      = loop_next lib (n - 4) (pack_value_read phase_value_data_int q pk' s)"
    and "value_done psz G k pk (with_value el (PInt i)) s pk' s"
proof -
  define pk' where "pk' = pack_upd_elem (with_value el (PInt i)) pk\<lparr>pk_cur_value_num := u32 (pk_cur_value_num pk + 1)\<rparr>"
  obtain a where "hcore_array_push (e_array el) (fst s) (snd s)
      = (Some a, (e_array el)\<lparr>ar_nelts := ar_nelts (e_array el) + 1\<rparr>, fst s, snd s)"
    using push_reading [OF rd] by blast
  moreover have "pk_heap pk (pk_cur_elem pk) = el" using rd by (simp add: reading_def)
  ultimately have "pack_read_step lib (hcore_pack_write_int i @ q) pk s
      = Ret (pack_value_read phase_value_data_int q pk' s)"
    using i ph by (simp add: pack_read_step_def pack_read_data_int_def hcore_pack_elem_add_int_def
        with_value_def pk'_def upd_elem_count)
  then have "pack_read_loop lib n (hcore_pack_write_int i @ q) pk s
      = loop_next lib (n - 4) (pack_value_read phase_value_data_int q pk' s)"
    using read_loop_value [of pk n lib "hcore_pack_write_int i" q s] n ph(2) by simp
  moreover have "value_done psz G k pk (with_value el (PInt i)) s pk' s"
    using reading_with_value [OF rd] granted_mono [OF s, of k] by (simp add: value_done_def pk'_def took_def)
  ultimately show thesis by (rule that)
qed

lemma read_bytes_value:
  assumes rd: "reading pk el" "int (length (e_vals el)) < pk_value_num pk"
    and ph: "pk_phase pk = phase_value_data_value_len" "pk_need pk = 4" and v: "val_ok (e_type el) (PBytes b)"
    and s: "granted psz G (Suc (Suc k)) s" and G: "int (length b) + 1 \<le> G"
    and n: "4 + int (length b) \<le> n" and q: "q \<noteq> []"
  obtains pk' s' where "pack_read_loop lib n (hcore_pack_write_str b @ q) pk s
      = loop_next lib (n - int (length (hcore_pack_write_str b)))
          (pack_value_read phase_value_data_value_len q pk' s')"
    and "value_done psz G k pk (with_value el (PBytes b)) s pk' s'"
proof -
  define len where "len = int (length b)"
  have len: "0 \<le> len" "len < 4294967296" "nat len = length b" using v by (auto simp: len_def)
  define pk1 where "pk1 = pack_want phase_value_data_value len (pk\<lparr>pk_value_len := len\<rparr>)"
  have step1: "pack_read_step lib (hcore_pack_write_int len @ (b @ q)) pk s = Ret (PCont (b @ q, pk1, s))"
    using ph len by (simp add: pack_read_step_def pk1_def)
  then have turn1: "pack_read_loop lib n (hcore_pack_write_int len @ (b @ q)) pk s
      = pack_read_loop lib (n - 4) (b @ q) pk1 s"
    using read_loop_turn [of pk n lib "hcore_pack_write_int len" "b @ q"] ph(2) n by simp
  have rd1: "reading pk1 el" "int (length (e_vals el)) < pk_value_num pk1" "same_frame pk pk1"
    using rd by (simp_all add: reading_def same_frame_def pk1_def pack_want_def)
  define el' where "el' = with_value el (PBytes b)"
  obtain t where t: "granted psz G k t" "took G s {} t"
    and add: "(if e_type el = 2 then hcore_pack_elem_add_str el (b @ q) (length b) s
       else Ret (hcore_pack_elem_add_data el b s)) = Ret (HCORE_OK, el', t)"
  proof (cases "e_type el = 2")
    case True
    then have "0 \<notin> set b" using v by simp
    then obtain t where "hcore_pack_elem_add_str el (b @ q) (length b) s = Ret (HCORE_OK, el', t)"
      "granted psz G k t" "took G s {} t"
      using add_str_reading [OF rd s G _ q] unfolding el'_def by metis
    then show thesis using True that by simp
  next
    case False
    obtain t where "hcore_pack_elem_add_data el b s = (HCORE_OK, el', t)" "granted psz G k t" "took G s {} t"
      using add_data_reading [OF rd s, of b] G unfolding el'_def by auto
    then show thesis using False that by simp
  qed
  define pk2 where "pk2 = pack_upd_elem el' pk1\<lparr>pk_cur_value_num := u32 (pk_cur_value_num pk1 + 1)\<rparr>"
  have f: "pk_heap pk1 (pk_cur_elem pk1) = el" "pk_elem_type pk1 = e_type el" "nat (pk_value_len pk1) = length b"
    "pk_phase pk1 = phase_value_data_value" "pk_need pk1 = len"
    using rd1 len by (simp_all add: reading_def) (simp_all add: pk1_def pack_want_def)
  have tk: "take (length b) (b @ q) = b" by simp
  have "pack_read_step lib (b @ q) pk1 s = Ret (pack_value_read phase_value_data_value_len q pk2 t)"
    unfolding pack_read_step_def f(4) pack_phase.case pack_read_value_def Let_def f(1-3) tk add
    by (simp add: pk2_def pack_upd_elem_def)
  then have turn2: "pack_read_loop lib (n - 4) (b @ q) pk1 s
      = loop_next lib (n - 4 - len) (pack_value_read phase_value_data_value_len q pk2 t)"
    using read_loop_value [of pk1 "n - 4" lib b q s] n f(5) by (simp add: len_def)
  have "same_frame pk pk2" "reading pk2 el'"
    using same_frame_trans [OF rd1(3)] reading_with_value [OF rd1(1,2)] by (simp_all add: pk2_def el'_def)
  then have "value_done psz G k pk el' s pk2 t" using t by (simp add: value_done_def)
  moreover have "pack_read_loop lib n (hcore_pack_write_str b @ q) pk s
      = loop_next lib (n - int (length (hcore_pack_write_str b))) (pack_value_read phase_value_data_value_len q pk2 t)"
    using turn1 turn2 by (simp add: hcore_pack_write_str_def len_def algebra_simps)
  ultimately show thesis using that by (simp add: el'_def)
qed

lemma read_value:
  assumes rd: "reading pk el" "int (length (e_vals el)) < pk_value_num pk"
    and ph: "pk_phase pk = value_phase (e_type el)" "pk_need pk = 4" and v: "val_ok (e_type el) v"
    and s: "granted psz G (Suc (Suc k)) s" and G: "int (length (value_bytes v)) + 1 \<le> G"
    and n: "int (length (enc_val v)) \<le> n" and q: "q \<noteq> []"
  obtains pk' s' where "pack_read_loop lib n (enc_val v @ q) pk s
      = loop_next lib (n - int (length (enc_val v))) (pack_value_read (value_phase (e_type el)) q pk' s')"
    and "value_done psz G k pk (with_value el v) s pk' s'"
proof (cases v)
  case (PInt i)
  then have "e_type el = 0" "0 \<le> i" "i < 4294967296" "4 \<le> n" using v n by simp_all
  moreover from this have "pk_phase pk = phase_value_data_int" using ph(1) by (simp add: value_phase_def)
  ultimately obtain pk' where "pack_read_loop lib n (hcore_pack_write_int i @ q) pk s
      = loop_next lib (n - 4) (pack_value_read phase_value_data_int q pk' s)"
    "value_done psz G k pk (with_value el (PInt i)) s pk' s"
    using read_int_value [OF rd _ ph(2) _ _ _ s] by metis
  then show thesis using that [of pk' s] PInt \<open>e_type el = 0\<close> by (simp add: value_phase_def)
next
  case (PBytes b)
  then have "val_ok (e_type el) (PBytes b)" "e_type el \<noteq> 0" "4 + int (length b) \<le> n"
    using v n by (auto simp: hcore_pack_write_str_def)
  moreover from this have "pk_phase pk = phase_value_data_value_len" "int (length b) + 1 \<le> G"
    using ph(1) G PBytes by (simp_all add: value_phase_def value_bytes_def)
  ultimately obtain pk' s' where "pack_read_loop lib n (hcore_pack_write_str b @ q) pk s
      = loop_next lib (n - int (length (hcore_pack_write_str b))) (pack_value_read phase_value_data_value_len q pk' s')"
    "value_done psz G k pk (with_value el (PBytes b)) s pk' s'"
    using read_bytes_value [OF rd _ ph(2) _ s _ _ q] by metis
  then show thesis using that [of pk' s'] PBytes \<open>e_type el \<noteq> 0\<close> by (simp add: value_phase_def)
next
  case PUninit
  then show thesis using v by simp
qed

subsection \<open>The values of an element\<close>

lemma with_value_simps [simp]:
  "e_type (with_value el v) = e_type el" "e_name (with_value el v) = e_name el"
  "e_vals (with_value el v) = e_vals el @ [v]"
  by (simp_all add: with_value_def)

lemma with_values_simps [simp]:
  "e_type (foldl with_value el vs) = e_type el" "e_name (foldl with_value el vs) = e_name el"
  "e_vals (foldl with_value el vs) = e_vals el @ vs"
  by (induction vs arbitrary: el) simp_all

lemma enc_val_ne: "val_ok type v \<Longrightarrow> enc_val v \<noteq> []"
proof -
  have "hcore_pack_write_int i \<noteq> []" for i by (simp add: hcore_pack_write_int_def Let_def)
  then show "val_ok type v \<Longrightarrow> enc_val v \<noteq> []" by (cases v) (simp_all add: hcore_pack_write_str_def)
qed

lemma value_read_more:
  assumes "pk_cur_value_num pk \<noteq> pk_value_num pk"
  shows "pack_value_read ph q pk s = PCont (q, pack_want ph 4 pk, s)"
  using assms by (simp add: pack_value_read_def)

lemma pack_want_reading:
  "reading (pack_want ph n pk) el = reading pk el" "same_frame p (pack_want ph n pk) = same_frame p pk"
  by (auto simp: reading_def same_frame_def pack_want_def)

lemma read_values:
  assumes "vs \<noteq> []" and "reading pk el" "int (length (e_vals el) + length vs) = pk_value_num pk"
    and "pk_phase pk = value_phase (e_type el)" "pk_need pk = 4"
    and "\<forall>v\<in>set vs. val_ok (e_type el) v \<and> int (length (value_bytes v)) + 1 \<le> G"
    and "granted psz G (k + 2 * length vs) s" and "int (length (concat (map enc_val vs))) \<le> n" and "q \<noteq> []"
  shows "\<exists>pk' s'. pack_read_loop lib n (concat (map enc_val vs) @ q) pk s
      = loop_next lib (n - int (length (concat (map enc_val vs)))) (pack_value_read (value_phase (e_type el)) q pk' s')
    \<and> value_done psz G k pk (foldl with_value el vs) s pk' s'"
  using assms
proof (induction vs arbitrary: pk el s n)
  case Nil
  then show ?case by simp
next
  case (Cons v vs)
  define r where "r = concat (map enc_val vs) @ q"
  have r: "r \<noteq> []" using Cons.prems(9) by (simp add: r_def)
  have v: "val_ok (e_type el) v" "int (length (value_bytes v)) + 1 \<le> G" using Cons.prems(6) by simp_all
  have s: "granted psz G (Suc (Suc (k + 2 * length vs))) s" using Cons.prems(7) by simp
  have room: "int (length (e_vals el)) < pk_value_num pk" using Cons.prems(3) by simp
  have nn: "int (length (enc_val v)) \<le> n" using Cons.prems(8) by simp
  obtain pk1 s1 where one: "pack_read_loop lib n (enc_val v @ r) pk s
      = loop_next lib (n - int (length (enc_val v))) (pack_value_read (value_phase (e_type el)) r pk1 s1)"
    "value_done psz G (k + 2 * length vs) pk (with_value el v) s pk1 s1"
    by (rule read_value [OF Cons.prems(2) room Cons.prems(4,5) v(1) s v(2) nn r])
  show ?case
  proof (cases "vs = []")
    case True
    then show ?thesis using one by (intro exI [of _ pk1] exI [of _ s1]) (simp add: r_def)
  next
    case False
    define pk2 where "pk2 = pack_want (value_phase (e_type el)) 4 pk1"
    have d: "reading pk1 (with_value el v)" "same_frame pk pk1" "granted psz G (k + 2 * length vs) s1" "took G s {} s1"
      using one(2) by (simp_all add: value_done_def)
    have cnt: "pk_cur_value_num pk1 \<noteq> pk_value_num pk1"
      using d(1,2) Cons.prems(3) False by (cases vs) (auto simp: reading_def same_frame_def)
    have "pack_read_loop lib n (enc_val v @ r) pk s = pack_read_loop lib (n - int (length (enc_val v))) r pk2 s1"
      using one(1) value_read_more [OF cnt] by (simp add: loop_next_def pk2_def)
    moreover have "\<exists>pk' s'. pack_read_loop lib (n - int (length (enc_val v))) r pk2 s1
        = loop_next lib (n - int (length (enc_val v)) - int (length (concat (map enc_val vs))))
            (pack_value_read (value_phase (e_type (with_value el v))) q pk' s')
      \<and> value_done psz G k pk2 (foldl with_value (with_value el v) vs) s1 pk' s'"
      unfolding r_def
    proof (rule Cons.IH)
      show "reading pk2 (with_value el v)" using d(1) by (simp add: pk2_def pack_want_reading)
      show "int (length (e_vals (with_value el v)) + length vs) = pk_value_num pk2"
        using Cons.prems(3) d(2) by (simp add: pk2_def pack_want_def same_frame_def)
    qed (use False Cons.prems d(3) in \<open>simp_all add: pk2_def pack_want_def\<close>)
    ultimately obtain pk' s' where fin: "pack_read_loop lib n (enc_val v @ r) pk s
        = loop_next lib (n - int (length (enc_val v)) - int (length (concat (map enc_val vs))))
            (pack_value_read (value_phase (e_type el)) q pk' s')"
      "value_done psz G k pk2 (foldl with_value (with_value el v) vs) s1 pk' s'" by auto
    have "same_frame pk pk'" "took G s {} s'"
      using fin(2) d(2,4) same_frame_trans [of pk pk2 pk'] took_trans [OF d(4), of "{}" s']
      by (auto simp: value_done_def pk2_def pack_want_reading)
    then show ?thesis using fin
      by (intro exI [of _ pk'] exI [of _ s']) (simp add: r_def value_done_def algebra_simps)
  qed
qed

subsection \<open>One element\<close>

lemma granted_elem_create:
  assumes s: "granted psz G (k + 8) s" and G: "40 \<le> G" "int (length name) \<le> G" "16 * num \<le> G"
    and type: "type = 0 \<or> type = 1 \<or> type = 2" and num: "0 < num"
  obtains a ar t where "hcore_pack_elem_create name type num s
      = (Some (a, \<lparr>e_name = name, e_type = type, e_array = ar, e_vals = []\<rparr>), t)"
    "ar_nelts ar = 0" "ar_nalloc ar = num" "granted psz G k t" "took G s (mem_region (a, 40)) t"
proof -
  have "granted psz G (Suc (Suc (k + 6))) s" using s by (simp add: numeral_eq_Suc)
  then obtain a t1 where a: "hcore_pnalloc (fst s) 40 (snd s) = (Some a, t1)" "granted psz G (k + 6) t1"
    "took G s (mem_region (a, 40)) t1" using granted_alloc [of psz G "k + 6" s 40] G(1) by auto
  have "granted psz G (Suc (Suc (k + 4))) t1" using a(2) by (simp add: numeral_eq_Suc)
  then obtain d t2 where d: "hcore_pnalloc (fst t1) (int (length name)) (snd t1) = (Some d, t2)"
    "granted psz G (k + 4) t2" "took G t1 (mem_region (d, int (length name))) t2"
    using granted_alloc [of psz G "k + 4" t1 "int (length name)"] G(2) by auto
  define sz :: int where "sz = (if type = 0 then 4 else 16)"
  have sz: "0 \<le> sz" "num * sz \<le> G" using G(3) num by (auto simp: sz_def)
  obtain aa elts t3 where c: "hcore_array_create (fst t2) num sz (snd t2)
      = (Some (aa, \<lparr>ar_elts = elts, ar_nelts = 0, ar_size = sz, ar_nalloc = num\<rparr>), t3)"
    "granted psz G k t3" "took G t2 {} t3"
    by (rule granted_array_create [OF d(2) order_less_imp_le [OF num] sz G(1)])
  have "hcore_pack_elem_create name type num s
      = (Some (a, \<lparr>e_name = name, e_type = type,
           e_array = \<lparr>ar_elts = elts, ar_nelts = 0, ar_size = sz, ar_nalloc = num\<rparr>, e_vals = []\<rparr>), t3)"
    using a(1) d(1) c(1) type num
    by (cases t1; cases t2; cases t3) (auto simp: hcore_pack_elem_create_def sz_def)
  moreover have "took G s (mem_region (a, 40)) t3" using took_trans [OF took_trans [OF a(3) d(3)] c(3)] .
  ultimately show thesis using that [of a _ t3] c(2) by simp
qed

text \<open>The list of a pack between two elements: in order, in pool memory, its pointers to memory in use.\<close>

definition pack_ready :: "int \<Rightarrow> int \<Rightarrow> nat \<Rightarrow> int hlist \<Rightarrow> pstate \<Rightarrow> bool" where
  "pack_ready psz G k l s \<longleftrightarrow> granted psz G k s \<and> list_ok l \<and> l_sorted l \<and> l_pool l
     \<and> (\<exists>p. l_p l = Some p \<and> 0 < p \<and> p < 2 ^ 62) \<and> distinct (list_items l)
     \<and> set (list_items l) \<inter> pool_avail G s = {}"

lemma pack_ready_took:
  "pack_ready psz G k l s \<Longrightarrow> took G s R t \<Longrightarrow> granted psz G j t \<Longrightarrow> pack_ready psz G j l t"
  unfolding pack_ready_def took_def by blast

lemma insert_greatest:
  assumes l: "pack_ready psz G (Suc (Suc k)) l s" and N: "l_num l < N" "16 * N \<le> G" "N < 536870912"
    and a: "a \<notin> set (list_items l)" "a \<notin> pool_avail G s"
    and keys: "\<forall>b\<in>set (list_items l) \<union> {a}. pack_key_ok (heap b)"
    and srt: "sorted_cmp (hcore_pack_cmp_name heap) (list_items l)"
    and less: "\<forall>b\<in>set (list_items l). hcore_pack_cmp_name heap b a < 0"
  obtains l' t where "hcore_list_insert lib (Some (hcore_pack_cmp_name heap)) l (Some a) s = Ret (HCORE_OK, l', t)"
    "list_items l' = list_items l @ [a]" "pack_ready psz G k l' t" "took G s {} t"
proof -
  obtain p where p: "l_p l = Some p" "0 < p" "p < 2 ^ 62" using l by (auto simp: pack_ready_def)
  have ok: "list_ok l" "l_sorted l" "l_pool l" "granted psz G (Suc (Suc k)) s" using l by (simp_all add: pack_ready_def)
  obtain full l1 t r where room: "list_make_room l s = (full, l1, t)" "list_can_grow l s" "l_pool l1" "l_p l1 = Some r"
    "0 < r" "r < 2 ^ 62" "granted psz G k t" "took G s {} t"
    by (rule granted_make_room [OF ok(1,3) p N ok(4)])
  have cmp: "comparator (hcore_pack_cmp_name heap) (set (list_items l) \<union> {a})"
    using keys by (intro pack_cmp_name_comparator) blast
  obtain i l' where ins: "hcore_list_insert lib (Some (hcore_pack_cmp_name heap)) l (Some a) s = Ret (HCORE_OK, l', t)"
    "list_ok l'" "l_sorted l'" "l_pool l' = l_pool l1" "l_p l' = l_p l1"
    "list_items l' = take i (list_items l) @ a # drop i (list_items l)"
    "\<forall>k<i. hcore_pack_cmp_name heap (list_items l ! k) a \<le> 0"
    "\<forall>k. i \<le> k \<and> int k < l_num l \<longrightarrow> hcore_pack_cmp_name heap a (list_items l ! k) \<le> 0"
    by (rule list_insert_steps [OF ok(1,2) room(2,1) cmp srt, of lib])
  have "length (list_items l) \<le> i"
  proof (rule ccontr)
    assume "\<not> length (list_items l) \<le> i"
    then have i: "i < length (list_items l)" by simp
    then have b: "list_items l ! i \<in> set (list_items l)" by simp
    have "hcore_pack_cmp_name heap a (list_items l ! i) \<le> 0" using ins(8) i list_items_length [OF ok(1)] by auto
    moreover have "0 < hcore_pack_cmp_name heap a (list_items l ! i)"
      using less b comparator.cmp_swap [OF cmp, of "list_items l ! i" a] by simp
    ultimately show False by simp
  qed
  then have items: "list_items l' = list_items l @ [a]" using ins(6) by simp
  moreover have "pack_ready psz G k l' t"
    using ins(2-5) room(3-8) items l a by (auto simp: pack_ready_def took_def)
  ultimately show thesis using that ins(1) room(8) by blast
qed

definition elem_data :: "pack_elem \<Rightarrow> byte list \<times> int \<times> pvalue list" where
  "elem_data el = (e_name el, e_type el, e_vals el)"

text \<open>The requests one element may make, and the sizes it asks for.\<close>

definition elem_cost :: "pack_elem \<Rightarrow> nat" where
  "elem_cost el = 12 + 2 * length (e_vals el)"

definition elem_fits :: "int \<Rightarrow> pack_elem \<Rightarrow> bool" where
  "elem_fits G el \<longleftrightarrow> 40 \<le> G \<and> int (length (e_name el)) \<le> G \<and> 16 * int (length (e_vals el)) \<le> G
     \<and> (\<forall>v\<in>set (e_vals el). int (length (value_bytes v)) + 1 \<le> G)"

text \<open>The three turns before the values: the name, and the element's type.\<close>

lemma read_elem_head:
  assumes ph: "pk_phase pk = phase_elem_name_len" "pk_need pk = 4" and mx: "pk_max pk = 0 \<or> pk_num pk \<le> pk_max pk"
    and len: "int (length name) < 4294967296" "int (length name) \<le> G" and type: "0 \<le> type" "type < 4294967296"
    and s: "granted psz G (Suc (Suc k)) s" and n: "8 + int (length name) \<le> n"
  obtains pk' t where "pack_read_loop lib n (hcore_pack_write_str name @ hcore_pack_write_int type @ q) pk s
      = pack_read_loop lib (n - 8 - int (length name)) q pk' t"
    "pk_phase pk' = phase_value_num" "pk_need pk' = 4" "pk_name pk' = name" "pk_elem_type pk' = type"
    "pk_list pk' = pk_list pk" "pk_heap pk' = pk_heap pk" "pk_num pk' = pk_num pk" "pk_cur_num pk' = pk_cur_num pk"
    "pk_max pk' = pk_max pk" "granted psz G k t" "took G s {} t"
proof -
  define l where "l = int (length name)"
  define q1 where "q1 = hcore_pack_write_int type @ q"
  define pk1 where "pk1 = pack_want phase_elem_name l (pk\<lparr>pk_name_len := l\<rparr>)"
  define pk2 where "pk2 = pack_want phase_elem_type 4 (pk1\<lparr>pk_name := name\<rparr>)"
  define pk3 where "pk3 = pack_want phase_value_num 4 (pk2\<lparr>pk_elem_type := type\<rparr>)"
  have l: "0 \<le> l" "l < 4294967296" "nat l = length name" using len by (simp_all add: l_def)
  have "\<not> (pk_max pk \<noteq> 0 \<and> pk_max pk < pk_num pk)" using mx by auto
  then have "pack_read_step lib (hcore_pack_write_int l @ (name @ q1)) pk s = Ret (PCont (name @ q1, pk1, s))"
    using ph(1) l(1,2) unfolding pack_read_step_def by (simp add: pk1_def)
  then have t1: "pack_read_loop lib n (hcore_pack_write_int l @ (name @ q1)) pk s
      = pack_read_loop lib (n - 4) (name @ q1) pk1 s"
    using read_loop_turn [of pk n lib "hcore_pack_write_int l" "name @ q1"] ph(2) n by simp
  obtain a t where a: "hcore_pnalloc (fst s) l (snd s) = (Some a, t)" "granted psz G k t"
    "took G s (mem_region (a, l)) t" using granted_alloc [OF s l(1)] len(2) by (auto simp: l_def)
  have "pack_read_step lib (name @ q1) pk1 s = Ret (PCont (q1, pk2, t))"
    using a(1) l by (cases t) (simp add: pack_read_step_def pk1_def pack_want_def pk2_def)
  then have t2: "pack_read_loop lib (n - 4) (name @ q1) pk1 s = pack_read_loop lib (n - 4 - l) q1 pk2 t"
    using read_loop_turn [of pk1 "n - 4" lib name q1] n by (simp add: pk1_def pack_want_def l_def)
  have "pack_read_step lib q1 pk2 t = Ret (PCont (q, pk3, t))"
    using type by (simp add: q1_def pack_read_step_def pk2_def pack_want_def pk3_def)
  then have t3: "pack_read_loop lib (n - 4 - l) q1 pk2 t = pack_read_loop lib (n - 8 - l) q pk3 t"
    using read_loop_turn [of pk2 "n - 4 - l" lib "hcore_pack_write_int type" q] n
    by (simp add: q1_def pk2_def pack_want_def l_def algebra_simps)
  have "pack_read_loop lib n (hcore_pack_write_str name @ hcore_pack_write_int type @ q) pk s
      = pack_read_loop lib (n - 8 - int (length name)) q pk3 t"
    using t1 t2 t3 by (simp add: hcore_pack_write_str_def l_def q1_def)
  then show thesis using that [of pk3 t] a(2) took_none [OF a(3)]
    by (simp add: pk3_def pk2_def pk1_def pack_want_def)
qed

text \<open>The turn that creates the element and puts it into the list.\<close>

lemma read_elem_open:
  assumes ph: "pk_phase pk = phase_value_num" "pk_need pk = 4" and nm: "pk_name pk = name" "pk_elem_type pk = type"
    and l: "pack_ready psz G (k + 10) (pk_list pk) s" and N: "l_num (pk_list pk) < N" "16 * N \<le> G" "N < 536870912"
    and el: "pack_key_ok \<lparr>e_name = name, e_type = type, e_array = undefined, e_vals = []\<rparr>"
      "type = 0 \<or> type = 1 \<or> type = 2" "0 < num" "num < 4294967296" "40 \<le> G" "int (length name) \<le> G" "16 * num \<le> G"
    and old: "\<forall>b\<in>set (pack_elems pk). pack_key_ok b
        \<and> pack_elem_cmp b \<lparr>e_name = name, e_type = type, e_array = undefined, e_vals = []\<rparr> < 0"
      "sorted_cmp pack_elem_cmp (pack_elems pk)"
    and n: "4 \<le> n"
  obtains pk' el t a where "pack_read_loop lib n (hcore_pack_write_int num @ q) pk s = pack_read_loop lib (n - 4) q pk' t"
    "pk_phase pk' = value_phase type" "pk_need pk' = 4" "reading pk' el" "e_name el = name" "e_type el = type"
    "e_vals el = []" "pk_value_num pk' = num" "pk_cur_elem pk' = a" "list_items (pk_list pk') = list_items (pk_list pk) @ [a]"
    "a \<notin> set (list_items (pk_list pk))" "\<forall>b\<in>set (list_items (pk_list pk)). pk_heap pk' b = pk_heap pk b"
    "pk_num pk' = pk_num pk" "pk_cur_num pk' = pk_cur_num pk" "pk_max pk' = pk_max pk"
    "pack_ready psz G k (pk_list pk') t"
proof -
  have "granted psz G (Suc (Suc k) + 8) s" using l by (simp add: pack_ready_def numeral_eq_Suc)
  then obtain a ar t where c: "hcore_pack_elem_create name type num s
      = (Some (a, \<lparr>e_name = name, e_type = type, e_array = ar, e_vals = []\<rparr>), t)"
    "ar_nelts ar = 0" "ar_nalloc ar = num" "granted psz G (Suc (Suc k)) t" "took G s (mem_region (a, 40)) t"
    using granted_elem_create [of psz G "Suc (Suc k)" s name num type] el by metis
  define e where "e = \<lparr>e_name = name, e_type = type, e_array = ar, e_vals = []\<rparr>"
  define pk1 where "pk1 = pack_upd_elem e (pk\<lparr>pk_value_num := num, pk_cur_value_num := 0, pk_cur_elem := a\<rparr>)"
  have "a \<in> mem_region (a, 40)" by (simp add: mem_region_def)
  then have a: "a \<in> pool_avail G s" "a \<notin> pool_avail G t" using c(5) by (auto simp: took_def)
  then have new: "a \<notin> set (list_items (pk_list pk))" using l by (auto simp: pack_ready_def)
  have heap: "pk_heap pk1 a = e" "\<forall>b\<in>set (list_items (pk_list pk)). pk_heap pk1 b = pk_heap pk b"
    using new by (auto simp: pk1_def pack_upd_elem_def)
  have ke: "pack_key_ok e" "pack_elem_cmp b e = pack_elem_cmp b \<lparr>e_name = name, e_type = type, e_array = undefined, e_vals = []\<rparr>"
    for b using el(1) by (simp_all add: pack_key_ok_def pack_elem_cmp_def e_def)
  have cmp: "hcore_pack_cmp_name (pk_heap pk1) x y = hcore_pack_cmp_name (pk_heap pk) x y"
    if "x \<in> set (list_items (pk_list pk))" "y \<in> set (list_items (pk_list pk))" for x y
    using heap(2) that by (simp add: hcore_pack_cmp_name_def)
  have "sorted_cmp (hcore_pack_cmp_name (pk_heap pk)) (list_items (pk_list pk))"
    using old(2) by (simp add: pack_elems_def sorted_cmp_def sorted_wrt_map hcore_pack_cmp_name_def)
  then have srt: "sorted_cmp (hcore_pack_cmp_name (pk_heap pk1)) (list_items (pk_list pk))"
    using cmp sorted_wrt_mono_rel [of "list_items (pk_list pk)" "\<lambda>x y. hcore_pack_cmp_name (pk_heap pk) x y \<le> 0"
        "\<lambda>x y. hcore_pack_cmp_name (pk_heap pk1) x y \<le> 0"] unfolding sorted_cmp_def by simp
  have keys: "\<forall>b\<in>set (list_items (pk_list pk)) \<union> {a}. pack_key_ok (pk_heap pk1 b)"
    and less: "\<forall>b\<in>set (list_items (pk_list pk)). hcore_pack_cmp_name (pk_heap pk1) b a < 0"
    using old(1) heap ke by (auto simp: pack_elems_def hcore_pack_cmp_name_def)
  have lr: "pack_ready psz G (Suc (Suc k)) (pk_list pk) t" by (rule pack_ready_took [OF l c(5,4)])
  obtain l' t' where ins: "hcore_list_insert lib (Some (hcore_pack_cmp_name (pk_heap pk1))) (pk_list pk) (Some a) t
      = Ret (HCORE_OK, l', t')" "list_items l' = list_items (pk_list pk) @ [a]" "pack_ready psz G k l' t'"
    by (rule insert_greatest [OF lr N new a(2) keys srt less])
  define pk' where "pk' = pack_want (value_phase type) 4 (pk1\<lparr>pk_list := l'\<rparr>)"
  have "pack_read_value_num lib (hcore_pack_write_int num @ q) pk s = Ret (PCont (q, pk', t'))"
    using c(1) nm ins(1) el
    by (auto simp: pack_read_value_num_def Let_def pk1_def e_def pk'_def value_phase_def pack_upd_elem_def)
  then have "pack_read_loop lib n (hcore_pack_write_int num @ q) pk s = pack_read_loop lib (n - 4) q pk' t'"
    using read_loop_turn [of pk n lib "hcore_pack_write_int num" q] ph n by (simp add: pack_read_step_def)
  moreover have "reading pk' e"
    using c(2,3) el(4) heap(1) nm by (simp add: reading_def pk'_def pack_want_def pk1_def pack_upd_elem_def e_def)
  ultimately show thesis using that [of pk' t' e a] ins(2,3) new heap(2)
    by (simp add: pk'_def pack_want_def e_def) (simp add: pk1_def pack_upd_elem_def)
qed

text \<open>A whole element.\<close>

lemma elem_ok_type: "elem_ok el \<Longrightarrow> e_type el = 0 \<or> e_type el = 1 \<or> e_type el = 2"
proof -
  have "val_ok type v \<Longrightarrow> type = 0 \<or> type = 1 \<or> type = 2" for type v by (cases v) auto
  then show "elem_ok el \<Longrightarrow> e_type el = 0 \<or> e_type el = 1 \<or> e_type el = 2"
    unfolding elem_ok_def by (metis list.set_sel(1))
qed

text \<open>The name, the type and the number of values, after which the element is in the list.\<close>

lemma read_elem_front:
  assumes ph: "pk_phase pk = phase_elem_name_len" "pk_need pk = 4" and mx: "pk_max pk = 0 \<or> pk_num pk \<le> pk_max pk"
    and l: "pack_ready psz G (k + elem_cost el) (pk_list pk) s" and N: "l_num (pk_list pk) < N" "16 * N \<le> G" "N < 536870912"
    and el: "elem_ok el" "elem_fits G el"
    and old: "\<forall>b\<in>set (pack_elems pk). pack_key_ok b \<and> pack_elem_cmp b el < 0" "sorted_cmp pack_elem_cmp (pack_elems pk)"
    and n: "int (length (enc_elem el)) \<le> n"
  obtains pk2 e t2 a where "pack_read_loop lib n (enc_elem el @ q) pk s
      = pack_read_loop lib (n - int (length (e_name el)) - 12) (concat (map enc_val (e_vals el)) @ q) pk2 t2"
    and "pk_phase pk2 = value_phase (e_type el)" "pk_need pk2 = 4" "reading pk2 e" "e_name e = e_name el" "e_type e = e_type el"
    and "e_vals e = []" "pk_value_num pk2 = int (length (e_vals el))" "pk_cur_elem pk2 = a"
    and "list_items (pk_list pk2) = list_items (pk_list pk) @ [a]"
    and "\<forall>b\<in>set (list_items (pk_list pk)). b \<noteq> a \<and> pk_heap pk2 b = pk_heap pk b"
    and "pk_num pk2 = pk_num pk" "pk_cur_num pk2 = pk_cur_num pk" "pk_max pk2 = pk_max pk"
    and "pack_ready psz G (k + 2 * length (e_vals el)) (pk_list pk2) t2"
proof -
  define vals where "vals = concat (map enc_val (e_vals el))"
  define num where "num = int (length (e_vals el))"
  have ok: "pack_key_ok el" "0 < num" "num < 4294967296" using el(1) by (auto simp: elem_ok_def num_def)
  have key: "0 \<le> e_type el" "e_type el < 4294967296" "int (length (e_name el)) < 4294967296"
    using ok(1) by (auto simp: pack_key_ok_def)
  have fits: "40 \<le> G" "int (length (e_name el)) \<le> G" "16 * num \<le> G" using el(2) by (simp_all add: elem_fits_def num_def)
  have enc: "enc_elem el @ q = hcore_pack_write_str (e_name el) @ hcore_pack_write_int (e_type el)
      @ (hcore_pack_write_int num @ (vals @ q))" by (simp add: enc_elem_def num_def vals_def)
  have g1: "granted psz G (Suc (Suc (k + (10 + 2 * length (e_vals el))))) s"
    using l by (simp add: pack_ready_def elem_cost_def numeral_eq_Suc)
  have n1: "8 + int (length (e_name el)) \<le> n" "4 \<le> n - 8 - int (length (e_name el))"
    using n by (simp_all add: enc_elem_def hcore_pack_write_str_def)
  obtain pk1 t1 where h: "pack_read_loop lib n (enc_elem el @ q) pk s
      = pack_read_loop lib (n - 8 - int (length (e_name el))) (hcore_pack_write_int num @ (vals @ q)) pk1 t1"
    "pk_phase pk1 = phase_value_num" "pk_need pk1 = 4" "pk_name pk1 = e_name el" "pk_elem_type pk1 = e_type el"
    "pk_list pk1 = pk_list pk" "pk_heap pk1 = pk_heap pk" "pk_num pk1 = pk_num pk" "pk_cur_num pk1 = pk_cur_num pk"
    "pk_max pk1 = pk_max pk" "granted psz G (k + (10 + 2 * length (e_vals el))) t1" "took G s {} t1"
    unfolding enc by (rule read_elem_head [OF ph mx key(3) fits(2) key(1,2) g1 n1(1)])
  define t where "t = \<lparr>e_name = e_name el, e_type = e_type el, e_array = undefined, e_vals = []\<rparr>"
  have l1: "pack_ready psz G (k + 2 * length (e_vals el) + 10) (pk_list pk1) t1"
    using pack_ready_took [OF l h(12,11)] h(6) by (simp add: ac_simps)
  have N1: "l_num (pk_list pk1) < N" "pack_key_ok t" using h(6) N(1) ok(1) by (simp_all add: pack_key_ok_def t_def)
  have "pack_elem_cmp b t = pack_elem_cmp b el" "pack_elems pk1 = pack_elems pk" for b
    using h by (simp_all add: pack_elem_cmp_def pack_elems_def t_def)
  then have old1: "\<forall>b\<in>set (pack_elems pk1). pack_key_ok b \<and> pack_elem_cmp b t < 0" "sorted_cmp pack_elem_cmp (pack_elems pk1)"
    using old by simp_all
  show thesis
    by (rule read_elem_open [OF h(2-5) l1 N1(1) N(2,3) N1(2) [unfolded t_def] elem_ok_type [OF el(1)] ok(2,3) fits(1-3) old1 [unfolded t_def] n1(2),
          of lib "vals @ q"], rule that) (use h in \<open>auto simp: vals_def num_def\<close>)
qed

lemma read_elem:
  assumes ph: "pk_phase pk = phase_elem_name_len" "pk_need pk = 4" and mx: "pk_max pk = 0 \<or> pk_num pk \<le> pk_max pk"
    and l: "pack_ready psz G (k + elem_cost el) (pk_list pk) s" and N: "l_num (pk_list pk) < N" "16 * N \<le> G" "N < 536870912"
    and el: "elem_ok el" "elem_fits G el"
    and old: "\<forall>b\<in>set (pack_elems pk). pack_key_ok b \<and> pack_elem_cmp b el < 0" "sorted_cmp pack_elem_cmp (pack_elems pk)"
    and n: "int (length (enc_elem el)) \<le> n" and q: "q \<noteq> []"
  shows "\<exists>pk' t el'. pack_read_loop lib n (enc_elem el @ q) pk s
      = loop_next lib (n - int (length (enc_elem el))) (pack_value_read (value_phase (e_type el)) q pk' t)
    \<and> pk_cur_value_num pk' = pk_value_num pk' \<and> pk_num pk' = pk_num pk \<and> pk_cur_num pk' = pk_cur_num pk
    \<and> pk_max pk' = pk_max pk \<and> pack_ready psz G k (pk_list pk') t
    \<and> pack_elems pk' = pack_elems pk @ [el'] \<and> elem_ok el' \<and> elem_data el' = elem_data el"
proof -
  have len: "int (length (enc_elem el)) = 12 + int (length (e_name el)) + int (length (concat (map enc_val (e_vals el))))"
    by (simp add: enc_elem_def hcore_pack_write_str_def)
  obtain pk2 e t2 a where o: "pack_read_loop lib n (enc_elem el @ q) pk s
      = pack_read_loop lib (n - int (length (e_name el)) - 12) (concat (map enc_val (e_vals el)) @ q) pk2 t2"
    "pk_phase pk2 = value_phase (e_type el)" "pk_need pk2 = 4" "reading pk2 e" "e_name e = e_name el" "e_type e = e_type el"
    "e_vals e = []" "pk_value_num pk2 = int (length (e_vals el))" "pk_cur_elem pk2 = a"
    "list_items (pk_list pk2) = list_items (pk_list pk) @ [a]"
    "\<forall>b\<in>set (list_items (pk_list pk)). b \<noteq> a \<and> pk_heap pk2 b = pk_heap pk b"
    "pk_num pk2 = pk_num pk" "pk_cur_num pk2 = pk_cur_num pk" "pk_max pk2 = pk_max pk"
    "pack_ready psz G (k + 2 * length (e_vals el)) (pk_list pk2) t2"
    by (rule read_elem_front [OF ph mx l N el old n])
  have v1: "e_vals el \<noteq> []" "int (length (e_vals e) + length (e_vals el)) = pk_value_num pk2"
    "pk_phase pk2 = value_phase (e_type e)"
    "\<forall>v\<in>set (e_vals el). val_ok (e_type e) v \<and> int (length (value_bytes v)) + 1 \<le> G"
    "int (length (concat (map enc_val (e_vals el)))) \<le> n - int (length (e_name el)) - 12"
    using el o(2,6-8) n len by (auto simp: elem_ok_def elem_fits_def)
  have g2: "granted psz G (k + 2 * length (e_vals el)) t2" using o(15) by (simp add: pack_ready_def)
  obtain pk3 t3 where v: "pack_read_loop lib (n - int (length (e_name el)) - 12) (concat (map enc_val (e_vals el)) @ q) pk2 t2
      = loop_next lib (n - int (length (e_name el)) - 12 - int (length (concat (map enc_val (e_vals el)))))
          (pack_value_read (value_phase (e_type e)) q pk3 t3)"
    "value_done psz G k pk2 (foldl with_value e (e_vals el)) t2 pk3 t3"
    using read_values [OF v1(1) o(4) v1(2,3) o(3) v1(4) g2 v1(5) q, of lib] by blast
  define el' where "el' = foldl with_value e (e_vals el)"
  have d: "reading pk3 el'" "same_frame pk2 pk3" "granted psz G k t3" "took G t2 {} t3"
    using v(2) by (simp_all add: value_done_def el'_def)
  have el': "e_name el' = e_name el" "e_type el' = e_type el" "e_vals el' = e_vals el" "pk_heap pk3 a = el'"
    "ar_nelts (e_array el') = int (length (e_vals el))"
    using o(5-7,9) d(1,2) by (simp_all add: el'_def reading_def same_frame_def)
  have heap: "pk_heap pk3 b = pk_heap pk b" if "b \<in> set (list_items (pk_list pk))" for b
    using that o(9,11) d(2) unfolding same_frame_def by metis
  have "pack_elems pk3 = pack_elems pk @ [el']" using o(10) d(2) heap el'(4) by (simp add: pack_elems_def same_frame_def)
  moreover have "elem_ok el'" "elem_data el' = elem_data el"
    using el(1) el' by (simp_all add: elem_ok_def pack_key_ok_def elem_data_def)
  moreover have "pack_ready psz G k (pk_list pk3) t3" using pack_ready_took [OF o(15) d(4,3)] d(2) by (simp add: same_frame_def)
  moreover have "pk_cur_value_num pk3 = pk_value_num pk3" using d(1,2) el'(3) o(8) by (simp add: reading_def same_frame_def)
  moreover have "pack_read_loop lib n (enc_elem el @ q) pk s
      = loop_next lib (n - int (length (enc_elem el))) (pack_value_read (value_phase (e_type el)) q pk3 t3)"
    using o(1,6) v(1) len by (simp add: algebra_simps)
  ultimately show ?thesis
    using d(2) o(12-14) by (intro exI [of _ pk3] exI [of _ t3] exI [of _ el']) (simp add: same_frame_def)
qed

subsection \<open>All elements\<close>

lemma elem_data_cmp:
  "elem_data a' = elem_data a \<Longrightarrow> pack_elem_cmp a' b = pack_elem_cmp a b"
  "elem_data b' = elem_data b \<Longrightarrow> pack_elem_cmp a b' = pack_elem_cmp a b"
  "elem_data a' = elem_data a \<Longrightarrow> pack_key_ok a' = pack_key_ok a"
  by (simp_all add: elem_data_def pack_elem_cmp_def pack_key_ok_def)

definition strictly_sorted :: "pack_elem list \<Rightarrow> bool" where
  "strictly_sorted = sorted_wrt (\<lambda>a b. pack_elem_cmp a b < 0)"

lemma strictly_sorted_append:
  "strictly_sorted (xs @ y # ys) \<longleftrightarrow> strictly_sorted xs \<and> strictly_sorted (y # ys)
     \<and> (\<forall>x\<in>set xs. \<forall>z\<in>set (y # ys). pack_elem_cmp x z < 0)"
  by (simp add: strictly_sorted_def sorted_wrt_append)

lemma strictly_sorted_sorted: "strictly_sorted xs \<Longrightarrow> sorted_cmp pack_elem_cmp xs"
  unfolding strictly_sorted_def sorted_cmp_def by (rule sorted_wrt_mono_rel) auto

lemma strictly_sorted_data:
  assumes "elem_data y' = elem_data y" and "strictly_sorted (xs @ y # ys)"
  shows "strictly_sorted ((xs @ [y']) @ ys)"
  using assms elem_data_cmp [OF assms(1)] by (auto simp: strictly_sorted_def sorted_wrt_append)

lemma value_read_last:
  "pk_cur_value_num pk = pk_value_num pk \<Longrightarrow> u32 (pk_cur_num pk + 1) = pk_num pk
    \<Longrightarrow> pack_value_read ph r pk t = PDone (r, pk\<lparr>pk_cur_num := pk_num pk, pk_phase := phase_done\<rparr>, t)"
  by (simp add: pack_value_read_def Let_def)

lemma value_read_next:
  "pk_cur_value_num pk = pk_value_num pk \<Longrightarrow> u32 (pk_cur_num pk + 1) = c \<Longrightarrow> c \<noteq> pk_num pk
    \<Longrightarrow> pack_value_read ph r pk t = PCont (r, pack_want phase_elem_name_len 4 (pk\<lparr>pk_cur_num := c\<rparr>), t)"
  by (simp add: pack_value_read_def Let_def)

lemma read_elems:
  assumes "els \<noteq> []" and "pk_phase pk = phase_elem_name_len" "pk_need pk = 4"
    and "pk_max pk = 0 \<or> pk_num pk \<le> pk_max pk" and "pk_cur_num pk + int (length els) = pk_num pk" "0 \<le> pk_cur_num pk"
    and "pk_num pk < 4294967296" and "pack_ready psz G (k + sum_list (map elem_cost els)) (pk_list pk) s"
    and "l_num (pk_list pk) + int (length els) \<le> N" "16 * N \<le> G" "N < 536870912"
    and "\<forall>el\<in>set els. elem_ok el \<and> elem_fits G el" and "\<forall>b\<in>set (pack_elems pk). pack_key_ok b"
    and "strictly_sorted (pack_elems pk @ els)"
    and "int (length (concat (map enc_elem els))) \<le> n" and "q \<noteq> []"
  shows "\<exists>pk' t els'. pack_read_loop lib n (concat (map enc_elem els) @ q) pk s
      = Ret (Some (n - int (length (concat (map enc_elem els)))), pk', t)
    \<and> pk_phase pk' = phase_done \<and> pack_elems pk' = pack_elems pk @ els' \<and> map elem_data els' = map elem_data els
    \<and> (\<forall>el\<in>set els'. elem_ok el) \<and> pack_ready psz G k (pk_list pk') t"
  using assms
proof (induction els arbitrary: pk s n)
  case Nil
  then show ?case by simp
next
  case (Cons el els)
  define r where "r = concat (map enc_elem els) @ q"
  have r: "r \<noteq> []" using Cons.prems(16) by (simp add: r_def)
  have ready: "pack_ready psz G (k + sum_list (map elem_cost els) + elem_cost el) (pk_list pk) s"
    using Cons.prems(8) by (simp add: ac_simps)
  have N: "l_num (pk_list pk) < N" using Cons.prems(9) by simp
  have el: "elem_ok el" "elem_fits G el" using Cons.prems(12) by simp_all
  have old: "\<forall>b\<in>set (pack_elems pk). pack_key_ok b \<and> pack_elem_cmp b el < 0" "sorted_cmp pack_elem_cmp (pack_elems pk)"
    using Cons.prems(13,14) strictly_sorted_sorted by (auto simp: strictly_sorted_append)
  have nn: "int (length (enc_elem el)) \<le> n" using Cons.prems(15) by simp
  obtain pk1 t el' where one: "pack_read_loop lib n (enc_elem el @ r) pk s
      = loop_next lib (n - int (length (enc_elem el))) (pack_value_read (value_phase (e_type el)) r pk1 t)"
    "pk_cur_value_num pk1 = pk_value_num pk1" "pk_num pk1 = pk_num pk" "pk_cur_num pk1 = pk_cur_num pk"
    "pk_max pk1 = pk_max pk" "pack_ready psz G (k + sum_list (map elem_cost els)) (pk_list pk1) t"
    "pack_elems pk1 = pack_elems pk @ [el']" "elem_ok el'" "elem_data el' = elem_data el"
    using read_elem [OF Cons.prems(2-4) ready N Cons.prems(10,11) el old nn r, of lib] by blast
  have cnt: "u32 (pk_cur_num pk1 + 1) = pk_cur_num pk + 1" using one(4) Cons.prems(5-7) by (simp add: u32_id)
  show ?case
  proof (cases "els = []")
    case True
    then have "u32 (pk_cur_num pk1 + 1) = pk_num pk1" using Cons.prems(5) one(3) cnt by simp
    from value_read_last [OF one(2) this, of _ r t] show ?thesis using one True
      by (intro exI [of _ "pk1\<lparr>pk_cur_num := pk_num pk1, pk_phase := phase_done\<rparr>"] exI [of _ t] exI [of _ "[el']"])
        (simp add: loop_next_def r_def pack_elems_def)
  next
    case False
    define pk2 where "pk2 = pack_want phase_elem_name_len 4 (pk1\<lparr>pk_cur_num := pk_cur_num pk + 1\<rparr>)"
    have "pk_cur_num pk + 1 \<noteq> pk_num pk1" using False Cons.prems(5) one(3) by (cases els) auto
    from value_read_next [OF one(2) cnt this]
    have turn: "pack_read_loop lib n (enc_elem el @ r) pk s = pack_read_loop lib (n - int (length (enc_elem el))) r pk2 t"
      using one(1) by (simp add: loop_next_def pk2_def)
    have f: "pk_phase pk2 = phase_elem_name_len" "pk_need pk2 = 4" "pk_max pk2 = pk_max pk" "pk_num pk2 = pk_num pk"
      "pk_cur_num pk2 = pk_cur_num pk + 1" "pk_list pk2 = pk_list pk1" "pack_elems pk2 = pack_elems pk @ [el']"
      using one(3,5,7) by (simp_all add: pk2_def pack_want_def pack_elems_def)
    have "int (length (list_items (pk_list pk1))) = int (length (list_items (pk_list pk))) + 1"
      using arg_cong [OF one(7), of length] by (simp add: pack_elems_def)
    then have num: "l_num (pk_list pk2) = l_num (pk_list pk) + 1"
      using ready one(6) f(6) by (simp add: pack_ready_def)
    have key: "pack_key_ok el'" using one(8) by (simp add: elem_ok_def)
    obtain pk' t' els' where "pack_read_loop lib (n - int (length (enc_elem el))) r pk2 t
        = Ret (Some (n - int (length (enc_elem el)) - int (length (concat (map enc_elem els)))), pk', t')"
      "pk_phase pk' = phase_done" "pack_elems pk' = pack_elems pk2 @ els'" "map elem_data els' = map elem_data els"
      "\<forall>el\<in>set els'. elem_ok el" "pack_ready psz G k (pk_list pk') t'"
      using Cons.IH [of pk2 t "n - int (length (enc_elem el))"] False f num one(6) Cons.prems key
        strictly_sorted_data [OF one(9) Cons.prems(14)] unfolding r_def by auto
    then show ?thesis using turn f(7) one(8,9)
      by (intro exI [of _ pk'] exI [of _ t'] exI [of _ "el' # els'"]) (simp add: r_def algebra_simps)
  qed
qed

subsection \<open>A pack written and read\<close>

text \<open>The invariant of a pack filled by the adding functions: its elements in order, each well formed,
  and \<open>total_size\<close> the number of bytes they take on the wire.\<close>

definition pack_ok :: "hpack \<Rightarrow> bool" where
  "pack_ok pk \<longleftrightarrow> list_ok (pk_list pk) \<and> l_sorted (pk_list pk) \<and> distinct (list_items (pk_list pk))
     \<and> (\<forall>el\<in>set (pack_elems pk). elem_ok el) \<and> strictly_sorted (pack_elems pk)
     \<and> pk_total pk = 4 + int (length (concat (map enc_elem (pack_elems pk))))"

lemma pack_elems_num: "list_ok (pk_list pk) \<Longrightarrow> int (length (pack_elems pk)) = l_num (pk_list pk)"
  by (simp add: pack_elems_def)

lemma pack_write_bytes:
  assumes "pack_ok pk" and "pk_buf pk = None" and "pack_elems pk \<noteq> []" and "ready 2 (snd s)"
  obtains t where "hcore_pack_write pk s
      = Ret (Some (hcore_pack_write_int (int (length (pack_elems pk))) @ concat (map enc_elem (pack_elems pk))),
          Some (pk_total pk),
          pk\<lparr>pk_buf := Some (hcore_pack_write_int (int (length (pack_elems pk))) @ concat (map enc_elem (pack_elems pk)))\<rparr>, t)"
proof -
  have "ready (Suc (Suc 0)) (snd s)" using assms(4) by (simp add: numeral_2_eq_2)
  then obtain a p e where a: "hcore_pnalloc (fst s) (pk_total pk) (snd s) = (Some a, p, e)"
    using pnalloc_ready by blast
  have "l_num (pk_list pk) = int (length (pack_elems pk))"
    using assms(1) pack_elems_num by (simp add: pack_ok_def)
  moreover have "pack_write_elems (pack_elems pk) = Ret (concat (map enc_elem (pack_elems pk)))"
    using assms(1) by (intro write_elems_enc) (simp add: pack_ok_def)
  ultimately have "hcore_pack_write pk s
      = Ret (Some (hcore_pack_write_int (int (length (pack_elems pk))) @ concat (map enc_elem (pack_elems pk))),
          Some (pk_total pk),
          pk\<lparr>pk_buf := Some (hcore_pack_write_int (int (length (pack_elems pk))) @ concat (map enc_elem (pack_elems pk)))\<rparr>, p, e)"
    using assms(1-3) a by (simp add: hcore_pack_write_def pack_ok_def Let_def)
  then show thesis by (rule that)
qed

definition pack_fresh :: "hpack \<Rightarrow> bool" where
  "pack_fresh pk \<longleftrightarrow> pk_phase pk = phase_init \<and> pk_need pk = 4 \<and> list_items (pk_list pk) = []"

lemma read_pack:
  assumes "els \<noteq> []" and "\<forall>el\<in>set els. elem_ok el \<and> elem_fits G el" and "strictly_sorted els"
    and dst: "pack_fresh dst" "pack_ready psz G (sum_list (map elem_cost els)) (pk_list dst) u"
      "pk_max dst = 0 \<or> int (length els) \<le> pk_max dst"
    and N: "16 * int (length els) \<le> G" "int (length els) < 536870912" and q: "q \<noteq> []"
  shows "\<exists>dst' u'. hcore_pack_read lib (hcore_pack_write_int (int (length els)) @ concat (map enc_elem els) @ q)
        (4 + int (length (concat (map enc_elem els)))) dst u
      = Ret (4 + int (length (concat (map enc_elem els))), dst', u')
    \<and> pk_phase dst' = phase_done \<and> map elem_data (pack_elems dst') = map elem_data els
    \<and> (\<forall>el\<in>set (pack_elems dst'). elem_ok el)"
proof -
  define num where "num = int (length els)"
  define body where "body = concat (map enc_elem els)"
  define pk1 where "pk1 = pack_want phase_elem_name_len 4 (dst\<lparr>pk_num := num, pk_cur_num := 0\<rparr>)"
  have num: "0 < num" "num < 4294967296" using assms(1) N(2) by (auto simp: num_def)
  have "pack_read_step lib (hcore_pack_write_int num @ (body @ q)) dst u = Ret (PCont (body @ q, pk1, u))"
    using dst(1) num by (simp add: pack_read_step_def pack_fresh_def pk1_def)
  then have turn: "pack_read_loop lib (4 + int (length body)) (hcore_pack_write_int num @ (body @ q)) dst u
      = pack_read_loop lib (int (length body)) (body @ q) pk1 u"
    using read_loop_turn [of dst "4 + int (length body)" lib "hcore_pack_write_int num" "body @ q"] dst(1)
    by (simp add: pack_fresh_def)
  have items: "list_items (pk_list pk1) = []" "pack_elems pk1 = []" "list_ok (pk_list dst)"
    using dst by (simp_all add: pack_fresh_def pk1_def pack_want_def pack_elems_def pack_ready_def)
  then have "l_num (pk_list pk1) = 0"
    using list_items_length [of "pk_list dst"] by (simp add: pk1_def pack_want_def)
  then obtain pk' t els' where "pack_read_loop lib (int (length body)) (body @ q) pk1 u = Ret (Some 0, pk', t)"
    "pk_phase pk' = phase_done" "pack_elems pk' = els'" "map elem_data els' = map elem_data els"
    "\<forall>el\<in>set els'. elem_ok el"
    using read_elems [of els pk1 psz G 0 u "int (length els)" "int (length body)" q lib] assms num items
    by (auto simp: pk1_def pack_want_def num_def body_def)
  then show ?thesis using turn
    by (intro exI [of _ pk'] exI [of _ t]) (simp add: hcore_pack_read_def num_def body_def)
qed



text \<open>Twenty answers of the system, one megabyte apart, and packs as the program makes them.\<close>

definition sample_supply :: env where
  "sample_supply = \<lparr>answers = map (\<lambda>i. Some (1048576 * (i + 1))) [0..19], trace = [], mem = \<lambda>_. 0\<rparr>"

definition sample_src :: hpack where
  "sample_src = \<lparr>pk_list = \<lparr>l_pool = True, l_num = 1, l_reserved = 32, l_p = Some 65700, l_vec = 200 # replicate 31 0, l_sorted = True\<rparr>,
     pk_heap = (\<lambda>_. \<lparr>e_name = [97], e_type = 0, e_array = \<lparr>ar_elts = 300, ar_nelts = 1, ar_size = 16, ar_nalloc = 1\<rparr>, e_vals = [PInt 7]\<rparr>),
     pk_max = 0, pk_ref = 1, pk_buf = None, pk_total = 21, pk_phase = phase_init, pk_need = 4, pk_num = 0, pk_cur_num = 0,
     pk_value_len = 0, pk_cur_value_num = 0, pk_value_num = 0, pk_elem_type = 0, pk_name_len = 0, pk_name = [], pk_cur_elem = 0\<rparr>"

definition sample_dst :: hpack where
  "sample_dst = sample_src\<lparr>pk_list := \<lparr>l_pool = True, l_num = 0, l_reserved = 32, l_p = Some 65700, l_vec = replicate 32 0, l_sorted = True\<rparr>\<rparr>"

lemma upto_20: "[0..19] = [0, 1, 2, 3, 4, 5, 6, 7, 8, 9, 10, 11, 12, 13, 14, 15, 16, 17, 18, 19 :: int]"
  by code_simp

lemma sample_granted: "granted 256 4096 14 (sample_pool, sample_supply)"
proof -
  have "pool_wf 256 4096 (sample_pool, sample_supply)"
    by (simp add: pool_wf_def sample_pool_def sample_supply_def blk_ok_def os_ok_def answers_of_def upto_20
        map_filter_simps os_regions_def apart_def region_of_def)
  moreover have "ready 14 sample_supply"
    unfolding ready_def sample_supply_def
    by (intro exI [of _ "map (\<lambda>i. 1048576 * (i + 1)) [0..19]"] exI [of _ "[]"]) simp
  moreover have "\<forall>x\<in>pool_avail 4096 (sample_pool, sample_supply). x < 2 ^ 62"
    by (simp add: pool_avail_def sample_pool_def sample_supply_def free_of_def os_regions_def answers_of_def
        map_filter_simps upto_20 ball_Un)
  ultimately show ?thesis by (simp add: granted_def)
qed

lemma sample_src_elems: "pack_elems sample_src
    = [\<lparr>e_name = [97], e_type = 0, e_array = \<lparr>ar_elts = 300, ar_nelts = 1, ar_size = 16, ar_nalloc = 1\<rparr>, e_vals = [PInt 7]\<rparr>]"
  by (simp add: pack_elems_def sample_src_def list_items_def)

lemma sample_src_ok: "pack_ok sample_src" "\<forall>el\<in>set (pack_elems sample_src). elem_fits 4096 el"
  by (simp_all add: pack_ok_def sample_src_elems strictly_sorted_def elem_ok_def pack_key_ok_def enc_elem_def elem_fits_def
      hcore_pack_write_str_def value_bytes_def) (simp add: sample_src_def list_ok_def list_items_def)


end
