(* ===== verification/HPackGet.thy ===== *)
theory HPackGet
  imports HPackRound
begin

section \<open>Finding the elements of a pack\<close>

text \<open>
  hcore_pack_elem_get searches the list of a pack with qsort and bsearch of the C library. The locale
  \<open>sort_library\<close> of HList states what it needs of them; here it is interpreted for the comparison of packs.
\<close>

interpretation pack_sort: sort_library "hcore_pack_cmp_name heap" "{p. pack_key_ok (heap p)}" ref_sortlib for heap
  by (rule ref_sort_library, rule pack_cmp_name_comparator) simp

lemma pack_sorted_items: "sorted_cmp (hcore_pack_cmp_name heap) ps = sorted_cmp pack_elem_cmp (map heap ps)"
  by (simp add: sorted_cmp_def sorted_wrt_map hcore_pack_cmp_name_def)

definition pack_lib :: "int sortlib \<Rightarrow> bool" where
  "pack_lib lib \<longleftrightarrow> (\<forall>heap. sort_library (hcore_pack_cmp_name heap) {p. pack_key_ok (heap p)} lib)"

lemma ref_pack_lib: "pack_lib ref_sortlib"
  by (simp add: pack_lib_def pack_sort.sort_library_axioms)

lemma pack_get_search:
  assumes "pack_lib lib" and "list_ok (pk_list pk)" and "stack_elem \<notin> set (list_items (pk_list pk))"
    and "\<forall>el\<in>set (pack_elems pk). pack_key_ok el" and "l_sorted (pk_list pk) \<longrightarrow> sorted_cmp pack_elem_cmp (pack_elems pk)"
    and t: "t = (pk_heap pk stack_elem)\<lparr>e_name := name, e_type := type\<rparr>" "pack_key_ok t"
    and run: "hcore_pack_elem_get lib pk name type = (r, pk')"
  shows "list_ok (pk_list pk') \<and> pk_heap pk' = pk_heap pk \<and> mset (list_items (pk_list pk')) = mset (list_items (pk_list pk))
    \<and> sorted_cmp pack_elem_cmp (pack_elems pk')
    \<and> (case r of Some a \<Rightarrow> a \<in> set (list_items (pk_list pk)) \<and> pack_elem_cmp t (pk_heap pk a) = 0
       | None \<Rightarrow> \<forall>el\<in>set (pack_elems pk). pack_elem_cmp t el \<noteq> 0)"
proof -
  define heap where "heap = (pk_heap pk)(stack_elem := t)"
  let ?l = "pk_list pk"
  have same: "map heap ps = map (pk_heap pk) ps" if "stack_elem \<notin> set ps" for ps
    using that by (auto simp: heap_def)
  obtain l where l: "hcore_list_search lib (Some (hcore_pack_cmp_name heap)) ?l (Some stack_elem) = (r, l)" "pk' = pk\<lparr>pk_list := l\<rparr>"
    using run unfolding hcore_pack_elem_get_def t(1) [symmetric] heap_def [symmetric] Let_def by (auto split: prod.splits)
  have lib: "sort_library (hcore_pack_cmp_name heap) {p. pack_key_ok (heap p)} lib" using assms(1) by (simp add: pack_lib_def)
  have keys: "set (list_items ?l) \<subseteq> {p. pack_key_ok (heap p)}" "stack_elem \<in> {p. pack_key_ok (heap p)}"
    using assms(3,4) t(2) by (auto simp: heap_def pack_elems_def)
  have "l_sorted ?l \<longrightarrow> sorted_cmp (hcore_pack_cmp_name heap) (list_items ?l)"
    using assms(5) unfolding pack_sorted_items same [OF assms(3)] pack_elems_def [symmetric] .
  note found = sort_library.list_search_spec [OF lib assms(2) keys this l(1)]
  have items: "set (list_items l) = set (list_items ?l)" using found by (metis set_mset_mset)
  then have "pack_elems pk' = map heap (list_items l)" using same [of "list_items l"] assms(3) l(2) by (simp add: pack_elems_def)
  then have "sorted_cmp pack_elem_cmp (pack_elems pk')" using found by (simp add: pack_sorted_items)
  moreover have "hcore_pack_cmp_name heap stack_elem a = pack_elem_cmp t (pk_heap pk a)" if "a \<in> set (list_items ?l)" for a
    using that assms(3) by (auto simp: hcore_pack_cmp_name_def heap_def)
  ultimately show ?thesis using found l(2) by (auto simp: pack_elems_def split: option.splits)
qed

text \<open>C40: hcore_pack_elem_get finds an element exactly when the pack has one with the name and the type given, and what it
  finds has them. The search may put the pack in order; it neither loses nor adds nor changes an element.\<close>

theorem pack_elem_get_correct:
  assumes "pack_lib lib" and "list_ok (pk_list pk)" and "stack_elem \<notin> set (list_items (pk_list pk))"
    and "\<forall>el\<in>set (pack_elems pk). pack_key_ok el" and "l_sorted (pk_list pk) \<longrightarrow> sorted_cmp pack_elem_cmp (pack_elems pk)"
    and "0 \<le> type" "type \<le> 2147483647" "length name \<le> 2147483647"
    and "hcore_pack_elem_get lib pk name type = (r, pk')"
  shows "mset (pack_elems pk') = mset (pack_elems pk) \<and> sorted_cmp pack_elem_cmp (pack_elems pk')
    \<and> (case r of
         Some a \<Rightarrow> a \<in> set (list_items (pk_list pk)) \<and> e_name (pk_heap pk a) = name \<and> e_type (pk_heap pk a) = type
       | None \<Rightarrow> \<not> (\<exists>el\<in>set (pack_elems pk). e_name el = name \<and> e_type el = type))"
proof -
  define t where "t = (pk_heap pk stack_elem)\<lparr>e_name := name, e_type := type\<rparr>"
  have t: "pack_key_ok t" "e_name t = name" "e_type t = type" using assms(6-8) by (simp_all add: t_def pack_key_ok_def)
  note found = pack_get_search [OF assms(1-5) t_def t(1) assms(9)]
  have zero: "pack_elem_cmp t el = 0 \<longleftrightarrow> e_name el = name \<and> e_type el = type" if "el \<in> set (pack_elems pk)" for el
    using pack_cmp_zero [OF t(1), of el] assms(4) that t(2,3) by auto
  have "mset (pack_elems pk') = mset (pack_elems pk)" using found by (simp add: pack_elems_def)
  then show ?thesis using found zero by (auto simp: pack_elems_def split: option.splits)
qed

theorem pack_elem_get_correct_witness:
  "\<exists>r pk'. hcore_pack_elem_get ref_sortlib sample_src [97] 0 = (r, pk') \<and> r = Some 200"
proof -
  obtain r pk' where run: "hcore_pack_elem_get ref_sortlib sample_src [97] 0 = (r, pk')" by (metis surj_pair)
  have items: "list_items (pk_list sample_src) = [200]" by (simp add: sample_src_def list_items_def)
  have "list_ok (pk_list sample_src)" "l_sorted (pk_list sample_src)" by (simp_all add: sample_src_def list_ok_def)
  then have "case r of Some a \<Rightarrow> a \<in> {200} | None \<Rightarrow> False"
    using pack_elem_get_correct [OF ref_pack_lib _ _ _ _ _ _ _ run] items
    by (simp add: sample_src_elems pack_key_ok_def stack_elem_def sorted_cmp_Cons split: option.splits)
  then show ?thesis using run by (auto split: option.splits)
qed

end
