(* ===== verification/HRbtree.thy ===== *)
theory HRbtree
  imports HPrelude "HOL-Library.Tree"
begin

section \<open>Red-black trees (src/hcore_rbtree.c, include/hcore_rbtree.h)\<close>

text \<open>
  The nodes are intrusive: a tree is a heap of the fields of hcore_rbtree_node_t, addressed by the
  node, with the \<open>root\<close> of hcore_rbtree_t beside them. The sentinel \<open>s\<close> of the tree is an argument;
  it stands for every empty subtree, and deletion writes its parent. Every assignment of the code is a
  setter applied to the heap the assignments before it left. The loops are partial functions: \<open>None\<close>
  is a loop that does not end. Keys are 32 bits wide.
\<close>

subsection \<open>Nodes\<close>

type_synonym rnode = int

record rheap =
  r_key :: "rnode \<Rightarrow> int"
  r_left :: "rnode \<Rightarrow> rnode"
  r_right :: "rnode \<Rightarrow> rnode"
  r_parent :: "rnode \<Rightarrow> rnode"
  r_red :: "rnode \<Rightarrow> bool"
  r_root :: rnode

definition set_left :: "rnode \<Rightarrow> rnode \<Rightarrow> rheap \<Rightarrow> rheap" where
  "set_left a v h = h\<lparr>r_left := (r_left h)(a := v)\<rparr>"

definition set_right :: "rnode \<Rightarrow> rnode \<Rightarrow> rheap \<Rightarrow> rheap" where
  "set_right a v h = h\<lparr>r_right := (r_right h)(a := v)\<rparr>"

definition set_parent :: "rnode \<Rightarrow> rnode \<Rightarrow> rheap \<Rightarrow> rheap" where
  "set_parent a v h = h\<lparr>r_parent := (r_parent h)(a := v)\<rparr>"

definition set_key :: "rnode \<Rightarrow> int \<Rightarrow> rheap \<Rightarrow> rheap" where
  "set_key a v h = h\<lparr>r_key := (r_key h)(a := v)\<rparr>"

definition set_red :: "rnode \<Rightarrow> bool \<Rightarrow> rheap \<Rightarrow> rheap" where
  "set_red a v h = h\<lparr>r_red := (r_red h)(a := v)\<rparr>"

definition set_root :: "rnode \<Rightarrow> rheap \<Rightarrow> rheap" where
  "set_root v h = h\<lparr>r_root := v\<rparr>"

definition hcore_rbt_red :: "rnode \<Rightarrow> rheap \<Rightarrow> rheap" where
  "hcore_rbt_red a h = set_red a True h"

definition hcore_rbt_black :: "rnode \<Rightarrow> rheap \<Rightarrow> rheap" where
  "hcore_rbt_black a h = set_red a False h"

definition hcore_rbt_copy_color :: "rnode \<Rightarrow> rnode \<Rightarrow> rheap \<Rightarrow> rheap" where
  "hcore_rbt_copy_color a b h = set_red a (r_red h b) h"

definition hcore_rbtree_init :: "rnode \<Rightarrow> rheap \<Rightarrow> rheap" where
  "hcore_rbtree_init s h = set_root s (hcore_rbt_black s h)"

subsection \<open>Rotations\<close>

definition hcore_rbtree_left_rotate :: "rnode \<Rightarrow> rnode \<Rightarrow> rheap \<Rightarrow> rheap" where
  "hcore_rbtree_left_rotate s node h =
     (let temp = r_right h node;
          h = set_right node (r_left h temp) h;
          h = (if r_left h temp \<noteq> s then set_parent (r_left h temp) node h else h);
          h = set_parent temp (r_parent h node) h;
          h = (if node = r_root h then set_root temp h
               else if node = r_left h (r_parent h node) then set_left (r_parent h node) temp h
               else set_right (r_parent h node) temp h);
          h = set_left temp node h
      in set_parent node temp h)"

definition hcore_rbtree_right_rotate :: "rnode \<Rightarrow> rnode \<Rightarrow> rheap \<Rightarrow> rheap" where
  "hcore_rbtree_right_rotate s node h =
     (let temp = r_left h node;
          h = set_left node (r_right h temp) h;
          h = (if r_right h temp \<noteq> s then set_parent (r_right h temp) node h else h);
          h = set_parent temp (r_parent h node) h;
          h = (if node = r_root h then set_root temp h
               else if node = r_right h (r_parent h node) then set_right (r_parent h node) temp h
               else set_left (r_parent h node) temp h);
          h = set_right temp node h
      in set_parent node temp h)"

subsection \<open>Insertion\<close>

text \<open>The loop of the two callbacks: down to a node with no child on the side of the new key; the
  side is left when the flag is set.\<close>

partial_function (option) rb_descend :: "(int \<Rightarrow> int \<Rightarrow> bool) \<Rightarrow> rheap \<Rightarrow> rnode \<Rightarrow> rnode \<Rightarrow> rnode \<Rightarrow> (rnode \<times> bool) option" where
  "rb_descend lt h node s temp =
     (let to_left = lt (r_key h node) (r_key h temp);
          p = (if to_left then r_left h temp else r_right h temp)
      in if p = s then Some (temp, to_left) else rb_descend lt h node s p)"

definition rb_link :: "rnode \<Rightarrow> rnode \<Rightarrow> rnode \<times> bool \<Rightarrow> rheap \<Rightarrow> rheap" where
  "rb_link node s pos h = (case pos of (temp, to_left) \<Rightarrow>
     (let h = (if to_left then set_left temp node h else set_right temp node h);
          h = set_parent node temp h;
          h = set_left node s h;
          h = set_right node s h
      in hcore_rbt_red node h))"

definition key_less :: "int \<Rightarrow> int \<Rightarrow> bool" where
  "key_less a b \<longleftrightarrow> a < b"

definition timer_less :: "int \<Rightarrow> int \<Rightarrow> bool" where
  "timer_less a b \<longleftrightarrow> i32 (u32 (a - b)) < 0"

definition hcore_rbtree_insert_value :: "rnode \<Rightarrow> rnode \<Rightarrow> rnode \<Rightarrow> rheap \<Rightarrow> rheap option" where
  "hcore_rbtree_insert_value temp node s h =
     map_option (\<lambda>pos. rb_link node s pos h) (rb_descend key_less h node s temp)"

definition hcore_rbtree_insert_timer_value :: "rnode \<Rightarrow> rnode \<Rightarrow> rnode \<Rightarrow> rheap \<Rightarrow> rheap option" where
  "hcore_rbtree_insert_timer_value temp node s h =
     map_option (\<lambda>pos. rb_link node s pos h) (rb_descend timer_less h node s temp)"

text \<open>The two branches of the balancing loop's body: the parent is a left child, or a right one.\<close>

definition insert_fix_left :: "rnode \<Rightarrow> rnode \<Rightarrow> rheap \<Rightarrow> rnode \<times> rheap" where
  "insert_fix_left s node h =
     (let temp = r_right h (r_parent h (r_parent h node)) in
      if r_red h temp then
        let h = hcore_rbt_black (r_parent h node) h;
            h = hcore_rbt_black temp h;
            h = hcore_rbt_red (r_parent h (r_parent h node)) h
        in (r_parent h (r_parent h node), h)
      else
        let (node, h) = (if node = r_right h (r_parent h node)
              then (r_parent h node, hcore_rbtree_left_rotate s (r_parent h node) h) else (node, h));
            h = hcore_rbt_black (r_parent h node) h;
            h = hcore_rbt_red (r_parent h (r_parent h node)) h
        in (node, hcore_rbtree_right_rotate s (r_parent h (r_parent h node)) h))"

definition insert_fix_right :: "rnode \<Rightarrow> rnode \<Rightarrow> rheap \<Rightarrow> rnode \<times> rheap" where
  "insert_fix_right s node h =
     (let temp = r_left h (r_parent h (r_parent h node)) in
      if r_red h temp then
        let h = hcore_rbt_black (r_parent h node) h;
            h = hcore_rbt_black temp h;
            h = hcore_rbt_red (r_parent h (r_parent h node)) h
        in (r_parent h (r_parent h node), h)
      else
        let (node, h) = (if node = r_left h (r_parent h node)
              then (r_parent h node, hcore_rbtree_right_rotate s (r_parent h node) h) else (node, h));
            h = hcore_rbt_black (r_parent h node) h;
            h = hcore_rbt_red (r_parent h (r_parent h node)) h
        in (node, hcore_rbtree_left_rotate s (r_parent h (r_parent h node)) h))"

partial_function (option) insert_fix_loop :: "rnode \<Rightarrow> rnode \<Rightarrow> rheap \<Rightarrow> rheap option" where
  "insert_fix_loop s node h =
     (if node \<noteq> r_root h \<and> r_red h (r_parent h node) then
        let (node, h) = (if r_parent h node = r_left h (r_parent h (r_parent h node))
              then insert_fix_left s node h else insert_fix_right s node h)
        in insert_fix_loop s node h
      else Some h)"

definition hcore_rbtree_insert ::
  "(rnode \<Rightarrow> rnode \<Rightarrow> rnode \<Rightarrow> rheap \<Rightarrow> rheap option) \<Rightarrow> rnode \<Rightarrow> rnode \<Rightarrow> rheap \<Rightarrow> rheap option" where
  "hcore_rbtree_insert ins s node h =
     (if r_root h = s then
        let h = set_parent node 0 h;
            h = set_left node s h;
            h = set_right node s h;
            h = hcore_rbt_black node h
        in Some (set_root node h)
      else
        (case ins (r_root h) node s h of
           None \<Rightarrow> None
         | Some h \<Rightarrow>
             (case insert_fix_loop s node h of
                None \<Rightarrow> None
              | Some h \<Rightarrow> Some (hcore_rbt_black (r_root h) h))))"

subsection \<open>Deletion\<close>

partial_function (option) hcore_rbtree_min :: "rheap \<Rightarrow> rnode \<Rightarrow> rnode \<Rightarrow> rnode option" where
  "hcore_rbtree_min h node s = (if r_left h node \<noteq> s then hcore_rbtree_min h (r_left h node) s else Some node)"

text \<open>The node that leaves its place, and the subtree that comes there.\<close>

definition delete_choose :: "rnode \<Rightarrow> rnode \<Rightarrow> rheap \<Rightarrow> (rnode \<times> rnode) option" where
  "delete_choose s node h =
     (if r_left h node = s then Some (node, r_right h node)
      else if r_right h node = s then Some (node, r_left h node)
      else map_option (\<lambda>subst. (subst, if r_left h subst \<noteq> s then r_left h subst else r_right h subst))
        (hcore_rbtree_min h (r_right h node) s))"

definition delete_clear :: "rnode \<Rightarrow> rheap \<Rightarrow> rheap" where
  "delete_clear node h = set_key node 0 (set_parent node 0 (set_right node 0 (set_left node 0 h)))"

definition delete_unlink :: "rnode \<Rightarrow> rnode \<Rightarrow> rheap \<Rightarrow> rheap" where
  "delete_unlink subst temp h =
     (if subst = r_left h (r_parent h subst) then set_left (r_parent h subst) temp h
      else set_right (r_parent h subst) temp h)"

text \<open>\<open>subst\<close> takes the place and the color of the node.\<close>

definition delete_replace :: "rnode \<Rightarrow> rnode \<Rightarrow> rnode \<Rightarrow> rnode \<Rightarrow> rheap \<Rightarrow> rheap" where
  "delete_replace s node subst temp h =
     (let h = (if r_parent h subst = node then set_parent temp subst h else set_parent temp (r_parent h subst) h);
          h = set_left subst (r_left h node) h;
          h = set_right subst (r_right h node) h;
          h = set_parent subst (r_parent h node) h;
          h = hcore_rbt_copy_color subst node h;
          h = (if node = r_root h then set_root subst h
               else if node = r_left h (r_parent h node) then set_left (r_parent h node) subst h
               else set_right (r_parent h node) subst h);
          h = (if r_left h subst \<noteq> s then set_parent (r_left h subst) subst h else h)
      in if r_right h subst \<noteq> s then set_parent (r_right h subst) subst h else h)"

text \<open>The body of the balancing loop, for a left and for a right child: a red sibling is rotated up first; then
  the cases of its children.\<close>

definition delete_sibling_left :: "rnode \<Rightarrow> rnode \<Rightarrow> rheap \<Rightarrow> rnode \<times> rheap" where
  "delete_sibling_left s temp h =
     (let w = r_right h (r_parent h temp) in
      if r_red h w then
        let h = hcore_rbt_black w h;
            h = hcore_rbt_red (r_parent h temp) h;
            h = hcore_rbtree_left_rotate s (r_parent h temp) h
        in (r_right h (r_parent h temp), h)
      else (w, h))"

definition delete_case_left :: "rnode \<Rightarrow> rnode \<Rightarrow> rnode \<Rightarrow> rheap \<Rightarrow> rnode \<times> rheap" where
  "delete_case_left s temp w h =
     (if \<not> r_red h (r_left h w) \<and> \<not> r_red h (r_right h w) then
        let h = hcore_rbt_red w h in (r_parent h temp, h)
      else
        let (w, h) = (if \<not> r_red h (r_right h w) then
              let h = hcore_rbt_black (r_left h w) h;
                  h = hcore_rbt_red w h;
                  h = hcore_rbtree_right_rotate s w h
              in (r_right h (r_parent h temp), h)
            else (w, h));
            h = hcore_rbt_copy_color w (r_parent h temp) h;
            h = hcore_rbt_black (r_parent h temp) h;
            h = hcore_rbt_black (r_right h w) h;
            h = hcore_rbtree_left_rotate s (r_parent h temp) h
        in (r_root h, h))"

definition delete_fix_left :: "rnode \<Rightarrow> rnode \<Rightarrow> rheap \<Rightarrow> rnode \<times> rheap" where
  "delete_fix_left s temp h = (let (w, h) = delete_sibling_left s temp h in delete_case_left s temp w h)"

definition delete_sibling_right :: "rnode \<Rightarrow> rnode \<Rightarrow> rheap \<Rightarrow> rnode \<times> rheap" where
  "delete_sibling_right s temp h =
     (let w = r_left h (r_parent h temp) in
      if r_red h w then
        let h = hcore_rbt_black w h;
            h = hcore_rbt_red (r_parent h temp) h;
            h = hcore_rbtree_right_rotate s (r_parent h temp) h
        in (r_left h (r_parent h temp), h)
      else (w, h))"

definition delete_case_right :: "rnode \<Rightarrow> rnode \<Rightarrow> rnode \<Rightarrow> rheap \<Rightarrow> rnode \<times> rheap" where
  "delete_case_right s temp w h =
     (if \<not> r_red h (r_left h w) \<and> \<not> r_red h (r_right h w) then
        let h = hcore_rbt_red w h in (r_parent h temp, h)
      else
        let (w, h) = (if \<not> r_red h (r_left h w) then
              let h = hcore_rbt_black (r_right h w) h;
                  h = hcore_rbt_red w h;
                  h = hcore_rbtree_left_rotate s w h
              in (r_left h (r_parent h temp), h)
            else (w, h));
            h = hcore_rbt_copy_color w (r_parent h temp) h;
            h = hcore_rbt_black (r_parent h temp) h;
            h = hcore_rbt_black (r_left h w) h;
            h = hcore_rbtree_right_rotate s (r_parent h temp) h
        in (r_root h, h))"

definition delete_fix_right :: "rnode \<Rightarrow> rnode \<Rightarrow> rheap \<Rightarrow> rnode \<times> rheap" where
  "delete_fix_right s temp h = (let (w, h) = delete_sibling_right s temp h in delete_case_right s temp w h)"

partial_function (option) delete_fix_loop :: "rnode \<Rightarrow> rnode \<Rightarrow> rheap \<Rightarrow> (rnode \<times> rheap) option" where
  "delete_fix_loop s temp h =
     (if temp \<noteq> r_root h \<and> \<not> r_red h temp then
        let (temp, h) = (if temp = r_left h (r_parent h temp)
              then delete_fix_left s temp h else delete_fix_right s temp h)
        in delete_fix_loop s temp h
      else Some (temp, h))"

definition hcore_rbtree_delete :: "rnode \<Rightarrow> rnode \<Rightarrow> rheap \<Rightarrow> rheap option" where
  "hcore_rbtree_delete s node h =
     (case delete_choose s node h of
        None \<Rightarrow> None
      | Some (subst, temp) \<Rightarrow>
          if subst = r_root h then
            Some (delete_clear node (hcore_rbt_black temp (set_root temp h)))
          else
            let red = r_red h subst;
                h = delete_unlink subst temp h;
                h = (if subst = node then set_parent temp (r_parent h subst) h
                     else delete_replace s node subst temp h);
                h = delete_clear node h
            in if red then Some h
               else (case delete_fix_loop s temp h of
                   None \<Rightarrow> None
                 | Some (temp, h) \<Rightarrow> Some (hcore_rbt_black temp h)))"

subsection \<open>Successor\<close>

partial_function (option) rb_next_up :: "rheap \<Rightarrow> rnode \<Rightarrow> rnode option" where
  "rb_next_up h node =
     (let parent = r_parent h node in
      if node = r_root h then Some 0
      else if node = r_left h parent then Some parent
      else rb_next_up h parent)"

definition hcore_rbtree_next :: "rnode \<Rightarrow> rnode \<Rightarrow> rheap \<Rightarrow> rnode option" where
  "hcore_rbtree_next s node h =
     (if r_right h node \<noteq> s then hcore_rbtree_min h (r_right h node) s else rb_next_up h node)"

end
