(* ===== verification/HRbZip.thy ===== *)
theory HRbZip
  imports HRbtree
begin

section \<open>Red-black trees: the shape of the heap\<close>

text \<open>
  The abstraction of a heap of nodes is a binary tree of addresses (HOL-Library.Tree). The code works
  at one node and walks up, so the proofs look at a tree through a zipper: the subtree at the node and
  the frames above it, the innermost first. A frame says on which side the hole is (left if the flag is
  set), which node it is below, and what hangs on the other side. The right-hand halves of the balancing
  loops are the left-hand ones with left and right exchanged, in the heap and in the tree.
\<close>

subsection \<open>Trees in the heap\<close>

type_synonym rframes = "(bool \<times> rnode \<times> rnode tree) list"

fun addr :: "rnode \<Rightarrow> rnode tree \<Rightarrow> rnode" where
  "addr s Leaf = s"
| "addr s (Node l x r) = x"

definition under :: "rheap \<Rightarrow> rnode \<Rightarrow> rnode \<Rightarrow> rnode \<Rightarrow> bool" where
  "under h s x a \<longleftrightarrow> (a \<noteq> s \<longrightarrow> r_parent h a = x)"

lemma under_sentinel [simp]: "under h s x s"
  by (simp add: under_def)

fun tree_at :: "rheap \<Rightarrow> rnode \<Rightarrow> rnode tree \<Rightarrow> bool" where
  "tree_at h s Leaf = True"
| "tree_at h s (Node l x r) = (r_left h x = addr s l \<and> r_right h x = addr s r
     \<and> under h s x (addr s l) \<and> under h s x (addr s r) \<and> tree_at h s l \<and> tree_at h s r)"

fun plug :: "rnode tree \<Rightarrow> rframes \<Rightarrow> rnode tree" where
  "plug t [] = t"
| "plug t ((d, x, u) # fs) = plug (if d then Node t x u else Node u x t) fs"

fun frames_at :: "rheap \<Rightarrow> rnode \<Rightarrow> rnode \<Rightarrow> rframes \<Rightarrow> bool" where
  "frames_at h s a [] = (r_root h = a)"
| "frames_at h s a ((d, x, u) # fs) = (r_left h x = (if d then a else addr s u) \<and> r_right h x = (if d then addr s u else a)
     \<and> under h s x a \<and> under h s x (addr s u) \<and> tree_at h s u \<and> frames_at h s x fs)"

fun frame_nodes :: "rframes \<Rightarrow> rnode set" where
  "frame_nodes [] = {}"
| "frame_nodes ((d, x, u) # fs) = insert x (set_tree u \<union> frame_nodes fs)"

fun frames_distinct :: "rframes \<Rightarrow> bool" where
  "frames_distinct [] = True"
| "frames_distinct ((d, x, u) # fs) = (distinct (inorder u) \<and> x \<notin> set_tree u \<and> x \<notin> frame_nodes fs
     \<and> set_tree u \<inter> frame_nodes fs = {} \<and> frames_distinct fs)"

definition zip_ok :: "rnode \<Rightarrow> rnode tree \<Rightarrow> rframes \<Rightarrow> bool" where
  "zip_ok s t fs \<longleftrightarrow> distinct (inorder t) \<and> frames_distinct fs \<and> set_tree t \<inter> frame_nodes fs = {}
     \<and> s \<notin> set_tree t \<and> s \<notin> frame_nodes fs"

definition view :: "rheap \<Rightarrow> rnode \<Rightarrow> rnode tree \<Rightarrow> rframes \<Rightarrow> bool" where
  "view h s t fs \<longleftrightarrow> tree_at h s t \<and> frames_at h s (addr s t) fs \<and> zip_ok s t fs"

lemma plug_simps [simp]:
  "plug t ((True, x, u) # fs) = plug (Node t x u) fs" "plug t ((False, x, u) # fs) = plug (Node u x t) fs"
  by simp_all

declare plug.simps(2) [simp del]

lemma set_plug: "set_tree (plug t fs) = set_tree t \<union> frame_nodes fs"
  by (induction t fs rule: plug.induct) (auto simp: plug.simps(2))

lemma zip_ok_frame: "zip_ok s t ((d, x, u) # fs) = zip_ok s (if d then Node t x u else Node u x t) fs"
  by (auto simp: zip_ok_def)

lemma view_frame: "view h s t ((d, x, u) # fs) = view h s (if d then Node t x u else Node u x t) fs"
  using zip_ok_frame [of s t d x u fs] by (auto simp: view_def)

lemma view_plug: "view h s t fs = view h s (plug t fs) []"
  by (induction t fs rule: plug.induct) (simp_all only: view_frame plug.simps)

lemma zip_ok_inorder: "inorder t' = inorder t \<Longrightarrow> zip_ok s t' fs = zip_ok s t fs"
  by (simp add: zip_ok_def flip: set_inorder)

lemma addr_cases: "t \<noteq> Leaf \<Longrightarrow> addr s t \<in> set_tree t" "t = Leaf \<Longrightarrow> addr s t = s"
  by (cases t; simp)+

lemma addr_notin: "z \<notin> set_tree t \<Longrightarrow> z \<noteq> s \<Longrightarrow> addr s t \<noteq> z"
  by (cases t) auto

lemma inorder_plug_cong: "inorder t' = inorder t \<Longrightarrow> inorder (plug t' fs) = inorder (plug t fs)"
proof (induction fs arbitrary: t t')
  case (Cons f fs)
  obtain d x u where "f = (d, x, u)" by (metis prod_cases3)
  then show ?case
    using Cons.IH [of "if d then Node t' x u else Node u x t'" "if d then Node t x u else Node u x t"] Cons.prems
    by (simp add: plug.simps(2))
qed simp

subsection \<open>Reads after writes\<close>

lemma rheap_reads [heap_simps]:
  "r_left (set_left a v h) z = (if z = a then v else r_left h z)" "r_right (set_left a v h) = r_right h"
  "r_parent (set_left a v h) = r_parent h" "r_red (set_left a v h) = r_red h" "r_root (set_left a v h) = r_root h"
  "r_key (set_left a v h) = r_key h"
  "r_right (set_right a v h) z = (if z = a then v else r_right h z)" "r_left (set_right a v h) = r_left h"
  "r_parent (set_right a v h) = r_parent h" "r_red (set_right a v h) = r_red h" "r_root (set_right a v h) = r_root h"
  "r_key (set_right a v h) = r_key h"
  "r_parent (set_parent a v h) z = (if z = a then v else r_parent h z)" "r_left (set_parent a v h) = r_left h"
  "r_right (set_parent a v h) = r_right h" "r_red (set_parent a v h) = r_red h" "r_root (set_parent a v h) = r_root h"
  "r_key (set_parent a v h) = r_key h"
  "r_red (set_red a c h) = (r_red h)(a := c)" "r_left (set_red a c h) = r_left h"
  "r_right (set_red a c h) = r_right h" "r_parent (set_red a c h) = r_parent h" "r_root (set_red a c h) = r_root h"
  "r_key (set_red a c h) = r_key h"
  "r_root (set_root v h) = v" "r_left (set_root v h) = r_left h" "r_right (set_root v h) = r_right h"
  "r_parent (set_root v h) = r_parent h" "r_red (set_root v h) = r_red h" "r_key (set_root v h) = r_key h"
  "r_key (set_key a k h) = (r_key h)(a := k)" "r_left (set_key a k h) = r_left h" "r_right (set_key a k h) = r_right h"
  "r_parent (set_key a k h) = r_parent h" "r_red (set_key a k h) = r_red h" "r_root (set_key a k h) = r_root h"
  by (simp_all add: set_left_def set_right_def set_parent_def set_red_def set_root_def set_key_def)

lemmas color_ops = hcore_rbt_red_def hcore_rbt_black_def hcore_rbt_copy_color_def

text \<open>Heaps with the same pointers hold the same trees.\<close>

lemma tree_at_same:
  assumes "\<And>z. z \<in> set_tree t \<Longrightarrow> r_left h' z = r_left h z \<and> r_right h' z = r_right h z"
    and "\<And>z. z \<in> set_tree t \<Longrightarrow> z \<noteq> addr s t \<Longrightarrow> r_parent h' z = r_parent h z"
    and "distinct (inorder t)"
  shows "tree_at h' s t = tree_at h s t"
  using assms
proof (induction t)
  case (Node l x r)
  have "tree_at h' s l = tree_at h s l" by (rule Node.IH(1)) (use Node.prems in auto)
  moreover have "tree_at h' s r = tree_at h s r" by (rule Node.IH(2)) (use Node.prems in auto)
  moreover have "under h' s x (addr s t) = under h s x (addr s t)" if t: "t = l \<or> t = r" for t
  proof (cases "t = Leaf")
    case False
    then have "addr s t \<in> set_tree t" by (rule addr_cases)
    moreover from this have "addr s t \<noteq> x" using Node.prems(3) t by auto
    ultimately show ?thesis using Node.prems(2) [of "addr s t"] t unfolding under_def by auto
  qed (simp add: under_def)
  ultimately show ?case using Node.prems(1) [of x] by simp
qed simp

lemma frames_at_same:
  assumes "\<And>z. z \<in> frame_nodes fs \<Longrightarrow> r_left h' z = r_left h z \<and> r_right h' z = r_right h z \<and> r_parent h' z = r_parent h z"
    and "a \<noteq> s \<Longrightarrow> fs \<noteq> [] \<Longrightarrow> r_parent h' a = r_parent h a" and "r_root h' = r_root h" and "frames_distinct fs"
  shows "frames_at h' s a fs = frames_at h s a fs"
  using assms
proof (induction fs arbitrary: a)
  case (Cons f fs)
  obtain d x u where f: "f = (d, x, u)" by (metis prod_cases3)
  have "tree_at h' s u = tree_at h s u" using Cons.prems f by (intro tree_at_same) auto
  moreover have "frames_at h' s x fs = frames_at h s x fs" using Cons.prems f by (intro Cons.IH) auto
  moreover have "under h' s x (addr s u) = under h s x (addr s u)" "under h' s x a = under h s x a"
    using Cons.prems f by (cases u; auto simp: under_def)+
  ultimately show ?case using Cons.prems(1) [of x] f by simp
qed simp

lemma tree_at_writes [heap_simps]:
  "a \<notin> set_tree t \<Longrightarrow> distinct (inorder t) \<Longrightarrow> tree_at (set_left a v h) s t = tree_at h s t"
  "a \<notin> set_tree t \<Longrightarrow> distinct (inorder t) \<Longrightarrow> tree_at (set_right a v h) s t = tree_at h s t"
  "a \<notin> set_tree t \<Longrightarrow> distinct (inorder t) \<Longrightarrow> tree_at (set_parent a v h) s t = tree_at h s t"
  "distinct (inorder t) \<Longrightarrow> tree_at (set_parent (addr s t) v h) s t = tree_at h s t"
  "distinct (inorder t) \<Longrightarrow> tree_at (set_red b c h) s t = tree_at h s t"
  "distinct (inorder t) \<Longrightarrow> tree_at (set_root b h) s t = tree_at h s t"
  "distinct (inorder t) \<Longrightarrow> tree_at (set_key b k h) s t = tree_at h s t"
  by (rule tree_at_same; auto simp: rheap_reads)+

lemma frames_at_writes [heap_simps]:
  "b \<notin> frame_nodes fs \<Longrightarrow> frames_distinct fs \<Longrightarrow> frames_at (set_left b v h) s a fs = frames_at h s a fs"
  "b \<notin> frame_nodes fs \<Longrightarrow> frames_distinct fs \<Longrightarrow> frames_at (set_right b v h) s a fs = frames_at h s a fs"
  "b \<notin> frame_nodes fs \<Longrightarrow> a \<noteq> b \<Longrightarrow> frames_distinct fs \<Longrightarrow> frames_at (set_parent b v h) s a fs = frames_at h s a fs"
  "frames_distinct fs \<Longrightarrow> frames_at (set_red b c h) s a fs = frames_at h s a fs"
  "frames_distinct fs \<Longrightarrow> frames_at (set_key b k h) s a fs = frames_at h s a fs"
  by (rule frames_at_same; auto simp: rheap_reads)+

lemma under_writes [heap_simps]:
  "under (set_left b v h) s x a = under h s x a" "under (set_right b v h) s x a = under h s x a"
  "under (set_red b c h) s x a = under h s x a" "under (set_root b h) s x a = under h s x a"
  "under (set_key b k h) s x a = under h s x a"
  "under (set_parent b v h) s x a = (if a = b then a = s \<or> v = x else under h s x a)"
  by (auto simp: under_def rheap_reads)

lemma view_colors [simp]: "view (set_red b c h) s t fs = view h s t fs"
  by (auto simp: view_def zip_ok_def heap_simps)

text \<open>Putting another node at the place of \<open>x\<close>, as rotations and deletion do.\<close>

definition relink :: "rnode \<Rightarrow> rnode \<Rightarrow> rheap \<Rightarrow> rheap" where
  "relink x y h = (if x = r_root h then set_root y h
     else if x = r_left h (r_parent h x) then set_left (r_parent h x) y h else set_right (r_parent h x) y h)"

lemma frames_root: "frames_at h s a fs \<Longrightarrow> fs \<noteq> [] \<Longrightarrow> r_root h \<in> frame_nodes fs"
proof (induction fs arbitrary: a)
  case (Cons f fs)
  then show ?case by (cases f; cases fs) auto
qed simp

lemma relink_at:
  assumes "frames_at h s x fs" and "x \<noteq> s" "x \<notin> frame_nodes fs" "frames_distinct fs"
    and y: "fs \<noteq> [] \<Longrightarrow> under h s (r_parent h x) y"
  shows "frames_at (relink x y h) s y fs"
    and "set_tree t \<inter> frame_nodes fs = {} \<Longrightarrow> distinct (inorder t) \<Longrightarrow> tree_at (relink x y h) s t = tree_at h s t"
    and "z \<notin> frame_nodes fs \<Longrightarrow> r_left (relink x y h) z = r_left h z \<and> r_right (relink x y h) z = r_right h z"
proof -
  have "frames_at (relink x y h) s y fs \<and> (set_tree t \<inter> frame_nodes fs = {} \<longrightarrow> distinct (inorder t) \<longrightarrow> tree_at (relink x y h) s t = tree_at h s t)
    \<and> (z \<notin> frame_nodes fs \<longrightarrow> r_left (relink x y h) z = r_left h z \<and> r_right (relink x y h) z = r_right h z)"
  proof (cases fs)
    case Nil
    then show ?thesis using assms(1) by (simp add: relink_def heap_simps)
  next
    case (Cons f fs')
    obtain e p u where f: "f = (e, p, u)" by (metis prod_cases3)
    have p: "r_parent h x = p" "x \<noteq> r_root h" "addr s u \<noteq> x"
      using assms(1-3) frames_root [OF assms(1)] addr_notin [of x u s] unfolding Cons f by (auto simp: under_def)
    show ?thesis using assms p y unfolding Cons f by (cases e) (simp_all add: relink_def heap_simps)
  qed
  then show "frames_at (relink x y h) s y fs"
    and "set_tree t \<inter> frame_nodes fs = {} \<Longrightarrow> distinct (inorder t) \<Longrightarrow> tree_at (relink x y h) s t = tree_at h s t"
    and "z \<notin> frame_nodes fs \<Longrightarrow> r_left (relink x y h) z = r_left h z \<and> r_right (relink x y h) z = r_right h z" by simp_all
qed

lemma relink_reads [heap_simps]:
  "r_parent (relink x y h) = r_parent h" "r_red (relink x y h) = r_red h" "r_key (relink x y h) = r_key h"
  by (simp_all add: relink_def heap_simps)

lemma under_relink [heap_simps]: "under (relink x y h) s p a = under h s p a"
  by (simp add: under_def heap_simps)

subsection \<open>Rotations\<close>

lemma left_rotate_view:
  assumes "view h s (Node a x (Node b y c)) fs"
  shows "view (hcore_rbtree_left_rotate s x h) s (Node (Node a x b) y c) fs"
proof -
  have ok: "zip_ok s (Node (Node a x b) y c) fs"
    using assms zip_ok_inorder [of "Node (Node a x b) y c" "Node a x (Node b y c)"] by (simp add: view_def)
  then have d: "x \<noteq> y" "x \<notin> set_tree a" "x \<notin> set_tree b" "x \<notin> set_tree c" "y \<notin> set_tree a" "y \<notin> set_tree b" "y \<notin> set_tree c"
    "x \<notin> frame_nodes fs" "y \<notin> frame_nodes fs" "x \<noteq> s" "y \<noteq> s" "distinct (inorder a)" "distinct (inorder b)" "distinct (inorder c)"
    "set_tree b \<inter> (set_tree a \<union> set_tree c \<union> frame_nodes fs) = {}" "s \<notin> set_tree b" "s \<notin> set_tree c" "s \<notin> set_tree a"
    "frames_distinct fs" "set_tree a \<inter> frame_nodes fs = {}" "set_tree c \<inter> frame_nodes fs = {}" "s \<notin> frame_nodes fs"
    by (auto simp: zip_ok_def)
  have ab: "addr s a \<noteq> x" "addr s a \<noteq> y" "addr s c \<noteq> x" "addr s c \<noteq> y" "addr s b \<noteq> x" "addr s b \<noteq> y"
    using d by (intro addr_notin; simp)+
  have v: "r_left h x = addr s a" "r_right h x = y" "r_left h y = addr s b" "r_right h y = addr s c" "under h s x (addr s a)"
    "under h s x y" "under h s y (addr s b)" "under h s y (addr s c)" "tree_at h s a" "tree_at h s b" "tree_at h s c"
    "frames_at h s x fs"
    using assms by (simp_all add: view_def)
  have b: "b = Leaf \<and> addr s b = s \<or> addr s b \<noteq> s \<and> addr s b \<notin> set_tree a \<and> addr s b \<notin> set_tree c
      \<and> addr s b \<notin> frame_nodes fs \<and> addr s b \<noteq> addr s a \<and> addr s b \<noteq> addr s c"
  proof (cases "b = Leaf")
    case False
    then have b: "addr s b \<in> set_tree b" by (rule addr_cases)
    then have "addr s b \<notin> set_tree a" "addr s b \<notin> set_tree c" "addr s b \<notin> frame_nodes fs" "addr s b \<noteq> s" using d by auto
    moreover from this have "addr s b \<noteq> addr s a" "addr s b \<noteq> addr s c" using addr_notin by metis+
    ultimately show ?thesis by simp
  qed simp
  define h1 where "h1 = (let h = set_right x (addr s b) h; h = (if addr s b \<noteq> s then set_parent (addr s b) x h else h)
    in set_parent y (r_parent h x) h)"
  have rot: "hcore_rbtree_left_rotate s x h = set_parent x y (set_left y x (relink x y h1))"
    using v d ab by (simp add: hcore_rbtree_left_rotate_def relink_def h1_def Let_def heap_simps)
  have l: "r_left h1 = r_left h" "r_right h1 = (r_right h)(x := addr s b)" "r_root h1 = r_root h"
    by (simp_all add: h1_def Let_def heap_simps fun_eq_iff)
  have p: "r_parent h1 z = (if z = y then r_parent h x else if z = addr s b \<and> z \<noteq> s then x else r_parent h z)" for z
    using ab(5) by (simp add: h1_def Let_def heap_simps)
  have bn: "z \<noteq> addr s b \<or> z = s" if "z \<in> set_tree a \<union> set_tree c \<union> frame_nodes fs" for z using b that by blast
  have "tree_at h1 s a = tree_at h s a" "tree_at h1 s c = tree_at h s c" "tree_at h1 s b = tree_at h s b"
    using d(1-7) bn by (intro tree_at_same d(12-14); auto simp: l p)+
  moreover have "frames_at h1 s x fs = frames_at h s x fs"
    using d(1,8,9) ab(5) bn by (intro frames_at_same d(19); auto simp: l p)
  moreover have "under h1 s (r_parent h1 x) y" "under h1 s x (addr s b)" using d(1) ab by (simp_all add: under_def p)
  moreover have "under h1 s x (addr s a)" "under h1 s y (addr s c)"
    using v(5,8) ab(2,4) b by (auto simp: under_def p)
  ultimately have h1: "tree_at h1 s a" "tree_at h1 s b" "tree_at h1 s c" "frames_at h1 s x fs" "under h1 s (r_parent h1 x) y"
    "r_left h1 x = addr s a" "r_right h1 x = addr s b" "r_left h1 y = addr s b" "r_right h1 y = addr s c"
    "under h1 s x (addr s a)" "under h1 s x (addr s b)" "under h1 s y (addr s c)"
    using v d(1) by (simp_all add: l)
  note re = relink_at [OF h1(4) d(10,8,19) h1(5)]
  have "tree_at (relink x y h1) s a" "tree_at (relink x y h1) s b" "tree_at (relink x y h1) s c"
    "frames_at (relink x y h1) s y fs"
    using re(1) re(2) [of a] re(2) [of b] re(2) [of c] h1 d by auto
  moreover have "r_left (relink x y h1) x = addr s a" "r_right (relink x y h1) x = addr s b"
    "r_right (relink x y h1) y = addr s c" using re(3) [of x] re(3) [of y] h1 d by simp_all
  ultimately show ?thesis using ok h1 d ab
    unfolding view_def rot by (simp add: heap_simps)
qed

text \<open>Rotating keeps what is not a pointer, and the sentinel's parent.\<close>

lemma left_rotate_keeps [heap_simps]:
  "r_red (hcore_rbtree_left_rotate s x h) = r_red h" "r_key (hcore_rbtree_left_rotate s x h) = r_key h"
  by (simp_all add: hcore_rbtree_left_rotate_def Let_def heap_simps)

lemma left_rotate_parent:
  "z \<noteq> x \<Longrightarrow> z \<noteq> r_right h x \<Longrightarrow> z = s \<or> z \<noteq> r_left h (r_right h x)
     \<Longrightarrow> r_parent (hcore_rbtree_left_rotate s x h) z = r_parent h z"
  by (auto simp: hcore_rbtree_left_rotate_def Let_def heap_simps)

subsection \<open>Left and right exchanged\<close>

definition flip :: "rheap \<Rightarrow> rheap" where
  "flip h = h\<lparr>r_left := r_right h, r_right := r_left h\<rparr>"

definition flip_frames :: "rframes \<Rightarrow> rframes" where
  "flip_frames = map (\<lambda>(d, x, u). (\<not> d, x, mirror u))"

lemma flip_frames_simps [simp]:
  "flip_frames [] = []" "flip_frames ((d, x, u) # fs) = (\<not> d, x, mirror u) # flip_frames fs"
  "length (flip_frames fs) = length fs" "flip_frames (flip_frames fs) = fs"
  by (simp_all add: flip_frames_def comp_def case_prod_beta)

lemma flip_reads [simp]:
  "r_left (flip h) = r_right h" "r_right (flip h) = r_left h" "r_parent (flip h) = r_parent h" "r_red (flip h) = r_red h"
  "r_root (flip h) = r_root h" "r_key (flip h) = r_key h" "flip (flip h) = h"
  by (simp_all add: flip_def)

lemma flip_writes [simp]:
  "set_left a v (flip h) = flip (set_right a v h)" "set_right a v (flip h) = flip (set_left a v h)"
  "set_parent a v (flip h) = flip (set_parent a v h)" "set_red a c (flip h) = flip (set_red a c h)"
  "set_root v (flip h) = flip (set_root v h)" "set_key a k (flip h) = flip (set_key a k h)"
  by (simp_all add: flip_def set_left_def set_right_def set_parent_def set_red_def set_root_def set_key_def)

lemma flip_if: "(if b then flip h else flip h') = flip (if b then h else h')"
  by simp

lemma addr_mirror [simp]: "addr s (mirror t) = addr s t"
  by (cases t) auto

lemma set_mirror [simp]: "set_tree (mirror t) = set_tree t"
  by (induction t) auto

lemma distinct_mirror [simp]: "distinct (inorder (mirror t)) = distinct (inorder t)"
  by (simp add: inorder_mirror)

lemma under_flip [simp]: "under (flip h) s x a = under h s x a"
  by (simp add: under_def)

lemma tree_at_flip [simp]: "tree_at (flip h) s (mirror t) = tree_at h s t"
  by (induction t) auto

lemma frames_flip [simp]:
  "frame_nodes (flip_frames fs) = frame_nodes fs" "frames_distinct (flip_frames fs) = frames_distinct fs"
  "frames_at (flip h) s a (flip_frames fs) = frames_at h s a fs"
  by (induction fs arbitrary: a) (auto split: prod.splits)

lemma view_flip [simp]: "view (flip h) s (mirror t) (flip_frames fs) = view h s t fs"
  by (simp add: view_def zip_ok_def)

lemma plug_flip [simp]: "plug (mirror t) (flip_frames fs) = mirror (plug t fs)"
  by (induction t fs rule: plug.induct) (auto simp: plug.simps(2) split: prod.splits)

lemma rotate_flip [simp]:
  "hcore_rbtree_left_rotate s x (flip h) = flip (hcore_rbtree_right_rotate s x h)"
  "hcore_rbtree_right_rotate s x (flip h) = flip (hcore_rbtree_left_rotate s x h)"
  by (simp_all add: hcore_rbtree_left_rotate_def hcore_rbtree_right_rotate_def Let_def flip_if
      cong: if_cong del: if_cancel)

lemma right_rotate_view:
  assumes "view h s (Node (Node a x b) y c) fs"
  shows "view (hcore_rbtree_right_rotate s y h) s (Node a x (Node b y c)) fs"
proof -
  have "view (flip h) s (Node (mirror c) y (Node (mirror b) x (mirror a))) (flip_frames fs)"
    using assms view_flip [of h s "Node (Node a x b) y c" fs] by simp
  then have "view (flip (hcore_rbtree_right_rotate s y h)) s (Node (Node (mirror c) y (mirror b)) x (mirror a)) (flip_frames fs)"
    using left_rotate_view by fastforce
  then show ?thesis
    using view_flip [of "hcore_rbtree_right_rotate s y h" s "Node a x (Node b y c)" fs] by simp
qed

lemma right_rotate_keeps [heap_simps]:
  "r_red (hcore_rbtree_right_rotate s x h) = r_red h" "r_key (hcore_rbtree_right_rotate s x h) = r_key h"
  by (simp_all add: hcore_rbtree_right_rotate_def Let_def heap_simps)

subsection \<open>Colors\<close>

text \<open>\<open>bal c t n\<close>: no red node has a red child, and every path down from \<open>t\<close> has \<open>n\<close> black nodes.
  \<open>fbal c n fs\<close> says it of the tree around a hole for a subtree with \<open>n\<close> black nodes; the topmost
  node is black, and nothing is said of the node in the hole and the one above it.\<close>

fun isred :: "(rnode \<Rightarrow> bool) \<Rightarrow> rnode tree \<Rightarrow> bool" where
  "isred c Leaf = False"
| "isred c (Node l x r) = c x"

fun bal :: "(rnode \<Rightarrow> bool) \<Rightarrow> rnode tree \<Rightarrow> nat \<Rightarrow> bool" where
  "bal c Leaf n = (n = 0)"
| "bal c (Node l x r) n = (if c x then \<not> isred c l \<and> \<not> isred c r \<and> bal c l n \<and> bal c r n
     else 0 < n \<and> bal c l (n - 1) \<and> bal c r (n - 1))"

fun parent_red :: "(rnode \<Rightarrow> bool) \<Rightarrow> rframes \<Rightarrow> bool" where
  "parent_red c [] = False"
| "parent_red c ((d, x, u) # fs) = c x"

fun fbal :: "(rnode \<Rightarrow> bool) \<Rightarrow> nat \<Rightarrow> rframes \<Rightarrow> bool" where
  "fbal c n [] = True"
| "fbal c n ((d, x, u) # fs) = (bal c u n \<and> (if c x then \<not> isred c u \<and> fs \<noteq> [] \<and> \<not> parent_red c fs \<and> fbal c n fs
     else fbal c (Suc n) fs))"

lemma colors_other [simp]:
  "x \<notin> set_tree t \<Longrightarrow> isred (c(x := v)) t = isred c t"
  "x \<notin> set_tree t \<Longrightarrow> bal (c(x := v)) t n = bal c t n"
  by (induction t arbitrary: n) auto

lemma fcolors_other [simp]:
  "x \<notin> frame_nodes fs \<Longrightarrow> parent_red (c(x := v)) fs = parent_red c fs"
  "x \<notin> frame_nodes fs \<Longrightarrow> fbal (c(x := v)) n fs = fbal c n fs"
  by (induction fs arbitrary: n) (auto split: prod.splits)

lemma colors_flip [simp]:
  "isred c (mirror t) = isred c t" "bal c (mirror t) n = bal c t n"
  "parent_red c (flip_frames fs) = parent_red c fs"
proof -
  show r: "isred c (mirror t) = isred c t" for t by (cases t) simp_all
  show "bal c (mirror t) n = bal c t n" by (induction t arbitrary: n) (auto simp: r)
  show "parent_red c (flip_frames fs) = parent_red c fs" by (cases fs) auto
qed

lemma flip_frames_Nil [simp]: "flip_frames fs = [] \<longleftrightarrow> fs = []"
  by (simp add: flip_frames_def)

lemma fbal_flip [simp]: "fbal c n (flip_frames fs) = fbal c n fs"
  by (induction fs arbitrary: n) (auto split: prod.splits)

lemma red_addr: "\<not> c s \<Longrightarrow> c (addr s t) = isred c t"
  by (cases t) auto

lemma bal_plug:
  assumes "bal c t n" and "fbal c n fs" and "isred c t \<Longrightarrow> \<not> parent_red c fs"
  shows "(\<exists>m. bal c (plug t fs) m) \<and> (fs \<noteq> [] \<longrightarrow> \<not> isred c (plug t fs))"
  using assms
proof (induction fs arbitrary: t n)
  case (Cons f fs)
  obtain d x u where f: "f = (d, x, u)" by (metis prod_cases3)
  define t' where "t' = (if d then Node t x u else Node u x t)"
  have "\<exists>n'. bal c t' n' \<and> fbal c n' fs \<and> (isred c t' \<longrightarrow> \<not> parent_red c fs \<and> fs \<noteq> [])"
  proof (cases "c x")
    case True
    then show ?thesis using Cons.prems unfolding f t'_def by (intro exI [of _ n]) auto
  next
    case False
    then show ?thesis using Cons.prems unfolding f t'_def by (intro exI [of _ "Suc n"]) auto
  qed
  then obtain n' where n': "bal c t' n'" "fbal c n' fs" "isred c t' \<longrightarrow> \<not> parent_red c fs \<and> fs \<noteq> []" by blast
  have "\<not> isred c (plug t' fs)" using n' Cons.IH [OF n'(1,2)] by (cases "fs = []") auto
  then show ?case using Cons.IH [OF n'(1,2)] n'(3) by (simp add: f plug.simps(2) flip: t'_def)
qed auto

lemma bal_unplug:
  assumes "bal c (plug t fs) m" and "\<not> isred c (plug t fs)"
  shows "\<exists>n. bal c t n \<and> fbal c n fs \<and> (isred c t \<longrightarrow> \<not> parent_red c fs)"
  using assms
proof (induction fs arbitrary: t)
  case (Cons f fs)
  obtain d x u where f: "f = (d, x, u)" by (metis prod_cases3)
  define t' where "t' = (if d then Node t x u else Node u x t)"
  have pl: "plug t (f # fs) = plug t' fs" by (simp add: f plug.simps(2) t'_def)
  obtain n where n: "bal c t' n" "fbal c n fs" "isred c t' \<longrightarrow> \<not> parent_red c fs"
    using Cons.IH [of t'] Cons.prems pl by auto
  show ?case
  proof (cases "c x")
    case True
    have "fs \<noteq> []"
    proof
      assume "fs = []"
      then show False using Cons.prems(2) True pl by (simp add: t'_def split: if_splits)
    qed
    then show ?thesis using n True unfolding f t'_def by (intro exI [of _ n]) (auto split: if_splits)
  next
    case False
    then show ?thesis using n unfolding f t'_def by (intro exI [of _ "n - 1"]) (auto split: if_splits)
  qed
qed auto

end
