(* ===== verification/HRbInsert.thy ===== *)
theory HRbInsert
  imports HRbZip
begin

section \<open>Red-black trees: insertion\<close>

subsection \<open>The balancing loop\<close>

text \<open>The loop is at a red node; the only thing that may be wrong with the colors is that the node above it
  is red too.\<close>

definition fixing :: "rheap \<Rightarrow> rnode \<Rightarrow> rnode tree \<Rightarrow> rframes \<Rightarrow> nat \<Rightarrow> bool" where
  "fixing h s t fs n \<longleftrightarrow> view h s t fs \<and> \<not> r_red h s \<and> isred (r_red h) t \<and> bal (r_red h) t n \<and> fbal (r_red h) n fs"

definition fix_result :: "rheap \<Rightarrow> rnode \<Rightarrow> rnode tree \<Rightarrow> rframes \<Rightarrow> rnode \<times> rheap \<Rightarrow> bool" where
  "fix_result h s t fs r \<longleftrightarrow> (\<exists>t' fs' n' h'. r = (addr s t', h') \<and> fixing h' s t' fs' n'
     \<and> inorder (plug t' fs') = inorder (plug t fs) \<and> length fs' < length fs \<and> r_key h' = r_key h)"

lemma fixing_reads:
  assumes "fixing h s t ((d, p, u) # (e, g, v) # fs) n"
  shows "r_parent h (addr s t) = p" "r_parent h p = g" "r_left h p = (if d then addr s t else addr s u)"
    "r_right h p = (if d then addr s u else addr s t)" "r_left h g = (if e then p else addr s v)"
    "r_right h g = (if e then addr s v else p)" "addr s t \<noteq> s" "addr s u \<noteq> addr s t" "addr s v \<noteq> p"
    "p \<noteq> s" "g \<noteq> s" "p \<notin> set_tree t \<union> set_tree u \<union> set_tree v \<union> frame_nodes fs \<union> {g}"
    "g \<notin> set_tree t \<union> set_tree u \<union> set_tree v \<union> frame_nodes fs"
    "set_tree v \<inter> (set_tree t \<union> set_tree u \<union> frame_nodes fs) = {}"
proof -
  obtain l x r where t: "t = Node l x r" using assms by (cases t) (simp_all add: fixing_def)
  have v: "view h s t ((d, p, u) # (e, g, v) # fs)" using assms by (simp add: fixing_def)
  then have ok: "zip_ok s t ((d, p, u) # (e, g, v) # fs)" by (simp add: view_def)
  then show d: "addr s t \<noteq> s" "p \<noteq> s" "g \<noteq> s" "p \<notin> set_tree t \<union> set_tree u \<union> set_tree v \<union> frame_nodes fs \<union> {g}"
    "g \<notin> set_tree t \<union> set_tree u \<union> set_tree v \<union> frame_nodes fs"
    "set_tree v \<inter> (set_tree t \<union> set_tree u \<union> frame_nodes fs) = {}"
    unfolding t zip_ok_def by auto
  show "addr s u \<noteq> addr s t" "addr s v \<noteq> p" using ok unfolding t zip_ok_def by (cases u; cases v; auto)+
  show "r_parent h (addr s t) = p" "r_parent h p = g" "r_left h p = (if d then addr s t else addr s u)"
    "r_right h p = (if d then addr s u else addr s t)" "r_left h g = (if e then p else addr s v)"
    "r_right h g = (if e then addr s v else p)"
    using v d unfolding view_def t by (auto simp: under_def)
qed

text \<open>The uncle is red: the three nodes change color, and the grandparent is next.\<close>

lemma fix_left_red:
  assumes fx: "fixing h s t ((d, p, u) # (True, g, v) # fs) n" and "r_red h p" and v: "r_red h (addr s v)"
  shows "fix_result h s t ((d, p, u) # (True, g, v) # fs) (insert_fix_left s (addr s t) h)"
proof -
  note rd = fixing_reads [OF fx]
  have "\<not> r_red h s" using fx by (simp add: fixing_def)
  then obtain vl a vr where va: "v = Node vl a vr" using v by (cases v) auto
  define t' where "t' = Node (if d then Node t p u else Node u p t) g v"
  define h' where "h' = set_red g True (set_red a False (set_red p False h))"
  have step: "insert_fix_left s (addr s t) h = (addr s t', h')"
    using v by (simp add: insert_fix_left_def rd color_ops heap_simps h'_def t'_def va Let_def)
  have g: "\<not> r_red h g" "\<not> parent_red (r_red h) ((True, g, v) # fs)" "fbal (r_red h) n ((True, g, v) # fs)"
    using fx assms(2) by (simp_all add: fixing_def split: if_splits)
  have a: "a \<notin> set_tree vl \<union> set_tree vr" "a \<notin> set_tree t \<union> set_tree u \<union> frame_nodes fs" "a \<noteq> p" "a \<noteq> g" "a \<noteq> s"
    using fx rd unfolding va fixing_def view_def zip_ok_def by auto
  have "view h' s t' fs"
    using fx view_frame [of h s t d p u] view_frame [of h s _ True g v fs]
    by (simp add: fixing_def h'_def t'_def split: if_splits)
  moreover have "\<not> r_red h' s" "isred (r_red h') t'" using fx rd by (simp_all add: fixing_def h'_def t'_def heap_simps)
  moreover have "bal (r_red h') t' (Suc n)"
    using fx assms(2) g v rd a va by (auto simp: fixing_def h'_def t'_def heap_simps split: if_splits)
  moreover have "fbal (r_red h') (Suc n) fs" using g rd a by (auto simp: h'_def heap_simps split: if_splits)
  ultimately have "fixing h' s t' fs (Suc n)" by (simp add: fixing_def)
  moreover have "r_key h' = r_key h" by (simp add: h'_def heap_simps)
  moreover have "inorder (plug t' fs) = inorder (plug t ((d, p, u) # (True, g, v) # fs))"
    by (simp add: t'_def plug.simps(2))
  ultimately show ?thesis unfolding fix_result_def step by (intro exI [of _ t'] exI [of _ fs] exI) auto
qed

text \<open>The uncle is black and the node is an outer grandchild: one rotation, and the node above is black.\<close>

lemma fix_left_outer:
  assumes fx: "fixing h s t ((True, p, u) # (True, g, v) # fs) n" and "r_red h p" and v: "\<not> r_red h (addr s v)"
  shows "fix_result h s t ((True, p, u) # (True, g, v) # fs) (insert_fix_left s (addr s t) h)"
proof -
  note rd = fixing_reads [OF fx, simplified]
  define h1 where "h1 = set_red g True (set_red p False h)"
  define h' where "h' = hcore_rbtree_right_rotate s g h1"
  have step: "insert_fix_left s (addr s t) h = (addr s t, h')"
    using v not_sym [OF rd(8)] by (simp add: insert_fix_left_def rd color_ops heap_simps h'_def h1_def Let_def)
  have g: "\<not> r_red h g" "\<not> isred (r_red h) u" "\<not> isred (r_red h) v" "fbal (r_red h) n ((True, p, u) # (True, g, v) # fs)"
    using fx assms(2) v red_addr [of "r_red h" s v] by (simp_all add: fixing_def split: if_splits)
  have "view h1 s (Node (Node t p u) g v) fs"
    using fx view_frame [of h s t True p u] view_frame [of h s "Node t p u" True g v fs] by (simp add: fixing_def h1_def)
  then have "view h' s t ((True, p, Node u g v) # fs)"
    using right_rotate_view view_frame [of h' s t True p "Node u g v" fs] by (simp add: h'_def)
  moreover have "r_red h' = (r_red h)(p := False, g := True)" by (simp add: h'_def h1_def heap_simps)
  ultimately have "fixing h' s t ((True, p, Node u g v) # fs) n"
    using fx assms(2) g rd by (auto simp: fixing_def split: if_splits)
  moreover have "r_key h' = r_key h" by (simp add: h'_def h1_def heap_simps)
  moreover have "inorder (plug t ((True, p, Node u g v) # fs)) = inorder (plug t ((True, p, u) # (True, g, v) # fs))"
    by (simp add: inorder_plug_cong)
  ultimately show ?thesis unfolding fix_result_def step
    by (intro exI [of _ t] exI [of _ "(True, p, Node u g v) # fs"] exI) auto
qed

text \<open>An inner grandchild is rotated up first, and is then an outer one.\<close>

lemma fix_left_inner:
  assumes fx: "fixing h s t ((False, p, u) # (True, g, v) # fs) n" and "r_red h p" and v: "\<not> r_red h (addr s v)"
  shows "fix_result h s t ((False, p, u) # (True, g, v) # fs) (insert_fix_left s (addr s t) h)"
proof -
  note rd = fixing_reads [OF fx, simplified]
  obtain l x r where t: "t = Node l x r" using fx by (cases t) (simp_all add: fixing_def)
  define h1 where "h1 = hcore_rbtree_left_rotate s p h"
  have red: "r_red h1 = r_red h" by (simp add: h1_def heap_simps)
  have "view h s (Node u p (Node l x r)) ((True, g, v) # fs)"
    using fx view_frame [of h s t False p u] by (simp add: fixing_def t)
  then have "view h1 s (Node u p l) ((True, x, r) # (True, g, v) # fs)"
    using left_rotate_view view_frame [of h1 s "Node u p l" True x r] by (simp add: h1_def)
  then have fx1: "fixing h1 s (Node u p l) ((True, x, r) # (True, g, v) # fs) n"
    using fx assms(2) by (auto simp: fixing_def t red split: if_splits)
  note rd1 = fixing_reads [OF fx1, simplified]
  have "insert_fix_left s (addr s t) h = insert_fix_left s (addr s (Node u p l)) h1"
    using v rd(1-8) rd1(1-8) unfolding insert_fix_left_def Let_def by (simp add: red flip: h1_def)
  then have same: "insert_fix_left s (addr s t) h = insert_fix_left s (addr s (Node u p l)) h1" .
  have "fix_result h1 s (Node u p l) ((True, x, r) # (True, g, v) # fs) (insert_fix_left s (addr s t) h)"
    using fix_left_outer [OF fx1] v fx assms(2) unfolding same by (simp add: red fixing_def t)
  moreover have "inorder (plug (Node u p l) ((True, x, r) # (True, g, v) # fs)) = inorder (plug t ((False, p, u) # (True, g, v) # fs))"
    by (simp add: t inorder_plug_cong)
  ultimately show ?thesis by (simp add: fix_result_def h1_def heap_simps)
qed

lemma fix_left:
  assumes "fixing h s t ((d, p, u) # (True, g, v) # fs) n" and "r_red h p"
  shows "fix_result h s t ((d, p, u) # (True, g, v) # fs) (insert_fix_left s (addr s t) h)"
proof (cases "r_red h (addr s v)")
  case True
  then show ?thesis by (rule fix_left_red [OF assms])
next
  case False
  then show ?thesis using assms fix_left_outer [of h s t p u g v fs n] fix_left_inner [of h s t p u g v fs n]
    by (cases d) simp_all
qed

text \<open>The other half is the mirror image.\<close>

lemma insert_fix_flip:
  "insert_fix_left s node (flip h) = (case insert_fix_right s node h of (node', h') \<Rightarrow> (node', flip h'))"
  by (simp add: insert_fix_left_def insert_fix_right_def Let_def color_ops)

lemma fixing_flip: "fixing (flip h) s (mirror t) (flip_frames fs) n = fixing h s t fs n"
  by (simp add: fixing_def)

lemma fix_right:
  assumes "fixing h s t ((d, p, u) # (False, g, v) # fs) n" and "r_red h p"
  shows "fix_result h s t ((d, p, u) # (False, g, v) # fs) (insert_fix_right s (addr s t) h)"
proof -
  obtain node' h' where r: "insert_fix_right s (addr s t) h = (node', h')" by fastforce
  have "fixing (flip h) s (mirror t) ((\<not> d, p, mirror u) # (True, g, mirror v) # flip_frames fs) n"
    using assms(1) fixing_flip [of h s t "(d, p, u) # (False, g, v) # fs" n] by simp
  then have "fix_result (flip h) s (mirror t) ((\<not> d, p, mirror u) # (True, g, mirror v) # flip_frames fs) (node', flip h')"
    using fix_left assms(2) r by (fastforce simp: insert_fix_flip)
  then obtain t' fs' n' where t': "node' = addr s t'" "fixing (flip h') s t' fs' n'" "length fs' < length fs + 2"
    "inorder (plug t' fs') = inorder (plug (mirror t) ((\<not> d, p, mirror u) # (True, g, mirror v) # flip_frames fs))"
    "r_key h' = r_key h" by (auto simp: fix_result_def)
  have "inorder (plug (mirror t') (flip_frames fs')) = inorder (plug t ((d, p, u) # (False, g, v) # fs))"
    using t'(4) plug_flip [of t "(d, p, u) # (False, g, v) # fs"] by (simp add: inorder_mirror)
  then show ?thesis using t' fixing_flip [of "flip h'" s t' fs' n'] unfolding fix_result_def r
    by (intro exI [of _ "mirror t'"] exI [of _ "flip_frames fs'"] exI [of _ n']) auto
qed

subsection \<open>The whole loop\<close>

definition rb_tree :: "rheap \<Rightarrow> rnode \<Rightarrow> rnode tree \<Rightarrow> bool" where
  "rb_tree h s t \<longleftrightarrow> view h s t [] \<and> \<not> r_red h s \<and> \<not> isred (r_red h) t \<and> (\<exists>n. bal (r_red h) t n)"

lemma node_not_root:
  assumes "view h s t (f # fs)" and "t \<noteq> Leaf"
  shows "addr s t \<noteq> r_root h"
proof -
  have "r_root h \<in> frame_nodes (f # fs)" using assms(1) by (auto simp: view_def intro!: frames_root)
  moreover have "addr s t \<in> set_tree t" using assms(2) by (rule addr_cases)
  ultimately show ?thesis using assms(1) by (auto simp: view_def zip_ok_def)
qed

lemma view_root: "view h s t [] \<Longrightarrow> r_root h = addr s t"
  by (simp add: view_def)

lemma rb_tree_plug:
  assumes "view h s t fs" and "\<not> r_red h s" and "bal (r_red h) t n" and "fbal (r_red h) n fs"
    and "fs \<noteq> []" and "isred (r_red h) t \<Longrightarrow> \<not> parent_red (r_red h) fs"
  shows "rb_tree h s (plug t fs)"
  using assms bal_plug [OF assms(3,4)] view_plug [of h s t fs] by (simp add: rb_tree_def)

lemma rb_tree_black_root:
  assumes "rb_tree h s t" and "t \<noteq> Leaf"
  shows "hcore_rbt_black (r_root h) h = h"
proof -
  have "\<not> r_red h (r_root h)" using assms by (cases t) (simp_all add: rb_tree_def view_def)
  then show ?thesis by (cases h) (simp add: color_ops set_red_def fun_upd_idem_iff)
qed

lemma rb_tree_blacken:
  assumes "view h s t []" and "\<not> r_red h s" and "bal (r_red h) t n"
  shows "rb_tree (hcore_rbt_black (addr s t) h) s t"
proof (cases t)
  case Leaf
  then show ?thesis using assms by (auto simp: rb_tree_def color_ops heap_simps)
next
  case (Node l x r)
  then have "x \<notin> set_tree l" "x \<notin> set_tree r" using assms(1) by (auto simp: view_def zip_ok_def)
  then have "bal ((r_red h)(x := False)) t (if r_red h x then Suc n else n)" using assms(3) Node by auto
  then show ?thesis using assms(1,2) Node unfolding rb_tree_def by (auto simp: color_ops heap_simps)
qed

lemma insert_fix_loop_ok:
  assumes "fixing h s t fs n"
  shows "\<exists>h' t'. insert_fix_loop s (addr s t) h = Some h' \<and> rb_tree (hcore_rbt_black (r_root h') h') s t'
    \<and> inorder t' = inorder (plug t fs) \<and> r_key h' = r_key h"
  using assms
proof (induction "length fs" arbitrary: h t fs n rule: less_induct)
  case less
  have v: "view h s t fs" "\<not> r_red h s" "bal (r_red h) t n" "fbal (r_red h) n fs" "t \<noteq> Leaf"
    using less.prems by (cases t; simp add: fixing_def)+
  show ?case
  proof (cases fs)
    case Nil
    then have "r_root h = addr s t" using v by (simp add: view_def)
    then show ?thesis using v Nil rb_tree_blacken [of h s t n]
      by (intro exI [of _ h] exI [of _ t]) (simp add: insert_fix_loop.simps)
  next
    case (Cons f fs')
    obtain d p u where f: "f = (d, p, u)" by (metis prod_cases3)
    have parent: "r_parent h (addr s t) = p" using v(1,5) unfolding Cons f by (cases t) (auto simp: view_def under_def zip_ok_def)
    show ?thesis
    proof (cases "r_red h p")
      case False
      then have rb: "rb_tree h s (plug t fs)" using v unfolding Cons f by (intro rb_tree_plug) auto
      moreover have "plug t fs \<noteq> Leaf" using v(5) set_plug [of t fs] by (cases t; cases "plug t fs") auto
      ultimately show ?thesis using False rb_tree_black_root [OF rb] parent
        by (intro exI [of _ h] exI [of _ "plug t fs"]) (simp add: insert_fix_loop.simps)
    next
      case True
      then obtain e g w fs2 where fs': "fs' = (e, g, w) # fs2" using v(4) unfolding Cons f by (cases fs') auto
      have fx: "fixing h s t ((d, p, u) # (e, g, w) # fs2) n" using less.prems unfolding Cons f fs' .
      note rd = fixing_reads [OF fx]
      define r where "r = (if e then insert_fix_left s (addr s t) h else insert_fix_right s (addr s t) h)"
      have "fix_result h s t fs r"
        using fix_left [of h s t d p u g w fs2 n] fix_right [of h s t d p u g w fs2 n] fx True
        unfolding r_def Cons f fs' by (cases e) simp_all
      then obtain t1 fs1 n1 h1 where r: "r = (addr s t1, h1)" and fx1: "fixing h1 s t1 fs1 n1"
        and io: "inorder (plug t1 fs1) = inorder (plug t fs)" and len: "length fs1 < length fs" and key: "r_key h1 = r_key h"
        by (auto simp: fix_result_def)
      have "addr s t \<noteq> r_root h" using v(1,5) unfolding Cons by (rule node_not_root)
      then have "insert_fix_loop s (addr s t) h = insert_fix_loop s (addr s t1) h1"
        using True rd(1,2,5,9) r by (subst insert_fix_loop.simps) (cases e; simp add: r_def)
      then show ?thesis using less.hyps [OF len fx1] io key by simp
    qed
  qed
qed

subsection \<open>The callbacks\<close>

text \<open>The interface between the tree and the comparison of keys: on the keys in use it is a strict weak
  order. The code compares 32-bit keys directly, or as points of time that wrap around.\<close>

locale key_order =
  fixes lt :: "int \<Rightarrow> int \<Rightarrow> bool" and K :: "int set"
  assumes lt_asym: "a \<in> K \<Longrightarrow> b \<in> K \<Longrightarrow> lt a b \<Longrightarrow> \<not> lt b a"
    and ge_trans: "a \<in> K \<Longrightarrow> b \<in> K \<Longrightarrow> c \<in> K \<Longrightarrow> \<not> lt a b \<Longrightarrow> \<not> lt b c \<Longrightarrow> \<not> lt a c"

fun bst_ins :: "(int \<Rightarrow> int \<Rightarrow> bool) \<Rightarrow> (rnode \<Rightarrow> int) \<Rightarrow> rnode \<Rightarrow> rnode tree \<Rightarrow> rnode tree" where
  "bst_ins lt key node Leaf = Node Leaf node Leaf"
| "bst_ins lt key node (Node l x r) =
     (if lt (key node) (key x) then Node (bst_ins lt key node l) x r else Node l x (bst_ins lt key node r))"

definition in_order :: "(int \<Rightarrow> int \<Rightarrow> bool) \<Rightarrow> (rnode \<Rightarrow> int) \<Rightarrow> rnode list \<Rightarrow> bool" where
  "in_order lt key = sorted_wrt (\<lambda>a b. \<not> lt (key b) (key a))"

lemma in_order_append [simp]:
  "in_order lt key (xs @ y # ys) \<longleftrightarrow> in_order lt key xs \<and> in_order lt key (y # ys)
     \<and> (\<forall>x\<in>set xs. \<forall>z\<in>set (y # ys). \<not> lt (key z) (key x))"
  by (simp add: in_order_def sorted_wrt_append)

context key_order
begin

lemma bst_ins_place:
  assumes "in_order lt key (inorder t)" and "\<forall>x\<in>insert node (set_tree t). key x \<in> K"
  shows "\<exists>us vs. inorder t = us @ vs \<and> inorder (bst_ins lt key node t) = us @ node # vs
    \<and> (\<forall>u\<in>set us. \<not> lt (key node) (key u)) \<and> (\<forall>v\<in>set vs. lt (key node) (key v))"
  using assms
proof (induction t)
  case Leaf
  then show ?case by simp
next
  case (Node l x r)
  have srt: "in_order lt key (inorder l)" "in_order lt key (inorder r)" "\<forall>z\<in>set_tree r. \<not> lt (key z) (key x)"
    "\<forall>z\<in>set_tree l. \<not> lt (key x) (key z)"
    using Node.prems(1) by (auto simp: in_order_def sorted_wrt_append)
  show ?case
  proof (cases "lt (key node) (key x)")
    case True
    obtain us vs where l: "inorder l = us @ vs" "inorder (bst_ins lt key node l) = us @ node # vs"
      "\<forall>u\<in>set us. \<not> lt (key node) (key u)" "\<forall>v\<in>set vs. lt (key node) (key v)"
      using Node.IH(1) [OF srt(1)] Node.prems(2) by auto
    have "\<forall>z\<in>set_tree r. lt (key node) (key z)"
      using True srt(3) Node.prems(2) ge_trans by (metis insertCI tree.set_intros(2,3))
    then show ?thesis using True l by (intro exI [of _ us] exI [of _ "vs @ x # inorder r"]) auto
  next
    case False
    obtain us vs where r: "inorder r = us @ vs" "inorder (bst_ins lt key node r) = us @ node # vs"
      "\<forall>u\<in>set us. \<not> lt (key node) (key u)" "\<forall>v\<in>set vs. lt (key node) (key v)"
      using Node.IH(2) [OF srt(2)] Node.prems(2) by auto
    have "\<forall>z\<in>set_tree l. \<not> lt (key node) (key z)"
      using False srt(4) Node.prems(2) ge_trans by (metis insertCI tree.set_intros(1,2))
    then show ?thesis using False r by (intro exI [of _ "inorder l @ x # us"] exI [of _ vs]) auto
  qed
qed

end

text \<open>Where the loop of the callback stops, and what the tree is with the new node there.\<close>

fun hole_of :: "rframes \<Rightarrow> rnode \<times> bool" where
  "hole_of ((d, x, u) # fs) = (x, d)"
| "hole_of [] = (0, False)"

lemma rb_descend_hole:
  assumes "view h s t fs" and "t \<noteq> Leaf"
  shows "\<exists>fs'. fs' \<noteq> [] \<and> rb_descend lt h node s (addr s t) = Some (hole_of fs') \<and> plug Leaf fs' = plug t fs
    \<and> plug (Node Leaf node Leaf) fs' = plug (bst_ins lt (r_key h) node t) fs"
  using assms
proof (induction t arbitrary: fs)
  case (Node l x r)
  define d where "d = lt (r_key h node) (r_key h x)"
  define c where "c = (if d then l else r)"
  define f where "f = (d, x, if d then r else l)"
  have c: "view h s c (f # fs)" using Node.prems(1) unfolding c_def f_def by (simp add: view_frame)
  have next_c: "(if d then r_left h x else r_right h x) = addr s c" using Node.prems(1) by (simp add: view_def c_def)
  have pl: "plug c (f # fs) = plug (Node l x r) fs"
    "plug (bst_ins lt (r_key h) node c) (f # fs) = plug (bst_ins lt (r_key h) node (Node l x r)) fs"
    by (simp_all add: c_def f_def d_def plug.simps(2))
  show ?case
  proof (cases "c = Leaf")
    case True
    then have "rb_descend lt h node s x = Some (hole_of (f # fs))"
      using next_c by (subst rb_descend.simps) (simp add: d_def f_def Let_def)
    then show ?thesis using pl True by (intro exI [of _ "f # fs"]) auto
  next
    case False
    then have "addr s c \<noteq> s" using c by (cases c) (auto simp: view_def zip_ok_def)
    then have "rb_descend lt h node s x = rb_descend lt h node s (addr s c)"
      using next_c by (subst rb_descend.simps) (simp add: d_def Let_def)
    moreover obtain fs' where "fs' \<noteq> []" "rb_descend lt h node s (addr s c) = Some (hole_of fs')"
      "plug Leaf fs' = plug c (f # fs)" "plug (Node Leaf node Leaf) fs' = plug (bst_ins lt (r_key h) node c) (f # fs)"
      using Node.IH(1) [of "f # fs"] Node.IH(2) [of "f # fs"] False c unfolding c_def by (cases d) auto
    ultimately show ?thesis using pl by (intro exI [of _ fs']) simp
  qed
qed simp

lemma rb_link_view:
  assumes "view h s Leaf fs" and "fs \<noteq> []" and "node \<notin> frame_nodes fs" and "node \<noteq> s"
  shows "view (rb_link node s (hole_of fs) h) s (Node Leaf node Leaf) fs"
proof -
  obtain d x u fs' where fs: "fs = (d, x, u) # fs'" using assms(2) by (metis list.exhaust prod_cases3)
  have d: "x \<notin> set_tree u" "x \<notin> frame_nodes fs'" "distinct (inorder u)" "frames_distinct fs'" "x \<noteq> s" "node \<noteq> x"
    "node \<notin> set_tree u" "node \<notin> frame_nodes fs'" "addr s u \<noteq> node"
    using assms fs addr_notin [of node u s] by (auto simp: view_def zip_ok_def)
  have "zip_ok s (Node Leaf node Leaf) fs" using assms by (auto simp: view_def zip_ok_def)
  moreover have "frames_at (rb_link node s (x, d) h) s node ((d, x, u) # fs')"
    using assms(1) d unfolding fs
    by (cases d) (simp_all add: rb_link_def Let_def hcore_rbt_red_def heap_simps view_def)
  moreover have "tree_at (rb_link node s (x, d) h) s (Node Leaf node Leaf)"
    using d by (cases d) (simp_all add: rb_link_def Let_def hcore_rbt_red_def heap_simps)
  ultimately show ?thesis by (simp add: view_def fs)
qed

lemma rb_link_keeps [heap_simps]:
  "r_red (rb_link node s pos h) = (r_red h)(node := True)" "r_key (rb_link node s pos h) = r_key h"
  by (simp_all add: rb_link_def Let_def hcore_rbt_red_def heap_simps split: prod.splits)

definition tree_callback :: "(int \<Rightarrow> int \<Rightarrow> bool) \<Rightarrow> (rnode \<Rightarrow> rnode \<Rightarrow> rnode \<Rightarrow> rheap \<Rightarrow> rheap option) \<Rightarrow> bool" where
  "tree_callback lt ins \<longleftrightarrow> (\<forall>temp node s h. ins temp node s h
     = map_option (\<lambda>pos. rb_link node s pos h) (rb_descend lt h node s temp))"

lemma rbtree_insert_shape:
  assumes "rb_tree h s t" and "tree_callback lt ins" and "node \<notin> set_tree t" "node \<noteq> s"
  shows "\<exists>h' t'. hcore_rbtree_insert ins s node h = Some h' \<and> rb_tree h' s t'
    \<and> inorder t' = inorder (bst_ins lt (r_key h) node t) \<and> r_key h' = r_key h"
proof (cases t)
  case Leaf
  define h' where "h' = set_root node (hcore_rbt_black node (set_right node s (set_left node s (set_parent node 0 h))))"
  have "r_root h = s" using assms(1) Leaf by (simp add: rb_tree_def view_def)
  then have "hcore_rbtree_insert ins s node h = Some h'" by (simp add: hcore_rbtree_insert_def h'_def Let_def)
  moreover have "rb_tree h' s (Node Leaf node Leaf)"
    using assms(1,4) unfolding rb_tree_def h'_def view_def zip_ok_def
    by (simp add: color_ops heap_simps) (rule exI [of _ 1], simp)
  moreover have "r_key h' = r_key h" by (simp add: h'_def color_ops heap_simps)
  ultimately show ?thesis using Leaf by (intro exI [of _ h'] exI [of _ "Node Leaf node Leaf"]) simp
next
  case (Node l x r)
  have v: "view h s t []" "\<not> r_red h s" "\<not> isred (r_red h) t" using assms(1) by (simp_all add: rb_tree_def)
  have ne: "t \<noteq> Leaf" using Node by simp
  obtain fs where fs: "fs \<noteq> []" "rb_descend lt h node s (addr s t) = Some (hole_of fs)" "plug Leaf fs = t"
    "plug (Node Leaf node Leaf) fs = bst_ins lt (r_key h) node t"
    using rb_descend_hole [OF v(1) ne, of lt node] by force
  have hole: "view h s Leaf fs" using v(1) fs(3) view_plug by metis
  have node: "node \<notin> frame_nodes fs" using assms(3) set_plug [of Leaf fs] fs(3) by simp
  define h1 where "h1 = rb_link node s (hole_of fs) h"
  have "\<exists>m. bal (r_red h) (plug Leaf fs) m" using assms(1) fs(3) by (auto simp: rb_tree_def)
  then have "fbal (r_red h) 0 fs" using bal_unplug [of "r_red h" Leaf fs] v(3) fs(3) by auto
  then have "fixing h1 s (Node Leaf node Leaf) fs 0"
    using rb_link_view [OF hole fs(1) node assms(4)] node v(2) assms(4) by (simp add: fixing_def h1_def heap_simps)
  then obtain h2 t' where h2: "insert_fix_loop s node h1 = Some h2" "rb_tree (hcore_rbt_black (r_root h2) h2) s t'"
    "inorder t' = inorder (bst_ins lt (r_key h) node t)" "r_key h2 = r_key h1"
    using insert_fix_loop_ok [of h1 s "Node Leaf node Leaf" fs 0] fs(4) by auto
  have "r_root h = addr s t" using v(1) by (rule view_root)
  moreover have "addr s t \<noteq> s" using v(1) Node by (auto simp: view_def zip_ok_def)
  ultimately have "hcore_rbtree_insert ins s node h = Some (hcore_rbt_black (r_root h2) h2)"
    using assms(2) fs(2) h2(1) by (simp add: hcore_rbtree_insert_def tree_callback_def h1_def)
  then show ?thesis using h2 by (auto simp: h1_def color_ops heap_simps)
qed

text \<open>What an insertion comes to: the node stands behind the nodes whose keys are not greater and before
  those whose keys are.\<close>

definition inserted :: "(int \<Rightarrow> int \<Rightarrow> bool) \<Rightarrow> (rnode \<Rightarrow> rnode \<Rightarrow> rnode \<Rightarrow> rheap \<Rightarrow> rheap option)
    \<Rightarrow> rnode \<Rightarrow> rnode \<Rightarrow> rheap \<Rightarrow> rnode tree \<Rightarrow> bool" where
  "inserted lt ins s node h t \<longleftrightarrow> (\<exists>h' t' us vs. hcore_rbtree_insert ins s node h = Some h' \<and> rb_tree h' s t'
     \<and> inorder t = us @ vs \<and> inorder t' = us @ node # vs \<and> in_order lt (r_key h') (inorder t')
     \<and> (\<forall>u\<in>set us. \<not> lt (r_key h node) (r_key h u)) \<and> (\<forall>v\<in>set vs. lt (r_key h node) (r_key h v)) \<and> r_key h' = r_key h)"

context key_order
begin

lemma rbtree_inserted:
  assumes "rb_tree h s t" and "tree_callback lt ins" and "node \<notin> set_tree t" "node \<noteq> s"
    and "in_order lt (r_key h) (inorder t)" and "\<forall>x\<in>insert node (set_tree t). r_key h x \<in> K"
  shows "inserted lt ins s node h t"
proof -
  obtain h' t' where h': "hcore_rbtree_insert ins s node h = Some h'" "rb_tree h' s t'"
    "inorder t' = inorder (bst_ins lt (r_key h) node t)" "r_key h' = r_key h"
    using rbtree_insert_shape [OF assms(1-4)] by blast
  obtain us vs where p: "inorder t = us @ vs" "inorder (bst_ins lt (r_key h) node t) = us @ node # vs"
    "\<forall>u\<in>set us. \<not> lt (r_key h node) (r_key h u)" "\<forall>v\<in>set vs. lt (r_key h node) (r_key h v)"
    using bst_ins_place [OF assms(5,6)] by blast
  have "set us \<union> set vs = set_tree t" using p(1) by (simp flip: set_inorder)
  then have K: "\<forall>x\<in>set us \<union> set vs \<union> {node}. r_key h x \<in> K" using assms(6) by simp
  have "in_order lt (r_key h) (us @ vs)" using assms(5) p(1) by simp
  then have "in_order lt (r_key h) (us @ node # vs)"
    using p(3,4) K lt_asym by (auto simp: in_order_def sorted_wrt_append)
  then show ?thesis unfolding inserted_def using h' p by (intro exI [of _ h'] exI [of _ t'] exI [of _ us] exI [of _ vs]) simp
qed

end

interpretation key: key_order key_less UNIV
  by unfold_locales (auto simp: key_less_def)

text \<open>Times within half the range of 32 bits from some \<open>base\<close>.\<close>

definition timer_window :: "int \<Rightarrow> int set" where
  "timer_window base = (\<lambda>i. u32 (base + i)) ` {0..<2147483648}"

lemma timer_less_window:
  assumes "0 \<le> i" "i < 2147483648" "0 \<le> j" "j < 2147483648"
  shows "timer_less (u32 (base + i)) (u32 (base + j)) \<longleftrightarrow> i < j"
proof -
  have "u32 (u32 (base + i) - u32 (base + j)) = u32 (i - j)"
    by (simp add: u32_def mod_diff_eq)
  moreover have "i32 (u32 (i - j)) = i32 (i - j)" by (simp add: i32_def u32_def mod_simps)
  moreover have "i32 (i - j) = i - j" using assms by (intro i32_id) auto
  ultimately show ?thesis by (simp add: timer_less_def)
qed

interpretation timer: key_order timer_less "timer_window base"
  by unfold_locales (auto simp: timer_window_def timer_less_window)

subsection \<open>The two kinds of trees\<close>

text \<open>C2: hcore_rbtree_insert with hcore_rbtree_insert_value on a red-black tree in the heap whose nodes are in
  the order of their keys. It returns, the result is a red-black tree again (binary tree with correct
  parent pointers, black root, no red node below a red one, the same number of black nodes on all
  paths), the new node stands right behind all nodes whose keys are not greater, and no key changed.\<close>

theorem rbtree_insert_value_correct:
  assumes "rb_tree h s t" and "in_order key_less (r_key h) (inorder t)" and "node \<notin> set_tree t" "node \<noteq> s"
  shows "\<exists>h' t' us vs. hcore_rbtree_insert hcore_rbtree_insert_value s node h = Some h' \<and> rb_tree h' s t'
    \<and> inorder t = us @ vs \<and> inorder t' = us @ node # vs \<and> in_order key_less (r_key h') (inorder t')
    \<and> (\<forall>u\<in>set us. \<not> key_less (r_key h node) (r_key h u)) \<and> (\<forall>v\<in>set vs. key_less (r_key h node) (r_key h v)) \<and> r_key h' = r_key h"
  using key.rbtree_inserted [OF assms(1) _ assms(3,4,2)]
  by (simp add: tree_callback_def hcore_rbtree_insert_value_def inserted_def)

text \<open>C14: the same with hcore_rbtree_insert_timer_value, whose keys are points of time that overflow: as long as
  all of them are within half the range of 32 bits from some time, the order is that of time, also
  where the number wraps to 0.\<close>

theorem rbtree_insert_timer_correct:
  assumes "rb_tree h s t" and "in_order timer_less (r_key h) (inorder t)" and "node \<notin> set_tree t" "node \<noteq> s"
    and "\<forall>x\<in>insert node (set_tree t). r_key h x \<in> timer_window base"
  shows "\<exists>h' t' us vs. hcore_rbtree_insert hcore_rbtree_insert_timer_value s node h = Some h' \<and> rb_tree h' s t'
    \<and> inorder t = us @ vs \<and> inorder t' = us @ node # vs \<and> in_order timer_less (r_key h') (inorder t')
    \<and> (\<forall>u\<in>set us. \<not> timer_less (r_key h node) (r_key h u)) \<and> (\<forall>v\<in>set vs. timer_less (r_key h node) (r_key h v)) \<and> r_key h' = r_key h"
  using timer.rbtree_inserted [OF assms(1) _ assms(3,4,2,5)]
  by (simp add: tree_callback_def hcore_rbtree_insert_timer_value_def inserted_def)

text \<open>A tree of two nodes, 10 above 20, with the sentinel 1; the node 30 comes below 20 and the tree is rotated.\<close>

definition sample_tree :: rheap where
  "sample_tree = \<lparr>r_key = (\<lambda>a. if a = 10 then 4294967290 else if a = 20 then 4294967295 else 3), r_left = (\<lambda>_. 1),
     r_right = (\<lambda>a. if a = 10 then 20 else 1), r_parent = (\<lambda>a. if a = 20 then 10 else 0), r_red = (\<lambda>a. a = 20), r_root = 10\<rparr>"

lemma sample_tree_ok: "rb_tree sample_tree 1 (Node Leaf 10 (Node Leaf 20 Leaf))"
  by (simp add: rb_tree_def sample_tree_def view_def zip_ok_def under_def) (rule exI [of _ 1], simp)

lemma append_two: "us @ vs = [a, b] \<Longrightarrow> us = [] \<and> vs = [a, b] \<or> us = [a] \<and> vs = [b] \<or> us = [a, b] \<and> vs = []"
  by (cases us; cases "tl us") auto

lemma sample_keys: "r_key sample_tree 10 = 4294967290" "r_key sample_tree 20 = 4294967295" "r_key sample_tree 30 = 3"
  by (simp_all add: sample_tree_def)

theorem rbtree_insert_value_correct_witness:
  "\<exists>h' t'. hcore_rbtree_insert hcore_rbtree_insert_value 1 30 sample_tree = Some h' \<and> rb_tree h' 1 t' \<and> inorder t' = [30, 10, 20]"
proof -
  have "in_order key_less (r_key sample_tree) [10, 20]" by (simp add: in_order_def sample_keys key_less_def)
  then obtain h' t' us vs where r: "hcore_rbtree_insert hcore_rbtree_insert_value 1 30 sample_tree = Some h'" "rb_tree h' 1 t'"
    "[10, 20] = us @ vs" "inorder t' = us @ 30 # vs" "\<forall>u\<in>set us. \<not> key_less (r_key sample_tree 30) (r_key sample_tree u)"
    using rbtree_insert_value_correct [OF sample_tree_ok, of 30] by auto
  then have "us = []" using append_two [OF r(3) [symmetric]] by (auto simp: sample_keys key_less_def)
  then show ?thesis using r by auto
qed

theorem rbtree_insert_timer_correct_witness:
  "\<exists>h' t'. hcore_rbtree_insert hcore_rbtree_insert_timer_value 1 30 sample_tree = Some h' \<and> rb_tree h' 1 t' \<and> inorder t' = [10, 20, 30]"
proof -
  have K: "u32 (4294967290 + i) \<in> timer_window 4294967290" if "0 \<le> i" "i < 2147483648" for i
    using that by (auto simp: timer_window_def)
  have w: "\<forall>x\<in>insert 30 (set_tree (Node Leaf 10 (Node Leaf 20 Leaf))). r_key sample_tree x \<in> timer_window 4294967290"
    using K [of 0] K [of 5] K [of 9] by (simp add: sample_keys u32_def)
  have less: "timer_less 4294967290 3" "timer_less 4294967295 3" "\<not> timer_less 3 4294967290" "\<not> timer_less 3 4294967295"
    "\<not> timer_less 4294967295 4294967290" by (simp_all add: timer_less_def i32_def u32_def)
  have "in_order timer_less (r_key sample_tree) [10, 20]" using less by (simp add: in_order_def sample_keys)
  then obtain h' t' us vs where r: "hcore_rbtree_insert hcore_rbtree_insert_timer_value 1 30 sample_tree = Some h'" "rb_tree h' 1 t'"
    "[10, 20] = us @ vs" "inorder t' = us @ 30 # vs" "\<forall>v\<in>set vs. timer_less (r_key sample_tree 30) (r_key sample_tree v)"
    using rbtree_insert_timer_correct [OF sample_tree_ok _ _ _ w] by auto
  then have "us = [10, 20] \<and> vs = []" using append_two [OF r(3) [symmetric]] less by (auto simp: sample_keys)
  then show ?thesis using r by auto
qed

end
