(* ===== verification/HRbDelete.thy ===== *)
theory HRbDelete
  imports HRbInsert
begin

section \<open>Red-black trees: deletion\<close>

subsection \<open>The balancing loop\<close>

text \<open>The loop is at a subtree that has one black node too few on every path, or would have the right
  number if its root were black; its root, or the sentinel, knows the node above.\<close>

definition short_ok :: "(rnode \<Rightarrow> bool) \<Rightarrow> rnode tree \<Rightarrow> nat \<Rightarrow> bool" where
  "short_ok c t k = (case t of Leaf \<Rightarrow> k = 0 | Node l x r \<Rightarrow> if c x then bal c l k \<and> bal c r k else bal c t k)"

definition shorted :: "rheap \<Rightarrow> rnode \<Rightarrow> rnode tree \<Rightarrow> rframes \<Rightarrow> nat \<Rightarrow> bool" where
  "shorted h s t fs k \<longleftrightarrow> view h s t fs \<and> \<not> r_red h s \<and> short_ok (r_red h) t k \<and> fbal (r_red h) (Suc k) fs
     \<and> (\<forall>f fs'. fs = f # fs' \<longrightarrow> r_parent h (addr s t) = fst (snd f))"

definition del_measure :: "(rnode \<Rightarrow> bool) \<Rightarrow> rnode tree \<Rightarrow> rframes \<Rightarrow> nat" where
  "del_measure c t fs = (if isred c t then 0 else Suc (length fs))"

definition del_result :: "rheap \<Rightarrow> rnode \<Rightarrow> rnode tree \<Rightarrow> rframes \<Rightarrow> rnode \<times> rheap \<Rightarrow> nat \<Rightarrow> bool" where
  "del_result h s t fs r n \<longleftrightarrow> (\<exists>t' fs' k' h'. r = (addr s t', h') \<and> shorted h' s t' fs' k'
     \<and> inorder (plug t' fs') = inorder (plug t fs) \<and> del_measure (r_red h') t' fs' < n \<and> r_key h' = r_key h)"

lemma short_black: "\<not> isred c t \<Longrightarrow> short_ok c t k = bal c t k"
  by (cases t) (simp_all add: short_ok_def)

text \<open>What the loop reads when it is at a left child with a black sibling.\<close>

lemma shorted_reads:
  assumes "shorted h s t ((True, p, Node wl a wr) # fs) k"
  shows "r_parent h (addr s t) = p" "r_left h p = addr s t" "r_right h p = a" "r_left h a = addr s wl" "r_right h a = addr s wr"
    "p \<noteq> s" "a \<noteq> s" "p \<noteq> a" "p \<notin> set_tree t \<union> set_tree wl \<union> set_tree wr \<union> frame_nodes fs"
    "a \<notin> set_tree t \<union> set_tree wl \<union> set_tree wr \<union> frame_nodes fs"
    "set_tree wr \<inter> (set_tree t \<union> set_tree wl \<union> frame_nodes fs) = {}"
    "set_tree wl \<inter> (set_tree t \<union> frame_nodes fs) = {}"
    "view h s (Node t p (Node wl a wr)) fs" "\<not> r_red h s"
  using assms by (auto simp: shorted_def view_def zip_ok_def)

text \<open>The sibling's right child is red: one rotation makes the tree right.\<close>

lemma del_last:
  assumes sh: "shorted h s t ((True, p, Node wl a wr) # fs) k" and t: "\<not> isred (r_red h) t" and a: "\<not> r_red h a"
    and wr: "isred (r_red h) wr"
  shows "del_result h s t ((True, p, Node wl a wr) # fs) (delete_case_left s (addr s t) a h) 2"
proof -
  note rd = shorted_reads [OF sh]
  obtain bl b br where b: "wr = Node bl b br" using wr by (cases wr) auto
  define h1 where "h1 = set_red b False (set_red p False (set_red a (r_red h p) h))"
  define h' where "h' = hcore_rbtree_left_rotate s p h1"
  define u where "u = Node (Node t p wl) a wr"
  have step: "delete_case_left s (addr s t) a h = (r_root h', h')"
    using wr rd b by (simp add: delete_case_left_def Let_def color_ops heap_simps h'_def h1_def)
  have bn: "b \<notin> set_tree t \<union> set_tree wl \<union> set_tree bl \<union> set_tree br \<union> frame_nodes fs" "b \<noteq> p" "b \<noteq> a" "b \<noteq> s"
    using rd(9-11,13) unfolding b by (auto simp: view_def zip_ok_def)
  have red: "r_red h' = (r_red h)(a := r_red h p, p := False, b := False)" by (simp add: h'_def h1_def heap_simps)
  have v: "view h' s u fs" using left_rotate_view [of h1 s t p wl a wr fs] rd(13) by (simp add: h'_def h1_def u_def)
  have bl: "bal (r_red h) t k" "bal (r_red h) wl k" "bal (r_red h) wr k"
    using sh t a by (simp_all add: shorted_def short_black split: if_splits)
  then have "bal (r_red h') (Node t p wl) (Suc k)" "bal (r_red h') wr (Suc k)"
    using rd(8-10) bn wr unfolding b by (auto simp: red)
  then have "bal (r_red h') u (if r_red h p then Suc k else Suc (Suc k))"
    using rd(8) bn b by (auto simp: u_def red)
  moreover have f: "if r_red h p then fs \<noteq> [] \<and> \<not> parent_red (r_red h) fs \<and> fbal (r_red h) (Suc k) fs else fbal (r_red h) (Suc (Suc k)) fs"
    using sh by (simp add: shorted_def split: if_splits)
  then have "fbal (r_red h') (if r_red h p then Suc k else Suc (Suc k)) fs" "isred (r_red h') u \<longrightarrow> \<not> parent_red (r_red h') fs \<and> fs \<noteq> []"
    using rd(8-10) bn by (auto simp: red u_def)
  ultimately have pl: "(\<exists>m. bal (r_red h') (plug u fs) m) \<and> (fs \<noteq> [] \<longrightarrow> \<not> isred (r_red h') (plug u fs))"
    "fs = [] \<Longrightarrow> \<not> isred (r_red h') (plug u fs)"
    using bal_plug [of "r_red h'" u _ fs] by auto
  then obtain m where m: "bal (r_red h') (plug u fs) m" "\<not> isred (r_red h') (plug u fs)" by (cases "fs = []") auto
  have vw: "view h' s (plug u fs) []" using v view_plug by simp
  then have "shorted h' s (plug u fs) [] m" using m rd by (simp add: shorted_def short_black red bn(4))
  moreover have "r_root h' = addr s (plug u fs)" using vw by (rule view_root)
  moreover have "inorder (plug u fs) = inorder (plug t ((True, p, Node wl a wr) # fs))"
    using inorder_plug_cong [of u "Node t p (Node wl a wr)" fs] by (simp add: u_def)
  ultimately show ?thesis unfolding del_result_def step
    by (intro exI [of _ "plug u fs"] exI [of _ "[]"] exI [of _ m] exI [of _ h'])
      (auto simp: del_measure_def h'_def h1_def heap_simps)
qed

text \<open>Only its left child is red: a rotation at the sibling first.\<close>

lemma del_inner:
  assumes sh: "shorted h s t ((True, p, Node wl a wr) # fs) k" and t: "\<not> isred (r_red h) t" and a: "\<not> r_red h a"
    and wr: "\<not> isred (r_red h) wr" and wl: "isred (r_red h) wl"
  shows "del_result h s t ((True, p, Node wl a wr) # fs) (delete_case_left s (addr s t) a h) 2"
proof -
  note rd = shorted_reads [OF sh]
  obtain bl b br where b: "wl = Node bl b br" using wl by (cases wl) auto
  define h0 where "h0 = set_red a True (set_red b False h)"
  define h1 where "h1 = hcore_rbtree_right_rotate s a h0"
  define w where "w = Node br a wr"
  have bn: "b \<notin> set_tree t \<union> set_tree bl \<union> set_tree br \<union> set_tree wr \<union> frame_nodes fs" "b \<noteq> p" "b \<noteq> a" "b \<noteq> s"
    using rd(9-13) unfolding b by (auto simp: view_def zip_ok_def)
  have red: "r_red h1 = (r_red h)(b := False, a := True)" by (simp add: h1_def h0_def heap_simps)
  have "view h0 s (Node (Node bl b br) a wr) ((False, p, t) # fs)"
    using rd(13) by (simp add: view_frame h0_def b)
  then have "view h1 s (Node bl b w) ((False, p, t) # fs)"
    unfolding h1_def w_def by (rule right_rotate_view)
  then have v: "view h1 s (Node t p (Node bl b w)) fs" "view h1 s t ((True, p, Node bl b w) # fs)" by (simp_all add: view_frame)
  have "bal (r_red h) wl k" "bal (r_red h) wr k" "bal (r_red h) t k" "\<not> isred (r_red h) bl" "\<not> isred (r_red h) br"
    "bal (r_red h) bl k" "bal (r_red h) br k"
    using sh t a wl by (auto simp: shorted_def short_black b split: if_splits)
  then have bl: "bal (r_red h1) (Node bl b w) (Suc k)" "bal (r_red h1) t k" "\<not> isred (r_red h1) t"
    using wr t rd(8-10) bn b by (auto simp: red w_def)
  have "fbal (r_red h1) (Suc k) ((True, p, Node bl b w) # fs)"
    using sh bl(1) rd(8-10) bn by (auto simp: shorted_def red split: if_splits)
  moreover have par: "r_parent h1 (addr s t) = p"
  proof (cases t)
    case Leaf
    have "r_parent (hcore_rbtree_right_rotate s a h0) s = r_parent h0 s"
      using left_rotate_parent [of s a "flip h0" s] rd(4,7) bn(4) by (simp add: h0_def heap_simps b)
    then show ?thesis using rd(1) Leaf by (simp add: h1_def h0_def heap_simps)
  next
    case (Node l x r)
    then show ?thesis using v(1) by (auto simp: view_def under_def zip_ok_def)
  qed
  ultimately have sh1: "shorted h1 s t ((True, p, Node bl b w) # fs) k"
    using v bl(2,3) rd(14) rd(7) bn(4) by (simp add: shorted_def short_black red)
  note rd1 = shorted_reads [OF sh1]
  have wrn: "\<not> r_red h (addr s wr)" using wr rd(14) by (simp add: red_addr)
  have "delete_case_left s (addr s t) a h = delete_case_left s (addr s t) b h1"
    using wrn rd(1-5) rd1(1-5) b wl unfolding delete_case_left_def Let_def
    by (simp add: color_ops red w_def flip: h0_def h1_def)
  moreover have "del_result h1 s t ((True, p, Node bl b w) # fs) (delete_case_left s (addr s t) b h1) 2"
    using bl(3) bn(3) by (intro del_last [OF sh1]) (simp_all add: red w_def)
  moreover have "inorder (plug t ((True, p, Node bl b w) # fs)) = inorder (plug t ((True, p, Node wl a wr) # fs))"
    by (simp add: b w_def inorder_plug_cong)
  ultimately show ?thesis by (simp add: del_result_def h1_def h0_def heap_simps)
qed

text \<open>Both are black: the sibling becomes red, and the node above is next.\<close>

lemma del_up:
  assumes sh: "shorted h s t ((True, p, Node wl a wr) # fs) k" and t: "\<not> isred (r_red h) t" and a: "\<not> r_red h a"
    and w: "\<not> isred (r_red h) wr" "\<not> isred (r_red h) wl"
  shows "del_result h s t ((True, p, Node wl a wr) # fs) (delete_case_left s (addr s t) a h)
    (if r_red h p then 1 else Suc (Suc (length fs)))"
proof -
  note rd = shorted_reads [OF sh]
  define h' where "h' = set_red a True h"
  define u where "u = Node t p (Node wl a wr)"
  define k' where "k' = (if r_red h p then k else Suc k)"
  have "\<not> r_red h (addr s wr)" "\<not> r_red h (addr s wl)" using w rd(14) by (simp_all add: red_addr)
  then have step: "delete_case_left s (addr s t) a h = (addr s u, h')"
    using rd by (simp add: delete_case_left_def Let_def color_ops heap_simps h'_def u_def)
  have "bal (r_red h) t k" "bal (r_red h) wl k" "bal (r_red h) wr k"
    using sh t a by (simp_all add: shorted_def short_black split: if_splits)
  then have "bal (r_red h') t k" "bal (r_red h') (Node wl a wr) k" "\<not> isred (r_red h') t"
    using rd(8-10) w t by (simp_all add: h'_def heap_simps)
  then have "short_ok (r_red h') u k'" using rd(8) by (auto simp: short_ok_def u_def k'_def h'_def heap_simps)
  moreover have "fbal (r_red h') (Suc k') fs"
    using sh rd(8-10) by (auto simp: shorted_def k'_def h'_def heap_simps split: if_splits)
  moreover have "view h' s u fs" using rd(13) by (simp add: h'_def u_def)
  moreover have "r_parent h' p = fst (snd f)" if "fs = f # fs'" for f fs'
    using rd(6,13) that by (cases f) (auto simp: view_def under_def h'_def heap_simps)
  ultimately have "shorted h' s u fs k'" using rd(7,14) by (simp add: shorted_def h'_def heap_simps u_def)
  moreover have "del_measure (r_red h') u fs < (if r_red h p then 1 else Suc (Suc (length fs)))"
    using rd(8) by (simp add: del_measure_def u_def h'_def heap_simps)
  ultimately show ?thesis unfolding del_result_def step
    by (intro exI [of _ u] exI [of _ fs] exI [of _ k'] exI [of _ h']) (simp add: u_def h'_def heap_simps)
qed

lemma del_result_mono: "del_result h s t fs r n \<Longrightarrow> n \<le> m \<Longrightarrow> del_result h s t fs r m"
  unfolding del_result_def
  by (elim exE conjE) (rule exI, rule exI, rule exI, rule exI, intro conjI, assumption+, auto)

lemma del_black:
  assumes "shorted h s t ((True, p, Node wl a wr) # fs) k" and "\<not> isred (r_red h) t" and "\<not> r_red h a"
  shows "del_result h s t ((True, p, Node wl a wr) # fs) (delete_case_left s (addr s t) a h)
    (if r_red h p then 2 else Suc (Suc (length fs)))"
proof (cases "isred (r_red h) wr \<or> isred (r_red h) wl")
  case True
  then have "del_result h s t ((True, p, Node wl a wr) # fs) (delete_case_left s (addr s t) a h) 2"
    using del_last [OF assms] del_inner [OF assms] by blast
  then show ?thesis by (rule del_result_mono) simp
next
  case False
  then have "del_result h s t ((True, p, Node wl a wr) # fs) (delete_case_left s (addr s t) a h)
    (if r_red h p then 1 else Suc (Suc (length fs)))" using del_up [OF assms] by blast
  then show ?thesis by (rule del_result_mono) simp
qed

lemma del_left:
  assumes sh: "shorted h s t ((True, p, w) # fs) k" and t: "\<not> isred (r_red h) t"
  shows "del_result h s t ((True, p, w) # fs) (delete_fix_left s (addr s t) h) (Suc (Suc (length fs)))"
proof -
  obtain wl a wr where w: "w = Node wl a wr" using sh by (cases w) (auto simp: shorted_def)
  note rd = shorted_reads [OF sh [unfolded w]]
  show ?thesis
  proof (cases "r_red h a")
    case False
    then have "delete_fix_left s (addr s t) h = delete_case_left s (addr s t) a h"
      using rd by (simp add: delete_fix_left_def delete_sibling_left_def)
    then show ?thesis using del_result_mono [OF del_black [OF sh [unfolded w] t False], of "Suc (Suc (length fs))"] w by simp
  next
    case True
    define h0 where "h0 = set_red p True (set_red a False h)"
    define h1 where "h1 = hcore_rbtree_left_rotate s p h0"
    have red: "r_red h1 = (r_red h)(a := False, p := True)" by (simp add: h1_def h0_def heap_simps)
    have bl: "bal (r_red h) wl (Suc k)" "bal (r_red h) wr (Suc k)" "\<not> isred (r_red h) wl" "\<not> isred (r_red h) wr"
      "\<not> r_red h p" "fbal (r_red h) (Suc (Suc k)) fs" "bal (r_red h) t k"
      using sh t w True by (simp_all add: shorted_def short_black split: if_splits)
    obtain ll b lr where wl: "wl = Node ll b lr" using bl(1) by (cases wl) auto
    have "view h1 s (Node (Node t p wl) a wr) fs" unfolding h1_def
      by (rule left_rotate_view) (simp add: h0_def rd(13))
    then have v: "view h1 s t ((True, p, wl) # (True, a, wr) # fs)" "view h1 s (Node t p wl) ((True, a, wr) # fs)"
      by (simp_all add: view_frame)
    have par: "r_parent h1 (addr s t) = p"
    proof (cases t)
      case Leaf
      have "r_parent h1 s = r_parent h0 s" unfolding h1_def
        using left_rotate_parent [of s p h0 s] rd(3,6,7) by (simp add: h0_def heap_simps)
      then show ?thesis using rd(1) Leaf by (simp add: h0_def heap_simps)
    next
      case (Node l x r)
      then show ?thesis using v(1) by (auto simp: view_def under_def zip_ok_def)
    qed
    have c1: "fbal (r_red h1) (Suc k) ((True, p, wl) # (True, a, wr) # fs)" "\<not> isred (r_red h1) t" "bal (r_red h1) t k"
      using bl t rd(8-12) by (auto simp: red)
    note t1 = c1(2)
    have "short_ok (r_red h1) t k" using c1 by (simp add: short_black)
    moreover have "\<not> r_red h1 s" using rd(6,7,14) by (simp add: red)
    ultimately have "shorted h1 s t ((True, p, wl) # (True, a, wr) # fs) k"
      unfolding shorted_def using par by (intro conjI v c1) simp_all
    then have sh1: "shorted h1 s t ((True, p, Node ll b lr) # (True, a, wr) # fs) k" by (simp add: wl)
    note rd1 = shorted_reads [OF sh1]
    have b: "\<not> r_red h1 b" using bl(3) rd(9,10) by (auto simp: red wl)
    have "r_parent h0 = r_parent h" by (simp add: h0_def heap_simps)
    then have "delete_fix_left s (addr s t) h = delete_case_left s (addr s t) b h1"
      using True rd(1-5) rd1(1-3) h1_def unfolding delete_fix_left_def delete_sibling_left_def Let_def
      by (simp add: color_ops heap_simps flip: h0_def)
    moreover have "del_result h1 s t ((True, p, wl) # (True, a, wr) # fs) (delete_case_left s (addr s t) b h1) 2"
      using del_black [OF sh1 t1 b] by (simp add: red flip: wl)
    moreover have "inorder (plug t ((True, p, wl) # (True, a, wr) # fs)) = inorder (plug t ((True, p, w) # fs))"
      by (simp add: w inorder_plug_cong)
    ultimately have "del_result h s t ((True, p, w) # fs) (delete_fix_left s (addr s t) h) 2"
      by (simp add: del_result_def h1_def h0_def heap_simps)
    then show ?thesis by (rule del_result_mono) simp
  qed
qed

text \<open>The mirror image.\<close>

lemma delete_fix_flip:
  "delete_fix_left s temp (flip h) = (case delete_fix_right s temp h of (temp', h') \<Rightarrow> (temp', flip h'))"
  by (simp add: delete_fix_left_def delete_fix_right_def delete_sibling_left_def delete_sibling_right_def
      delete_case_left_def delete_case_right_def Let_def color_ops conj_commute)

lemma short_ok_flip [simp]: "short_ok c (mirror t) k = short_ok c t k"
  by (cases t) (auto simp: short_ok_def)

lemma shorted_flip [simp]: "shorted (flip h) s (mirror t) (flip_frames fs) k = shorted h s t fs k"
  using view_flip [of h s t fs] by (cases fs) (auto simp: shorted_def)

lemma del_right:
  assumes sh: "shorted h s t ((False, p, w) # fs) k" and t: "\<not> isred (r_red h) t"
  shows "del_result h s t ((False, p, w) # fs) (delete_fix_right s (addr s t) h) (Suc (Suc (length fs)))"
proof -
  obtain temp' h' where r: "delete_fix_right s (addr s t) h = (temp', h')" by fastforce
  have "shorted (flip h) s (mirror t) ((True, p, mirror w) # flip_frames fs) k"
    using sh shorted_flip [of h s t "(False, p, w) # fs" k] by simp
  then have "del_result (flip h) s (mirror t) ((True, p, mirror w) # flip_frames fs) (temp', flip h') (Suc (Suc (length fs)))"
    using del_left [of "flip h" s "mirror t" p "mirror w" "flip_frames fs" k] t r by (simp add: delete_fix_flip)
  then obtain t' fs' k' where t': "temp' = addr s t'" "shorted (flip h') s t' fs' k'" "r_key h' = r_key h"
    "inorder (plug t' fs') = inorder (plug (mirror t) ((True, p, mirror w) # flip_frames fs))"
    "del_measure (r_red h') t' fs' < Suc (Suc (length fs))" by (auto simp: del_result_def)
  have "inorder (plug (mirror t') (flip_frames fs')) = inorder (plug t ((False, p, w) # fs))"
    using t'(4) plug_flip [of t "(False, p, w) # fs"] by (simp add: inorder_mirror)
  then show ?thesis using t' shorted_flip [of "flip h'" s t' fs' k'] unfolding del_result_def r
    by (intro exI [of _ "mirror t'"] exI [of _ "flip_frames fs'"] exI [of _ k'] exI [of _ h'])
      (auto simp: del_measure_def)
qed

lemma shorted_blacken:
  assumes "shorted h s t fs k" and "isred (r_red h) t \<or> fs = []"
  shows "\<exists>t'. rb_tree (hcore_rbt_black (addr s t) h) s t' \<and> inorder t' = inorder (plug t fs)"
proof (cases "isred (r_red h) t")
  case False
  then have "fs = []" using assms(2) by simp
  then show ?thesis using assms(1) False rb_tree_blacken [of h s t k]
    by (intro exI [of _ t]) (simp add: shorted_def short_black)
next
  case True
  then obtain l x r where t: "t = Node l x r" by (cases t) auto
  define h' where "h' = hcore_rbt_black x h"
  have v: "view h s t fs" "\<not> r_red h s" using assms(1) by (simp_all add: shorted_def)
  then have x: "x \<notin> set_tree l" "x \<notin> set_tree r" "x \<notin> frame_nodes fs" "x \<noteq> s" by (auto simp: view_def zip_ok_def t)
  have b: "bal (r_red h') t (Suc k)" "fbal (r_red h') (Suc k) fs" "\<not> isred (r_red h') t"
    using assms(1) True x by (simp_all add: shorted_def short_ok_def t h'_def color_ops heap_simps)
  have v': "view h' s t fs" "\<not> r_red h' s" using v x by (simp_all add: h'_def color_ops heap_simps)
  have "rb_tree h' s (plug t fs)"
  proof (cases "fs = []")
    case True
    then show ?thesis using v' b by (auto simp: rb_tree_def)
  next
    case False
    then show ?thesis using b(3) by (intro rb_tree_plug [OF v' b(1,2)]) auto
  qed
  then show ?thesis by (intro exI [of _ "plug t fs"]) (simp add: t h'_def)
qed

lemma delete_fix_loop_ok:
  assumes "shorted h s t fs k"
  shows "\<exists>h' temp t'. delete_fix_loop s (addr s t) h = Some (temp, h') \<and> rb_tree (hcore_rbt_black temp h') s t'
    \<and> inorder t' = inorder (plug t fs) \<and> r_key h' = r_key h"
  using assms
proof (induction "del_measure (r_red h) t fs" arbitrary: h t fs k rule: less_induct)
  case less
  have v: "view h s t fs" "\<not> r_red h s" using less.prems by (simp_all add: shorted_def)
  then have red: "r_red h (addr s t) = isred (r_red h) t" by (simp add: red_addr)
  show ?case
  proof (cases "isred (r_red h) t \<or> fs = []")
    case True
    then have "delete_fix_loop s (addr s t) h = Some (addr s t, h)"
      using red v by (subst delete_fix_loop.simps) (auto simp: view_def)
    then show ?thesis using shorted_blacken [OF less.prems True] by auto
  next
    case False
    then obtain d p w fs' where fs: "fs = (d, p, w) # fs'" by (cases fs) auto
    define r where "r = (if d then delete_fix_left s (addr s t) h else delete_fix_right s (addr s t) h)"
    have "del_result h s t fs r (Suc (Suc (length fs')))"
      using less.prems False del_left [of h s t p w fs' k] del_right [of h s t p w fs' k] unfolding fs r_def
      by (cases d) simp_all
    then obtain t1 fs1 k1 h1 where r: "r = (addr s t1, h1)" "shorted h1 s t1 fs1 k1"
      "inorder (plug t1 fs1) = inorder (plug t fs)" "del_measure (r_red h1) t1 fs1 < Suc (Suc (length fs'))" "r_key h1 = r_key h"
      by (auto simp: del_result_def)
    have "r_root h \<in> frame_nodes fs" using v(1) fs by (auto simp: view_def intro!: frames_root)
    then have root: "addr s t \<noteq> r_root h" using v(1) addr_cases [of t s] by (cases "t = Leaf") (auto simp: view_def zip_ok_def)
    have par: "r_parent h (addr s t) = p" using less.prems by (simp add: shorted_def fs)
    have "(addr s t = r_left h p) = d"
    proof -
      have "w \<noteq> Leaf" using less.prems by (auto simp: shorted_def fs)
      then have "addr s w \<noteq> addr s t" using v(1) addr_cases(1) [of w s] addr_cases [of t s]
        by (cases "t = Leaf") (auto simp: view_def zip_ok_def fs)
      then show ?thesis using v(1) by (auto simp: view_def fs)
    qed
    then have "delete_fix_loop s (addr s t) h = delete_fix_loop s (addr s t1) h1"
      using root red False par r(1) by (subst delete_fix_loop.simps) (simp add: r_def)
    moreover have "del_measure (r_red h1) t1 fs1 < del_measure (r_red h) t fs" using r(4) False fs by (simp add: del_measure_def)
    ultimately show ?thesis using less.hyps [OF _ r(2)] r(3,5) by simp
  qed
qed

subsection \<open>Taking a node out\<close>

lemma plug_append: "plug t (gs @ fs) = plug (plug t gs) fs"
  by (induction t gs rule: plug.induct) (simp_all add: plug.simps(2))

lemma focus_on: "x \<in> set_tree t \<Longrightarrow> \<exists>l r fs. t = plug (Node l x r) fs"
proof (induction t)
  case (Node a y b)
  consider "x = y" | "x \<in> set_tree a" | "x \<in> set_tree b" using Node.prems by auto
  then show ?case
  proof cases
    case 1
    then show ?thesis by (intro exI [of _ a] exI [of _ b] exI [of _ "[]"]) simp
  next
    case 2
    then obtain l r gs where "a = plug (Node l x r) gs" using Node.IH(1) by blast
    then show ?thesis by (intro exI [of _ l] exI [of _ r] exI [of _ "gs @ [(True, y, b)]"]) (simp add: plug_append)
  next
    case 3
    then obtain l r gs where "b = plug (Node l x r) gs" using Node.IH(2) by blast
    then show ?thesis by (intro exI [of _ l] exI [of _ r] exI [of _ "gs @ [(False, y, a)]"]) (simp add: plug_append)
  qed
qed simp

lemma relink_set_parent: "z \<noteq> x \<Longrightarrow> relink x y (set_parent z v h) = set_parent z v (relink x y h)"
  by (simp add: relink_def set_parent_def set_left_def set_right_def set_root_def)

lemma frames_at_sentinel [simp]:
  "s \<notin> frame_nodes fs \<Longrightarrow> frames_distinct fs \<Longrightarrow> frames_at (set_parent s v h) s s fs = frames_at h s s fs"
  by (rule frames_at_same) (auto simp: heap_simps)

lemma unlink_view:
  assumes v: "view h s (Node l x r) fs" and fs: "fs \<noteq> []" and c: "l = Leaf \<and> c = r \<or> r = Leaf \<and> c = l"
    and h1: "h1 = set_parent (addr s c) (r_parent h x) (delete_unlink x (addr s c) h)"
  shows "view h1 s c fs" and "r_parent h1 (addr s c) = fst (snd (hd fs))"
    and "r_red h1 = r_red h" and "r_key h1 = r_key h"
proof -
  define h0 where "h0 = set_parent (addr s c) (r_parent h x) h"
  have d: "x \<noteq> s" "x \<notin> frame_nodes fs" "frames_distinct fs" "s \<notin> frame_nodes fs" "x \<notin> set_tree c" "distinct (inorder c)"
    "set_tree c \<inter> frame_nodes fs = {}" "zip_ok s c fs" "tree_at h s c" "frames_at h s x fs"
    using v c by (auto simp: view_def zip_ok_def)
  have ac: "addr s c \<noteq> x" "addr s c \<notin> frame_nodes fs" using d(1,4,5,7) by (cases c; auto)+
  have root: "x \<noteq> r_root h" using frames_root [OF d(10) fs] d(2) by auto
  then have "delete_unlink x (addr s c) h = relink x (addr s c) h" by (simp add: delete_unlink_def relink_def)
  then have h1r: "h1 = relink x (addr s c) h0" using ac(1) by (simp add: h1 h0_def relink_set_parent)
  have f0: "frames_at h0 s x fs" "tree_at h0 s c" using d(3,6,9,10) ac by (simp_all add: h0_def heap_simps)
  have u0: "under h0 s (r_parent h0 x) (addr s c)" using ac(1) by (simp add: h0_def heap_simps)
  note re = relink_at [OF f0(1) d(1-3) u0]
  show "view h1 s c fs" using re(1) re(2) [of c] d(6-8) f0(2) by (simp add: view_def h1r)
  have "r_parent h x = fst (snd (hd fs))" using d(1,10) fs by (cases fs) (auto simp: under_def)
  then show "r_parent h1 (addr s c) = fst (snd (hd fs))" by (simp add: h1 heap_simps)
  show "r_red h1 = r_red h" "r_key h1 = r_key h" by (simp_all add: h1 delete_unlink_def heap_simps)
qed

text \<open>Another node in the place of \<open>x\<close>, with its children and its color.\<close>

definition take_place :: "rnode \<Rightarrow> rnode \<Rightarrow> rnode \<Rightarrow> rheap \<Rightarrow> rheap" where
  "take_place s x m h =
     (let h = set_left m (r_left h x) h;
          h = set_right m (r_right h x) h;
          h = set_parent m (r_parent h x) h;
          h = hcore_rbt_copy_color m x h;
          h = relink x m h;
          h = (if r_left h m \<noteq> s then set_parent (r_left h m) m h else h)
      in if r_right h m \<noteq> s then set_parent (r_right h m) m h else h)"

lemma delete_replace_take_place:
  "delete_replace s x m temp h
     = take_place s x m (if r_parent h m = x then set_parent temp m h else set_parent temp (r_parent h m) h)"
  by (simp add: delete_replace_def take_place_def relink_def Let_def)

lemma take_place_view:
  assumes t: "tree_at h s l" "tree_at h s r" and f: "frames_at h s x fs" and c: "r_left h x = addr s l" "r_right h x = addr s r"
    and ok: "zip_ok s (Node l x r) fs" and m: "m \<notin> set_tree l \<union> set_tree r \<union> frame_nodes fs" "m \<noteq> x" "m \<noteq> s"
  shows "view (take_place s x m h) s (Node l m r) fs" and "r_red (take_place s x m h) = (r_red h)(m := r_red h x)"
    and "r_key (take_place s x m h) = r_key h"
    and "z \<noteq> m \<Longrightarrow> z = s \<or> z \<noteq> addr s l \<and> z \<noteq> addr s r \<Longrightarrow> r_parent (take_place s x m h) z = r_parent h z"
proof -
  have d: "x \<noteq> s" "x \<notin> frame_nodes fs" "frames_distinct fs" "s \<notin> frame_nodes fs" "distinct (inorder l)" "distinct (inorder r)"
    "set_tree l \<inter> frame_nodes fs = {}" "set_tree r \<inter> frame_nodes fs = {}" "set_tree l \<inter> set_tree r = {}"
    "s \<notin> set_tree l" "s \<notin> set_tree r" "m \<notin> set_tree l" "m \<notin> set_tree r" "m \<notin> frame_nodes fs"
    using ok m by (auto simp: zip_ok_def)
  have al: "addr s l \<noteq> m" "addr s r \<noteq> m" "addr s l \<noteq> s \<Longrightarrow> addr s l \<notin> set_tree r \<union> frame_nodes fs"
    "addr s r \<noteq> s \<Longrightarrow> addr s r \<notin> set_tree l \<union> frame_nodes fs" "addr s l \<noteq> s \<Longrightarrow> addr s l \<noteq> addr s r"
    using d(4-14) m(3) by (cases l; cases r; auto)+
  define h1 where "h1 = hcore_rbt_copy_color m x (set_parent m (r_parent h x) (set_right m (addr s r) (set_left m (addr s l) h)))"
  define h2 where "h2 = relink x m h1"
  define h3 where "h3 = (if addr s l \<noteq> s then set_parent (addr s l) m h2 else h2)"
  define h4 where "h4 = (if addr s r \<noteq> s then set_parent (addr s r) m h3 else h3)"
  have f1: "frames_at h1 s x fs" "tree_at h1 s l" "tree_at h1 s r" "under h1 s (r_parent h1 x) m"
    using t f d m(2) by (simp_all add: h1_def color_ops heap_simps)
  note re = relink_at [OF f1(1) d(1-3) f1(4)]
  have h2: "frames_at h2 s m fs" "tree_at h2 s l" "tree_at h2 s r" "r_left h2 m = addr s l" "r_right h2 m = addr s r"
    using re(1) re(2) [of l] re(2) [of r] re(3) [of m] d f1 al by (simp_all add: h2_def) (simp_all add: h1_def color_ops heap_simps)
  have s1: "r_right (set_left m (addr s l) h) x = addr s r"
    "r_parent (set_right m (addr s r) (set_left m (addr s l) h)) x = r_parent h x"
    using m(2) by (simp_all add: heap_simps c)
  have s2: "r_right h3 m = addr s r" using h2(5) by (simp add: h3_def heap_simps)
  have tp: "take_place s x m h = h4"
    unfolding take_place_def Let_def c(1) s1 h1_def [symmetric] h2_def [symmetric] h2(4) h3_def [symmetric] s2 h4_def [symmetric]
    by (rule refl)
  have "tree_at h3 s l" "tree_at h3 s r" "frames_at h3 s m fs" using h2 d al by (simp_all add: h3_def heap_simps)
  then have "tree_at h4 s l" "tree_at h4 s r" "frames_at h4 s m fs" using d al by (simp_all add: h4_def heap_simps)
  moreover have "r_left h4 m = addr s l" "r_right h4 m = addr s r" "under h4 s m (addr s l)" "under h4 s m (addr s r)"
    using h2(4,5) al by (simp_all add: h4_def h3_def heap_simps)
  moreover have "zip_ok s (Node l m r) fs" using ok m by (auto simp: zip_ok_def)
  ultimately show "view (take_place s x m h) s (Node l m r) fs" by (simp add: view_def tp)
  show "r_red (take_place s x m h) = (r_red h)(m := r_red h x)" "r_key (take_place s x m h) = r_key h"
    by (simp_all add: tp h4_def h3_def h2_def h1_def color_ops heap_simps)
  show "z \<noteq> m \<Longrightarrow> z = s \<or> z \<noteq> addr s l \<and> z \<noteq> addr s r \<Longrightarrow> r_parent (take_place s x m h) z = r_parent h z"
    by (auto simp: tp h4_def h3_def h2_def h1_def color_ops heap_simps)
qed

lemma clear_view:
  assumes "x \<notin> set_tree t" "x \<notin> frame_nodes fs" "x \<noteq> s"
  shows "view (delete_clear x h) s t fs = view h s t fs"
proof -
  have "addr s t \<noteq> x" using assms addr_notin by metis
  then show ?thesis using assms by (auto simp: view_def delete_clear_def zip_ok_def heap_simps)
qed

lemma clear_keeps: "r_red (delete_clear x h) = r_red h" "z \<noteq> x \<Longrightarrow> r_key (delete_clear x h) z = r_key h z"
  "z \<noteq> x \<Longrightarrow> r_parent (delete_clear x h) z = r_parent h z"
  by (simp_all add: delete_clear_def heap_simps)

lemma fbal_subst:
  assumes "m \<notin> frame_nodes (gs @ (d, x, u) # fs)" and "c x = v"
  shows "parent_red (c(m := v)) (gs @ (d, m, u) # fs) = parent_red c (gs @ (d, x, u) # fs)"
    and "fbal (c(m := v)) n (gs @ (d, m, u) # fs) = fbal c n (gs @ (d, x, u) # fs)"
proof -
  have p: "parent_red (c(m := v)) (gs @ (d, m, u) # fs) = parent_red c (gs @ (d, x, u) # fs)"
    if "m \<notin> frame_nodes (gs @ (d, x, u) # fs)" for gs
    using that assms(2) by (cases gs) auto
  then show "parent_red (c(m := v)) (gs @ (d, m, u) # fs) = parent_red c (gs @ (d, x, u) # fs)" using assms(1) .
  show "fbal (c(m := v)) n (gs @ (d, m, u) # fs) = fbal c n (gs @ (d, x, u) # fs)"
    using assms(1)
  proof (induction gs arbitrary: n)
    case Nil
    then have "bal (c(m := v)) u n = bal c u n" "isred (c(m := v)) u = isred c u" "parent_red (c(m := v)) fs = parent_red c fs"
      "\<And>n. fbal (c(m := v)) n fs = fbal c n fs" by simp_all
    then show ?case unfolding append_Nil fbal.simps assms(2) fun_upd_same by (simp only:)
  next
    case (Cons g gs)
    obtain e y w where g: "g = (e, y, w)" by (metis prod_cases3)
    have m: "m \<notin> frame_nodes (gs @ (d, x, u) # fs)" "m \<notin> set_tree w" "m \<noteq> y" using Cons.prems g by auto
    have e: "bal (c(m := v)) w n = bal c w n" "isred (c(m := v)) w = isred c w" "(c(m := v)) y = c y" using m(2,3) by simp_all
    show ?case unfolding g append_Cons fbal.simps p [OF m(1)] Cons.IH [OF m(1)] e by simp
  qed
qed

lemma rbtree_min_ok:
  assumes "view h s t fs" and "t \<noteq> Leaf"
  shows "\<exists>m r gs. hcore_rbtree_min h (addr s t) s = Some m \<and> t = plug (Node Leaf m r) gs \<and> (\<forall>f\<in>set gs. fst f)"
  using assms
proof (induction t arbitrary: fs)
  case (Node l x r)
  have lx: "r_left h x = addr s l" using Node.prems(1) by (simp add: view_def)
  show ?case
  proof (cases "l = Leaf")
    case True
    then show ?thesis using lx by (intro exI [of _ x] exI [of _ r] exI [of _ "[]"]) (simp add: hcore_rbtree_min.simps)
  next
    case False
    have v: "view h s l ((True, x, r) # fs)" using Node.prems(1) by (simp add: view_frame)
    then obtain m r' gs where m: "hcore_rbtree_min h (addr s l) s = Some m" "l = plug (Node Leaf m r') gs" "\<forall>f\<in>set gs. fst f"
      using Node.IH(1) False by blast
    have "addr s l \<noteq> s" using v False by (cases l) (auto simp: view_def zip_ok_def)
    then show ?thesis using m lx
      by (intro exI [of _ m] exI [of _ r'] exI [of _ "gs @ [(True, x, r)]"]) (simp add: hcore_rbtree_min.simps [of _ x] plug_append)
  qed
qed simp

lemma inorder_plug_split: "\<exists>us vs. (\<forall>u. inorder (plug u fs) = us @ inorder u @ vs) \<and> ((\<forall>f\<in>set fs. fst f) \<longrightarrow> us = [])"
proof (induction fs)
  case Nil
  show ?case by (intro exI [of _ "[]"]) simp
next
  case (Cons f fs)
  obtain d x w where f: "f = (d, x, w)" by (metis prod_cases3)
  obtain us vs where "\<forall>u. inorder (plug u fs) = us @ inorder u @ vs" "(\<forall>f\<in>set fs. fst f) \<longrightarrow> us = []" using Cons.IH by blast
  then show ?case
    by (intro exI [of _ "if d then us else us @ inorder w @ [x]"] exI [of _ "if d then x # inorder w @ vs else vs"])
      (simp add: f plug.simps(2))
qed

subsection \<open>Deletion as a whole\<close>

lemma bal_short_ok: "bal c t k \<Longrightarrow> short_ok c t k"
  by (cases t) (auto simp: short_ok_def)

lemma delete_finish:
  assumes v: "view h s t fs" "\<not> r_red h s" and fs: "fs \<noteq> []" and par: "r_parent h (addr s t) = fst (snd (hd fs))"
    and b: "if red then \<not> isred (r_red h) t \<and> bal (r_red h) t n \<and> fbal (r_red h) n fs
      else \<exists>k. n = Suc k \<and> bal (r_red h) t k \<and> fbal (r_red h) n fs"
  shows "\<exists>h' t'. (if red then Some h else (case delete_fix_loop s (addr s t) h of
      None \<Rightarrow> None | Some (temp, h) \<Rightarrow> Some (hcore_rbt_black temp h))) = Some h'
    \<and> rb_tree h' s t' \<and> inorder t' = inorder (plug t fs) \<and> r_key h' = r_key h"
proof (cases red)
  case True
  then have "rb_tree h s (plug t fs)" using b by (intro rb_tree_plug [OF v _ _ fs, of n]) auto
  then show ?thesis using True by auto
next
  case False
  then obtain k where k: "bal (r_red h) t k" "fbal (r_red h) (Suc k) fs" using b by auto
  have "shorted h s t fs k" using v k par by (auto simp: shorted_def bal_short_ok)
  then obtain h1 temp t' where "delete_fix_loop s (addr s t) h = Some (temp, h1)" "rb_tree (hcore_rbt_black temp h1) s t'"
    "inorder t' = inorder (plug t fs)" "r_key h1 = r_key h" using delete_fix_loop_ok by blast
  then show ?thesis using False by (auto simp: color_ops heap_simps)
qed

definition deleted :: "rnode \<Rightarrow> rnode \<Rightarrow> rheap \<Rightarrow> rnode tree \<Rightarrow> bool" where
  "deleted s x h t \<longleftrightarrow> (\<exists>h' t'. hcore_rbtree_delete s x h = Some h' \<and> rb_tree h' s t'
     \<and> inorder t' = remove1 x (inorder t) \<and> (\<forall>z. z \<noteq> x \<longrightarrow> r_key h' z = r_key h z))"

text \<open>The node has at most one child, which takes its place.\<close>

lemma delete_one_child:
  assumes rb: "rb_tree h s t" and t: "t = plug (Node l x r) fs" and c: "l = Leaf \<and> c = r \<or> r = Leaf \<and> c = l"
  shows "deleted s x h t"
proof -
  have v: "view h s (Node l x r) fs" "\<not> r_red h s" using rb view_plug t by (auto simp: rb_tree_def)
  have d: "x \<noteq> s" "x \<notin> set_tree c" "x \<notin> frame_nodes fs" "distinct (inorder c)" "s \<notin> set_tree c"
    using v(1) c by (auto simp: view_def zip_ok_def)
  have choose: "delete_choose s x h = Some (x, addr s c)"
    using v(1) c by (cases l; cases r) (auto simp: delete_choose_def view_def zip_ok_def)
  obtain n where n: "bal (r_red h) (Node l x r) n" "fbal (r_red h) n fs" "r_red h x \<longrightarrow> \<not> parent_red (r_red h) fs"
    using rb bal_unplug [of "r_red h" "Node l x r" fs] t by (auto simp: rb_tree_def simp del: bal.simps)
  obtain us vs where p: "\<And>u. inorder (plug u fs) = us @ inorder u @ vs" using inorder_plug_split by blast
  have "distinct (inorder t)" using rb by (simp add: rb_tree_def view_def zip_ok_def)
  then have io: "inorder (plug c fs) = remove1 x (inorder t)" using c by (auto simp: t p remove1_append)
  show ?thesis
  proof (cases "fs = []")
    case True
    define h1 where "h1 = set_root (addr s c) h"
    have "view h1 s c []" using v(1) c d(4) True by (auto simp: h1_def view_def zip_ok_def heap_simps)
    moreover have "\<exists>k. bal (r_red h1) c k" using n(1) c by (auto simp: h1_def heap_simps split: if_splits)
    ultimately have "rb_tree (hcore_rbt_black (addr s c) h1) s c"
      using rb_tree_blacken v(2) by (auto simp: h1_def heap_simps)
    then have "rb_tree (delete_clear x (hcore_rbt_black (addr s c) h1)) s c"
      using d clear_view [of x c "[]" s] by (simp add: rb_tree_def clear_keeps)
    moreover have "r_root h = x" using v(1) True by (simp add: view_def)
    then have "hcore_rbtree_delete s x h = Some (delete_clear x (hcore_rbt_black (addr s c) h1))"
      by (simp add: hcore_rbtree_delete_def choose h1_def)
    ultimately show ?thesis using io True unfolding deleted_def
      by (intro exI [of _ "delete_clear x (hcore_rbt_black (addr s c) h1)"] exI [of _ c])
        (simp add: clear_keeps color_ops heap_simps h1_def)
  next
    case False
    define h1 where "h1 = set_parent (addr s c) (r_parent h x) (delete_unlink x (addr s c) h)"
    define h2 where "h2 = delete_clear x h1"
    note ul = unlink_view [OF v(1) False c h1_def]
    have ne: "addr s c \<noteq> x" using d addr_notin by metis
    have v2: "view h2 s c fs" "\<not> r_red h2 s" "r_parent h2 (addr s c) = fst (snd (hd fs))" "r_red h2 = r_red h"
      using ul v(2) d ne by (simp_all add: h2_def clear_view clear_keeps)
    have "if r_red h x then \<not> isred (r_red h2) c \<and> bal (r_red h2) c n \<and> fbal (r_red h2) n fs
      else \<exists>k. n = Suc k \<and> bal (r_red h2) c k \<and> fbal (r_red h2) n fs"
      using n c v2(4) by (cases n; cases "r_red h x") auto
    then obtain h' t' where h': "(if r_red h x then Some h2 else (case delete_fix_loop s (addr s c) h2 of
        None \<Rightarrow> None | Some (temp, h) \<Rightarrow> Some (hcore_rbt_black temp h))) = Some h'"
      "rb_tree h' s t'" "inorder t' = inorder (plug c fs)" "r_key h' = r_key h2"
      using delete_finish [OF v2(1,2) False v2(3)] by metis
    have "x \<noteq> r_root h" using v(1) frames_root [OF _ False] d(3) by (auto simp: view_def)
    moreover have "r_parent (delete_unlink x (addr s c) h) = r_parent h" by (simp add: delete_unlink_def heap_simps)
    ultimately have "hcore_rbtree_delete s x h = Some h'"
      using h'(1) by (cases "r_red h x") (simp_all add: hcore_rbtree_delete_def choose Let_def flip: h1_def h2_def)
    then show ?thesis using h' io ul(4) unfolding deleted_def
      by (intro exI [of _ h'] exI [of _ t']) (simp add: h2_def clear_keeps)
  qed
qed

text \<open>The node has two children: the leftmost node of the right subtree leaves its place, as above, and takes
  that of the node.\<close>

lemma frame_nodes_append [simp]: "frame_nodes (gs @ fs) = frame_nodes gs \<union> frame_nodes fs"
  by (induction gs) auto

lemma frames_distinct_append [simp]: "frames_distinct (gs @ fs) \<longleftrightarrow> frames_distinct gs \<and> frames_distinct fs
     \<and> frame_nodes gs \<inter> frame_nodes fs = {}"
  by (induction gs) (auto simp: Int_Un_distrib2)

lemma set_parent_twice: "set_parent a v (set_parent a w h) = set_parent a v h"
  by (simp add: set_parent_def)

lemma replace_view:
  assumes v: "view h s (Node Leaf m r) (gs @ (False, x, l) # fs)"
    and h2: "h2 = delete_replace s x m (addr s r) (delete_unlink m (addr s r) h)"
  shows "view h2 s r (gs @ (False, m, l) # fs)" and "r_parent h2 (addr s r) = fst (snd (hd (gs @ (False, m, l) # fs)))"
    and "r_red h2 = (r_red h)(m := r_red h x)" and "r_key h2 = r_key h"
proof -
  define hu where "hu = delete_unlink m (addr s r) h"
  define h1 where "h1 = set_parent (addr s r) (r_parent h m) hu"
  define R where "R = plug r gs"
  have ul: "view h1 s r (gs @ (False, x, l) # fs)" "r_parent h1 (addr s r) = fst (snd (hd (gs @ (False, x, l) # fs)))"
    "r_red h1 = r_red h" "r_key h1 = r_key h"
    using unlink_view [OF v _ _ h1_def [unfolded hu_def]] by simp_all
  have v1: "view h1 s (Node l x R) fs" using ul(1) view_plug [of h1 s r "gs @ (False, x, l) # fs"] view_plug [of h1 s "Node l x R" fs]
    by (simp add: plug_append R_def)
  have d: "m \<noteq> s" "m \<noteq> x" "m \<notin> set_tree l \<union> set_tree R \<union> frame_nodes fs" "x \<notin> frame_nodes gs" "x \<notin> set_tree r" "x \<noteq> s"
    "set_tree r \<inter> (set_tree l \<union> frame_nodes fs) = {}" "distinct (inorder r)" "x \<notin> frame_nodes fs" "frames_distinct fs"
    "s \<notin> set_tree l \<union> frame_nodes fs" "distinct (inorder l)" "m \<notin> set_tree r" "s \<notin> set_tree r"
    using v by (auto simp: R_def set_plug view_def zip_ok_def)
  have parent: "r_parent hu = r_parent h" by (simp add: hu_def delete_unlink_def heap_simps)
  have pm: "r_parent h m = fst (snd (hd (gs @ (False, x, l) # fs)))"
    using ul(2) by (simp add: h1_def heap_simps)
  have gs: "gs = [] \<longleftrightarrow> r_parent h m = x"
    using d(4) unfolding pm by (cases gs) auto
  define hb where "hb = (if gs = [] then set_parent (addr s r) m hu else set_parent (addr s r) (r_parent h m) hu)"
  have hb: "hb = (if gs = [] then set_parent (addr s r) m h1 else h1)" by (simp add: hb_def h1_def set_parent_twice)
  have h2t: "h2 = take_place s x m hb" by (simp add: h2 delete_replace_take_place parent gs hb_def flip: hu_def)
  have ar: "addr s r \<noteq> x" "addr s r \<notin> set_tree l \<union> frame_nodes fs" using d(5-7,11) by (cases r; auto)+
  have f1: "tree_at h1 s l" "tree_at h1 s R" "frames_at h1 s x fs" "r_left h1 x = addr s l" "r_right h1 x = addr s R"
    using v1 by (simp_all add: view_def)
  have fb: "tree_at hb s l" "tree_at hb s R" "frames_at hb s x fs" "r_left hb x = addr s l" "r_right hb x = addr s R"
    using f1 d(8,10,12) ar by (auto simp: hb heap_simps R_def)
  have ok: "zip_ok s (Node l x R) fs" using v1 by (simp add: view_def)
  note tp = take_place_view [OF fb ok d(3,2,1)]
  show v2: "view h2 s r (gs @ (False, m, l) # fs)"
    using tp(1) view_plug [of h2 s r "gs @ (False, m, l) # fs"] view_plug [of h2 s "Node l m R" fs]
    by (simp add: plug_append R_def h2t)
  show "r_red h2 = (r_red h)(m := r_red h x)" "r_key h2 = r_key h"
    using tp(2,3) ul(3,4) by (auto simp: h2t hb heap_simps)
  show "r_parent h2 (addr s r) = fst (snd (hd (gs @ (False, m, l) # fs)))"
  proof (cases r)
    case Leaf
    have "r_parent h2 s = r_parent hb s" using tp(4) [of s] d(1) by (simp add: h2t)
    then show ?thesis using ul(2) Leaf by (cases gs) (auto simp: hb heap_simps)
  next
    case (Node a b c)
    then show ?thesis using v2 by (cases gs) (auto simp: view_def under_def zip_ok_def)
  qed
qed

lemma delete_two_children:
  assumes rb: "rb_tree h s t" and t: "t = plug (Node l x r) fs" and ne: "l \<noteq> Leaf" "r \<noteq> Leaf"
  shows "deleted s x h t"
proof -
  have v: "view h s (Node l x r) fs" "\<not> r_red h s" using rb view_plug t by (auto simp: rb_tree_def)
  have vr: "view h s r ((False, x, l) # fs)" using v(1) by (simp add: view_frame)
  obtain m rr gs where m: "hcore_rbtree_min h (addr s r) s = Some m" "r = plug (Node Leaf m rr) gs" "\<forall>f\<in>set gs. fst f"
    using rbtree_min_ok [OF vr ne(2)] by blast
  define F where "F = gs @ (False, x, l) # fs"
  define F' where "F' = gs @ (False, m, l) # fs"
  have tF: "t = plug (Node Leaf m rr) F" by (simp add: t F_def plug_append m(2))
  have vm: "view h s (Node Leaf m rr) F" using rb tF view_plug by (auto simp: rb_tree_def)
  have d: "x \<noteq> s" "m \<noteq> x" "m \<notin> frame_nodes F" "x \<notin> set_tree rr \<union> frame_nodes F'" "m \<notin> set_tree rr" "m \<noteq> s"
    using vm by (auto simp: view_def zip_ok_def F_def F'_def)
  have choose: "delete_choose s x h = Some (m, addr s rr)"
    using v(1) vm ne m(1) by (cases l; cases r) (auto simp: delete_choose_def view_def zip_ok_def)
  define h1 where "h1 = delete_replace s x m (addr s rr) (delete_unlink m (addr s rr) h)"
  define h2 where "h2 = delete_clear x h1"
  note rp = replace_view [OF vm [unfolded F_def] h1_def, folded F'_def]
  have ar: "addr s rr \<noteq> x" using d(1,4) addr_notin by auto
  have v2: "view h2 s rr F'" "\<not> r_red h2 s" "r_parent h2 (addr s rr) = fst (snd (hd F'))" "r_red h2 = (r_red h)(m := r_red h x)"
    using rp v(2) d ar by (simp_all add: h2_def clear_view clear_keeps)
  obtain n where n: "bal (r_red h) (Node Leaf m rr) n" "fbal (r_red h) n F" "r_red h m \<longrightarrow> \<not> parent_red (r_red h) F"
    using rb bal_unplug [of "r_red h" "Node Leaf m rr" F] tF by (auto simp: rb_tree_def simp del: bal.simps)
  have "fbal (r_red h2) n F'" "\<And>k. bal (r_red h2) rr k = bal (r_red h) rr k" "isred (r_red h2) rr = isred (r_red h) rr"
    using n(2) fbal_subst(2) [OF d(3) [unfolded F_def] refl] d(5) by (simp_all add: v2(4) F_def F'_def)
  then have b: "if r_red h m then \<not> isred (r_red h2) rr \<and> bal (r_red h2) rr n \<and> fbal (r_red h2) n F'
      else \<exists>k. n = Suc k \<and> bal (r_red h2) rr k \<and> fbal (r_red h2) n F'"
    using n(1) by (cases n; cases "r_red h m") auto
  have F': "F' \<noteq> []" by (simp add: F'_def)
  obtain h' t' where h': "(if r_red h m then Some h2 else (case delete_fix_loop s (addr s rr) h2 of
      None \<Rightarrow> None | Some (temp, h) \<Rightarrow> Some (hcore_rbt_black temp h))) = Some h'"
    "rb_tree h' s t'" "inorder t' = inorder (plug rr F')" "r_key h' = r_key h2"
    using delete_finish [OF v2(1,2) F' v2(3) b] by metis
  have "F \<noteq> []" by (simp add: F_def)
  then have "m \<noteq> r_root h" using vm frames_root d(3) by (auto simp: view_def)
  then have run: "hcore_rbtree_delete s x h = Some h'"
    using h'(1) d(2) by (cases "r_red h m") (simp_all add: hcore_rbtree_delete_def choose Let_def
        flip: h1_def h2_def)
  obtain us vs where p: "\<And>u. inorder (plug u fs) = us @ inorder u @ vs" using inorder_plug_split by blast
  obtain ws where q: "\<And>u. inorder (plug u gs) = inorder u @ ws" using inorder_plug_split [of gs] m(3) by auto
  have "distinct (inorder t)" using rb by (simp add: rb_tree_def view_def zip_ok_def)
  then have "inorder (plug rr F') = remove1 x (inorder t)"
    by (auto simp: t F'_def plug_append p q m(2) remove1_append)
  then show ?thesis using h' run rp(4) unfolding deleted_def
    by (intro exI [of _ h'] exI [of _ t']) (simp add: h2_def clear_keeps)
qed

text \<open>C3: hcore_rbtree_delete of a node of a red-black tree. It returns, what is left is a red-black tree
  again, with the other nodes in the same order and their keys unchanged.\<close>

theorem rbtree_delete_correct:
  assumes "rb_tree h s t" and "x \<in> set_tree t"
  shows "\<exists>h' t'. hcore_rbtree_delete s x h = Some h' \<and> rb_tree h' s t'
    \<and> inorder t' = remove1 x (inorder t) \<and> (\<forall>z. z \<noteq> x \<longrightarrow> r_key h' z = r_key h z)"
proof -
  obtain l r fs where t: "t = plug (Node l x r) fs" using focus_on [OF assms(2)] by blast
  have "deleted s x h t"
    using delete_one_child [OF assms(1) t, of r] delete_one_child [OF assms(1) t, of l] delete_two_children [OF assms(1) t]
    by blast
  then show ?thesis by (simp add: deleted_def)
qed

theorem rbtree_delete_correct_witness:
  "\<exists>h' t'. hcore_rbtree_delete 1 10 sample_tree = Some h' \<and> rb_tree h' 1 t' \<and> inorder t' = [20]"
  using rbtree_delete_correct [OF sample_tree_ok, of 10] by auto

end
