(* ===== verification/HRbNext.thy ===== *)
theory HRbNext
  imports HRbDelete
begin

section \<open>Red-black trees: successor and height\<close>

text \<open>hcore_rbtree_next walks the nodes in order, which is how a caller finds the timers that are due, and the
  balance of the tree bounds the length of every walk down.\<close>

definition first_or_null :: "rnode list \<Rightarrow> rnode" where
  "first_or_null xs = (case xs of [] \<Rightarrow> 0 | x # _ \<Rightarrow> x)"

text \<open>The node behind everything in the hole: the lowest one that has the hole on its left.\<close>

fun above :: "rframes \<Rightarrow> rnode" where
  "above [] = 0"
| "above ((d, x, u) # fs) = (if d then x else above fs)"

lemma rb_next_up_above:
  assumes "view h s t fs" and "t \<noteq> Leaf"
  shows "rb_next_up h (addr s t) = Some (above fs)"
  using assms
proof (induction fs arbitrary: t)
  case Nil
  then show ?case by (simp add: rb_next_up.simps view_def)
next
  case (Cons f fs)
  obtain d p u where f: "f = (d, p, u)" by (metis prod_cases3)
  have root: "addr s t \<noteq> r_root h" using Cons.prems by (rule node_not_root)
  have par: "r_parent h (addr s t) = p" using Cons.prems by (cases t) (auto simp: view_def under_def zip_ok_def f)
  show ?case
  proof (cases d)
    case True
    then have "r_left h p = addr s t" using Cons.prems(1) by (simp add: view_def f)
    then show ?thesis using root par True f by (simp add: rb_next_up.simps [of _ "addr s t"])
  next
    case False
    have v: "view h s (Node u p t) fs" using Cons.prems(1) False by (simp add: view_frame f)
    have "r_left h p = addr s u" using v by (simp add: view_def)
    moreover have "addr s u \<noteq> addr s t" using v Cons.prems(2) by (cases u; cases t) (auto simp: view_def zip_ok_def)
    ultimately have "rb_next_up h (addr s t) = rb_next_up h p"
      using root par by (simp add: rb_next_up.simps [of _ "addr s t"])
    then show ?thesis using Cons.IH [OF v] False f by simp
  qed
qed

lemma plug_above: "\<exists>us vs. (\<forall>u. inorder (plug u fs) = us @ inorder u @ vs) \<and> first_or_null vs = above fs"
proof (induction fs)
  case Nil
  show ?case by (intro exI [of _ "[]"]) (simp add: first_or_null_def)
next
  case (Cons f fs)
  obtain d x w where f: "f = (d, x, w)" by (metis prod_cases3)
  obtain us vs where "\<forall>u. inorder (plug u fs) = us @ inorder u @ vs" "first_or_null vs = above fs" using Cons.IH by blast
  then show ?case
    by (intro exI [of _ "if d then us else us @ inorder w @ [x]"] exI [of _ "if d then x # inorder w @ vs else vs"])
      (simp add: f plug.simps(2) first_or_null_def)
qed

text \<open>C15: hcore_rbtree_next returns the node that follows in the order of the tree, and NULL for the last one.
  So a caller that starts at hcore_rbtree_min sees every node once, in order.\<close>

theorem rbtree_next_correct:
  assumes "rb_tree h s t" and "inorder t = us @ x # vs"
  shows "hcore_rbtree_next s x h = Some (case vs of [] \<Rightarrow> 0 | y # _ \<Rightarrow> y)"
proof -
  have "x \<in> set_tree t" using assms(2) by (metis in_set_conv_decomp set_inorder)
  then obtain l r fs where t: "t = plug (Node l x r) fs" using focus_on by blast
  have v: "view h s (Node l x r) fs" using assms(1) view_plug t by (auto simp: rb_tree_def)
  obtain A B where p: "\<And>u. inorder (plug u fs) = A @ inorder u @ B" "first_or_null B = above fs" using plug_above by blast
  have "distinct (inorder t)" using assms(1) by (simp add: rb_tree_def view_def zip_ok_def)
  then have us: "x \<notin> set us" "x \<notin> set vs" using assms(2) by simp_all
  have "us @ x # vs = (A @ inorder l) @ x # inorder r @ B" unfolding assms(2) [symmetric] by (simp add: t p(1))
  then have vs: "vs = inorder r @ B" using append_Cons_eq_iff [OF us] by blast
  have rx: "r_right h x = addr s r" using v by (simp add: view_def)
  show ?thesis
  proof (cases "r = Leaf")
    case True
    then show ?thesis using rb_next_up_above [OF v] p(2) rx vs by (simp add: hcore_rbtree_next_def first_or_null_def)
  next
    case False
    have vr: "view h s r ((False, x, l) # fs)" using v by (simp add: view_frame)
    obtain m r' gs where m: "hcore_rbtree_min h (addr s r) s = Some m" "r = plug (Node Leaf m r') gs" "\<forall>f\<in>set gs. fst f"
      using rbtree_min_ok [OF vr False] by blast
    obtain ws where "inorder r = m # ws" using inorder_plug_split [of gs] m(2,3) by force
    moreover have "addr s r \<noteq> s" using v False addr_cases(1) [of r s] by (auto simp: view_def zip_ok_def)
    ultimately show ?thesis using m(1) rx vs by (simp add: hcore_rbtree_next_def)
  qed
qed

theorem rbtree_next_correct_witness:
  "hcore_rbtree_next 1 10 sample_tree = Some 20 \<and> hcore_rbtree_next 1 20 sample_tree = Some 0"
  using rbtree_next_correct [OF sample_tree_ok, of "[]" 10 "[20]"] rbtree_next_correct [OF sample_tree_ok, of "[10]" 20 "[]"]
  by simp

lemma bal_size: "bal c t n \<Longrightarrow> 2 ^ n \<le> size1 t"
proof (induction t arbitrary: n)
  case (Node l x r)
  show ?case
  proof (cases "c x")
    case True
    then show ?thesis using Node.IH(1) [of n] Node.prems by auto
  next
    case False
    then obtain k where k: "n = Suc k" "bal c l k" "bal c r k" using Node.prems by (cases n) auto
    then show ?thesis using Node.IH(1) [OF k(2)] Node.IH(2) [OF k(3)] by simp
  qed
qed simp

lemma bal_height: "bal c t n \<Longrightarrow> height t \<le> 2 * n + (if isred c t then 1 else 0)"
proof (induction t arbitrary: n)
  case (Node l x r)
  show ?case
  proof (cases "c x")
    case True
    then show ?thesis using Node.IH(1) [of n] Node.IH(2) [of n] Node.prems by simp
  next
    case False
    then obtain k where k: "n = Suc k" "bal c l k" "bal c r k" using Node.prems by (cases n) auto
    then show ?thesis using Node.IH(1) [OF k(2)] Node.IH(2) [OF k(3)] False by (auto split: if_splits)
  qed
qed simp

text \<open>A tree of \<open>n\<close> nodes is at most twice the logarithm of \<open>n + 1\<close> high: the loops that walk down or up
  (the callbacks of insertion, hcore_rbtree_min, hcore_rbtree_next, the balancing loops) are logarithmic.\<close>

lemma rbtree_height_log:
  assumes "rb_tree h s t"
  shows "2 ^ (height t div 2) \<le> size t + 1"
proof -
  obtain n where n: "bal (r_red h) t n" "\<not> isred (r_red h) t" using assms by (auto simp: rb_tree_def)
  have "height t div 2 \<le> n" using bal_height [OF n(1)] n(2) by simp
  then have "(2::nat) ^ (height t div 2) \<le> 2 ^ n" by simp
  also have "\<dots> \<le> size t + 1" using bal_size [OF n(1)] by (simp add: size1_size)
  finally show ?thesis .
qed

lemma rbtree_height_log_witness: "(2::nat) ^ (height (Node Leaf 10 (Node Leaf (20::rnode) Leaf)) div 2) \<le> 3"
  using rbtree_height_log [OF sample_tree_ok] by simp

end
