(* ===== verification/HSys.thy ===== *)
theory HSys
  imports HPrelude
begin

section \<open>System calls\<close>

text \<open>
  The kernel is a list of answers: every call takes the next one, a result and the value of errno,
  and is recorded. When the answers are used up every call fails with errno 0, so a loop that
  repeats an interrupted call ends: a call is interrupted finitely often.
\<close>

datatype syscall =
  ShmOpen "byte list" int
| ShmUnlink "byte list"
| Close int
| Fstat int
| Ftruncate int int
| Mmap int int
| Munmap int int
| Open "byte list"
| Dup int
| Realloc int int
| Free int
| Write int "byte list"
| Send int int int
| Recv int int
| Sendto int int int
| Recvfrom int int int
| Writev int "(int \<times> int) list"

record sysenv =
  s_answers :: "(int \<times> int) list"
  s_calls :: "syscall list"

abbreviation (input) EINTR :: int where "EINTR \<equiv> 4"

abbreviation (input) O_RDWR :: int where "O_RDWR \<equiv> 2"

abbreviation (input) O_CREAT :: int where "O_CREAT \<equiv> 64"

abbreviation (input) O_TRUNC :: int where "O_TRUNC \<equiv> 512"

definition sys_call :: "syscall \<Rightarrow> 'a sysenv_scheme \<Rightarrow> int \<times> int \<times> 'a sysenv_scheme" where
  "sys_call c e = (let e' = e\<lparr>s_calls := s_calls e @ [c]\<rparr> in
     case s_answers e of [] \<Rightarrow> (-1, 0, e') | (r, err) # as \<Rightarrow> (r, err, e'\<lparr>s_answers := as\<rparr>))"

lemma sys_call_answers:
  "sys_call c e = (r, err, e') \<Longrightarrow> s_answers e' = tl (s_answers e) \<and> s_calls e' = s_calls e @ [c]"
  by (auto simp: sys_call_def Let_def split: list.splits)

lemma sys_call_none: "s_answers e = [] \<Longrightarrow> sys_call c e = (r, err, e') \<Longrightarrow> err = 0"
  by (simp add: sys_call_def Let_def)

text \<open>A call that is repeated while it is interrupted.\<close>

function sys_retry :: "syscall \<Rightarrow> 'a sysenv_scheme \<Rightarrow> int \<times> 'a sysenv_scheme" where
  "sys_retry c e = (case sys_call c e of (r, err, e') \<Rightarrow> if r = -1 \<and> err = EINTR then sys_retry c e' else (r, e'))"
  by auto

termination
proof (relation "measure (\<lambda>(c, e). length (s_answers e))")
  fix c :: syscall and e :: "'a sysenv_scheme" and r y err e'
  assume "(r, y) = sys_call c e" "(err, e') = y" "r = -1 \<and> err = EINTR"
  then have s: "sys_call c e = (r, err, e')" "err \<noteq> 0" by auto
  then have "s_answers e \<noteq> []" using sys_call_none by blast
  then show "((c, e'), c, e) \<in> measure (\<lambda>(c, e). length (s_answers e))"
    using sys_call_answers [OF s(1)] by simp
qed simp

declare sys_retry.simps [simp del]

text \<open>All its calls are the same call, at least one, and the answer is not an interruption.\<close>

lemma sys_retry_calls:
  "sys_retry c e = (r, e') \<Longrightarrow> \<exists>n. s_calls e' = s_calls e @ replicate (Suc n) c"
proof (induction c e arbitrary: r e' rule: sys_retry.induct)
  case (1 c e)
  obtain r1 err e1 where s: "sys_call c e = (r1, err, e1)" by (metis prod_cases3)
  have calls: "s_calls e1 = s_calls e @ [c]" using sys_call_answers [OF s] by simp
  show ?case
  proof (cases "r1 = -1 \<and> err = EINTR")
    case True
    then have "sys_retry c e1 = (r, e')" using 1(2) s by (subst (asm) sys_retry.simps) simp
    then obtain n where "s_calls e' = s_calls e1 @ replicate (Suc n) c" using 1(1) [OF s [symmetric] refl True] by blast
    then show ?thesis using calls by (intro exI [of _ "Suc n"]) simp
  next
    case False
    then show ?thesis using 1(2) s calls by (subst (asm) sys_retry.simps) (auto intro: exI [of _ 0])
  qed
qed

end
