(* ===== verification/HHtb.thy ===== *)
theory HHtb
  imports HSys
begin

section \<open>Hash tables (src/hcore_htb.c, include/hcore_htb.h)\<close>

text \<open>
  A table is an array of cells, each with a status, a count of references and the bytes of its
  element. The hash and the comparison are callbacks. \<open>None\<close> is a probe that does not end, \<open>Fault\<close> an
  access outside the array. The second half of the file maps shared memory and looks for primes.
\<close>

subsection \<open>Cells and tables\<close>

abbreviation (input) HCORE_HTB_STATUS_EMPTY :: int where "HCORE_HTB_STATUS_EMPTY \<equiv> 0"

abbreviation (input) HCORE_HTB_STATUS_EXIST :: int where "HCORE_HTB_STATUS_EXIST \<equiv> 1"

abbreviation (input) HCORE_HTB_STATUS_DELETE :: int where "HCORE_HTB_STATUS_DELETE \<equiv> 2"

abbreviation (input) HCORE_HTB_ERR_SUCCESS :: int where "HCORE_HTB_ERR_SUCCESS \<equiv> 0"

abbreviation (input) HCORE_HTB_ERR_ARGS_ERROR :: int where "HCORE_HTB_ERR_ARGS_ERROR \<equiv> -1"

abbreviation (input) HTP_ERR_MALLOC_FAILED :: int where "HTP_ERR_MALLOC_FAILED \<equiv> -2"

abbreviation (input) HCORE_HTB_ERR_SIZE_FULL_WARNING :: int where "HCORE_HTB_ERR_SIZE_FULL_WARNING \<equiv> -3"

abbreviation (input) HCORE_HTB_ERR_ELEM_EXIST :: int where "HCORE_HTB_ERR_ELEM_EXIST \<equiv> -4"

abbreviation (input) HCORE_HTB_ERR_ELEM_NO_EXIST :: int where "HCORE_HTB_ERR_ELEM_NO_EXIST \<equiv> -6"

abbreviation (input) HCORE_HTB_ERR_SIZE_FULL :: int where "HCORE_HTB_ERR_SIZE_FULL \<equiv> -7"

datatype htb_type = HCORE_HTB_TYPE_COMMON | HCORE_HTB_TYPE_FIXEDSIZE

record htb_elem =
  el_status :: int
  el_ref :: int
  el_data :: "byte list"

record htb =
  tb_elem_max :: int
  tb_resize :: int
  tb_type :: htb_type
  tb_size :: int
  tb_count :: int
  tb_data_size :: int
  tb_elems :: "htb_elem list"

record htb_proc =
  compare_proc :: "byte list \<Rightarrow> byte list \<Rightarrow> int"
  get_hash_proc :: "byte list \<Rightarrow> int"

definition hcore_htb_get_size_total :: "int \<Rightarrow> int \<Rightarrow> int" where
  "hcore_htb_get_size_total sz data_size = u32 (24 + sz * (8 + data_size))"

text \<open>\<open>ptb\<close> is \<open>None\<close> if the pointer or what it points to is NULL; \<open>got\<close> is the answer of malloc, the cells
  with whatever the block holds.\<close>

definition hcore_htb_init :: "htb option \<Rightarrow> int \<Rightarrow> int \<Rightarrow> htb_type \<Rightarrow> (int \<times> int) option \<Rightarrow> htb option \<Rightarrow> int \<times> htb option" where
  "hcore_htb_init ptb sz data_size type limit got =
     (if ptb = None \<or> sz = 0 \<or> data_size = 0 then (HCORE_HTB_ERR_ARGS_ERROR, ptb)
      else if type = HCORE_HTB_TYPE_COMMON \<and> got = None then (HTP_ERR_MALLOC_FAILED, ptb)
      else
        let tb = the (if type = HCORE_HTB_TYPE_COMMON then got else ptb);
            tb = tb\<lparr>tb_size := sz, tb_data_size := data_size, tb_count := 0, tb_type := type\<rparr>;
            (elem_max, resize) = (case limit of Some l \<Rightarrow> l | None \<Rightarrow> (0, 0));
            tb = tb\<lparr>tb_elem_max := elem_max, tb_resize := resize\<rparr>;
            tb = tb\<lparr>tb_elems := map (\<lambda>e. e\<lparr>el_status := HCORE_HTB_STATUS_EMPTY\<rparr>) (tb_elems tb)\<rparr>
        in (HCORE_HTB_ERR_SUCCESS, Some tb))"

text \<open>The result, and whether the block is given back.\<close>

definition hcore_htb_free :: "htb option \<Rightarrow> int \<times> htb option \<times> bool" where
  "hcore_htb_free ptb = (case ptb of
      None \<Rightarrow> (HCORE_HTB_ERR_ARGS_ERROR, ptb, False)
    | Some tb \<Rightarrow> if tb_type tb = HCORE_HTB_TYPE_COMMON then (HCORE_HTB_ERR_SUCCESS, None, True)
        else (HCORE_HTB_ERR_SUCCESS, ptb, False))"

definition htb_get_elem :: "htb \<Rightarrow> int \<Rightarrow> htb_elem run" where
  "htb_get_elem tb i = (if 0 \<le> i \<and> nat i < length (tb_elems tb) then Ret (tb_elems tb ! nat i) else Fault)"

definition htb_set_elem :: "int \<Rightarrow> htb_elem \<Rightarrow> htb \<Rightarrow> htb" where
  "htb_set_elem i e tb = tb\<lparr>tb_elems := (tb_elems tb)[nat i := e]\<rparr>"

partial_function (option) htb_probe :: "htb \<Rightarrow> byte list \<Rightarrow> htb_proc \<Rightarrow> int \<Rightarrow> int \<Rightarrow> int run option" where
  "htb_probe tb data proc index collision_num =
     (case htb_get_elem tb index of
        Fault \<Rightarrow> Some Fault
      | Ret elem \<Rightarrow>
          if el_status elem = HCORE_HTB_STATUS_EXIST then Some (Ret index)
          else if compare_proc proc (el_data elem) data = 0 then Some (Ret index)
          else
            let collision_num = u32 (collision_num + 1);
                index = u32 (index + u32 (u32 (collision_num * 2) - 1));
                index = (if tb_size tb \<le> index then index mod tb_size tb else index)
            in htb_probe tb data proc index collision_num)"

definition hcore_htb_find_pos :: "htb option \<Rightarrow> byte list option \<Rightarrow> htb_proc option \<Rightarrow> int run option" where
  "hcore_htb_find_pos tb data proc = (case (tb, data, proc) of
      (Some tb, Some data, Some proc) \<Rightarrow> htb_probe tb data proc (get_hash_proc proc data mod tb_size tb) 0
    | _ \<Rightarrow> Some (Ret (u32 HCORE_HTB_ERR_ARGS_ERROR)))"

definition htb_at :: "htb \<Rightarrow> byte list option \<Rightarrow> htb_proc option \<Rightarrow> (int \<Rightarrow> htb_elem \<Rightarrow> int \<times> htb) \<Rightarrow> (int \<times> htb option) run option" where
  "htb_at tb data proc use = (case hcore_htb_find_pos (Some tb) data proc of
      None \<Rightarrow> None
    | Some index \<Rightarrow> Some (bind_run index (\<lambda>index. bind_run (htb_get_elem tb index) (\<lambda>elem.
        case use index elem of (rc, tb) \<Rightarrow> Ret (rc, Some tb)))))"

definition hcore_htb_insert :: "htb option \<Rightarrow> byte list option \<Rightarrow> htb_proc option \<Rightarrow> int \<Rightarrow> (int \<times> htb option) run option" where
  "hcore_htb_insert ptb data proc existed = (case ptb of
      None \<Rightarrow> Some (Ret (HCORE_HTB_ERR_ARGS_ERROR, ptb))
    | Some tb \<Rightarrow>
        if tb_count tb = tb_size tb then Some (Ret (HCORE_HTB_ERR_SIZE_FULL, ptb))
        else
          let ret = (if tb_type tb = HCORE_HTB_TYPE_FIXEDSIZE \<and> u32 (tb_count tb * 10) div tb_size tb > 7
                then HCORE_HTB_ERR_SIZE_FULL_WARNING else HCORE_HTB_ERR_SUCCESS)
          in htb_at tb data proc (\<lambda>index elem.
              if el_status elem = HCORE_HTB_STATUS_DELETE then
                (ret, (htb_set_elem index (elem\<lparr>el_status := HCORE_HTB_STATUS_EXIST, el_ref := 1\<rparr>) tb)
                   \<lparr>tb_count := u32 (tb_count tb + 1)\<rparr>)
              else if el_status elem = HCORE_HTB_STATUS_EXIST then
                if existed \<noteq> 0 then (HCORE_HTB_ERR_ELEM_EXIST, tb)
                else (HCORE_HTB_ERR_SUCCESS, htb_set_elem index (elem\<lparr>el_ref := u32 (el_ref elem + 1)\<rparr>) tb)
              else
                (ret, (htb_set_elem index (elem\<lparr>el_data := take (nat (tb_data_size tb)) (the data),
                     el_status := HCORE_HTB_STATUS_EXIST, el_ref := 1\<rparr>) tb)\<lparr>tb_count := u32 (tb_count tb + 1)\<rparr>)))"

definition hcore_htb_remove :: "htb option \<Rightarrow> byte list option \<Rightarrow> htb_proc option \<Rightarrow> (int \<times> htb option) run option" where
  "hcore_htb_remove ptb data proc = (case (ptb, data, proc) of
      (Some tb, Some d, Some pr) \<Rightarrow>
        htb_at tb data proc (\<lambda>index elem.
          if el_status elem = HCORE_HTB_STATUS_EXIST then
            let elem = elem\<lparr>el_ref := u32 (el_ref elem - 1)\<rparr> in
            if el_ref elem = 0 then
              (HCORE_HTB_ERR_SUCCESS, (htb_set_elem index (elem\<lparr>el_status := HCORE_HTB_STATUS_DELETE\<rparr>) tb)
                 \<lparr>tb_count := u32 (tb_count tb - 1)\<rparr>)
            else (HCORE_HTB_ERR_SUCCESS, htb_set_elem index elem tb)
          else (HCORE_HTB_ERR_ELEM_NO_EXIST, tb))
    | _ \<Rightarrow> Some (Ret (HCORE_HTB_ERR_ARGS_ERROR, ptb)))"

subsection \<open>Shared memory\<close>

definition hcore_shm_open :: "byte list \<Rightarrow> int \<Rightarrow> sysenv \<Rightarrow> int \<times> sysenv" where
  "hcore_shm_open name oflag e = (case sys_call (ShmOpen name oflag) e of (fd, err, e) \<Rightarrow> (fd, e))"

definition hcore_close :: "int \<Rightarrow> sysenv \<Rightarrow> int \<times> sysenv" where
  "hcore_close fd e = sys_retry (Close fd) e"

text \<open>The size of the object is part of the answer: its value is the result if the call succeeds.\<close>

definition hcore_fstat :: "int \<Rightarrow> sysenv \<Rightarrow> int \<times> sysenv" where
  "hcore_fstat fd e = (case sys_call (Fstat fd) e of (r, err, e) \<Rightarrow> (r, e))"

definition hcore_ftruncate :: "int \<Rightarrow> int \<Rightarrow> sysenv \<Rightarrow> int \<times> sysenv" where
  "hcore_ftruncate fd len e = sys_retry (Ftruncate fd len) e"

definition hcore_mmap :: "int \<Rightarrow> int \<Rightarrow> sysenv \<Rightarrow> int \<times> sysenv" where
  "hcore_mmap len fd e = (case sys_call (Mmap len fd) e of (p, err, e) \<Rightarrow> (if p = -1 then 0 else p, e))"

definition hcore_shm_create :: "byte list option \<Rightarrow> int \<Rightarrow> sysenv \<Rightarrow> int \<times> sysenv" where
  "hcore_shm_create shm_name shm_size e = (case shm_name of
      None \<Rightarrow> (0, e)
    | Some name \<Rightarrow>
        (let (fd, e) = hcore_shm_open name (O_CREAT OR O_RDWR OR O_TRUNC) e;
             (ret_ptr, e) = (if fd = -1 then (0, e)
               else let (r, e) = hcore_ftruncate fd shm_size e in
                 if r = -1 then (0, e) else hcore_mmap shm_size fd e);
             (r, e) = hcore_close fd e
         in (ret_ptr, e)))"

text \<open>The mapping, and what is stored to \<open>size\<close> (an unsigned int) if there is one.\<close>

definition hcore_shm_get :: "byte list \<Rightarrow> sysenv \<Rightarrow> int \<times> int option \<times> sysenv" where
  "hcore_shm_get name e =
     (let (fd, e) = hcore_shm_open name O_RDWR e;
          (ret_ptr, sz, e) = (if fd = -1 then (0, None, e)
            else let (st_size, e) = hcore_fstat fd e in
              if st_size = -1 then (0, None, e)
              else let (p, e) = hcore_mmap st_size fd e in
                if p = 0 then (0, None, e) else (p, Some (u32 st_size), e));
          (r, e) = hcore_close fd e
      in (ret_ptr, sz, e))"

subsection \<open>Primes\<close>

text \<open>The code divides doubles. The numbers stay below \<open>2 ^ 31\<close>, where they are exact, and the rounded
  quotient \<open>x / i\<close> is a whole number only if \<open>i\<close> divides \<open>x\<close>: otherwise the quotient is at least \<open>1 / i\<close>
  away from one, far more than the rounding.\<close>

partial_function (option) prime_inner :: "int \<Rightarrow> int \<Rightarrow> bool option" where
  "prime_inner x i =
     (if x mod i \<noteq> 0 \<and> i = x - 1 then Some True
      else if x mod i = 0 then Some False
      else prime_inner x (i + 1))"

partial_function (option) prime_outer :: "int \<Rightarrow> int \<Rightarrow> int option" where
  "prime_outer x max_value =
     (if x \<le> max_value then
        (case prime_inner x 2 of
           None \<Rightarrow> None
         | Some found \<Rightarrow> if found then Some x else prime_outer (x + 1) max_value)
      else Some (-1))"

definition hcore_int_to_prime :: "int \<Rightarrow> int \<Rightarrow> int option" where
  "hcore_int_to_prime n mx = prime_outer n (if mx = 0 then 2147483647 else mx)"

text \<open>The search against its specification.\<close>

definition is_prime :: "int \<Rightarrow> bool" where
  "is_prime p \<longleftrightarrow> 1 < p \<and> (\<forall>d. 1 < d \<and> d < p \<longrightarrow> \<not> d dvd p)"

lemma prime_inner_correct:
  assumes "2 \<le> i" "i < x" and "\<forall>d. 1 < d \<and> d < i \<longrightarrow> \<not> d dvd x"
  shows "prime_inner x i = Some (is_prime x)"
  using assms
proof (induction "nat (x - i)" arbitrary: i)
  case (Suc k)
  show ?case
  proof (cases "i dvd x")
    case True
    then have "\<not> is_prime x" using Suc.prems by (auto simp: is_prime_def)
    moreover have "prime_inner x i = Some False" using True by (subst prime_inner.simps) (simp add: dvd_eq_mod_eq_0)
    ultimately show ?thesis by simp
  next
    case False
    then have no: "\<forall>d. 1 < d \<and> d < i + 1 \<longrightarrow> \<not> d dvd x" using Suc.prems(3) zle_add1_eq_le by (metis order_le_less)
    show ?thesis
    proof (cases "i = x - 1")
      case True
      then have "is_prime x" using no Suc.prems by (simp add: is_prime_def)
      then show ?thesis using False True by (subst prime_inner.simps) (simp add: dvd_eq_mod_eq_0)
    next
      case f: False
      have "prime_inner x i = prime_inner x (i + 1)"
        using False f by (subst prime_inner.simps) (simp add: dvd_eq_mod_eq_0)
      also have "\<dots> = Some (is_prime x)" using Suc.hyps Suc.prems no f by (intro Suc.hyps(1)) auto
      finally show ?thesis .
    qed
  qed
qed simp

lemma prime_outer_correct:
  assumes "3 \<le> x"
  shows "\<exists>r. prime_outer x m = Some r \<and> (r = -1 \<and> (\<forall>p. x \<le> p \<and> p \<le> m \<longrightarrow> \<not> is_prime p)
    \<or> x \<le> r \<and> r \<le> m \<and> is_prime r \<and> (\<forall>p. x \<le> p \<and> p < r \<longrightarrow> \<not> is_prime p))"
  using assms
proof (induction "nat (m + 1 - x)" arbitrary: x)
  case 0
  then show ?case by (subst prime_outer.simps) auto
next
  case (Suc k)
  then have le: "x \<le> m" by simp
  have inner: "prime_inner x 2 = Some (is_prime x)" using Suc.prems by (intro prime_inner_correct) auto
  show ?case
  proof (cases "is_prime x")
    case True
    then show ?thesis using le inner by (subst prime_outer.simps) auto
  next
    case False
    have step: "prime_outer x m = prime_outer (x + 1) m" using le inner False by (subst prime_outer.simps) simp
    have split: "x \<le> p \<longleftrightarrow> p = x \<or> x + 1 \<le> p" for p by linarith
    have "k = nat (m + 1 - (x + 1))" using Suc.hyps(2) by simp
    then obtain r where r: "prime_outer (x + 1) m = Some r" "r = -1 \<and> (\<forall>p. x + 1 \<le> p \<and> p \<le> m \<longrightarrow> \<not> is_prime p)
      \<or> x + 1 \<le> r \<and> r \<le> m \<and> is_prime r \<and> (\<forall>p. x + 1 \<le> p \<and> p < r \<longrightarrow> \<not> is_prime p)"
      using Suc.hyps(1) [of "x + 1"] Suc.prems by auto
    then show ?thesis unfolding step using False split by (intro exI [of _ r]) auto
  qed
qed

text \<open>C39: hcore_int_to_prime of a number from 3 on returns, and its result is the least prime that is not smaller
  than the number and not greater than the limit, INT_MAX if it is 0; it is -1 if there is none.\<close>

theorem int_to_prime_correct:
  assumes "3 \<le> n" and "limit = (if mx = 0 then 2147483647 else mx)"
  shows "\<exists>r. hcore_int_to_prime n mx = Some r \<and> (r = -1 \<and> (\<forall>p. n \<le> p \<and> p \<le> limit \<longrightarrow> \<not> is_prime p)
    \<or> n \<le> r \<and> r \<le> limit \<and> is_prime r \<and> (\<forall>p. n \<le> p \<and> p < r \<longrightarrow> \<not> is_prime p))"
  using prime_outer_correct [OF assms(1), of limit] assms(2) unfolding hcore_int_to_prime_def by simp

theorem int_to_prime_correct_witness: "\<exists>r. hcore_int_to_prime 24 28 = Some r \<and> (r = -1 \<or> is_prime r)"
  using int_to_prime_correct [of 24 28 28] by auto

text \<open>The prime 2 is passed over, because the loop over divisors starts at 2, and from 1 down the search does not end.\<close>

lemma prime_two_missed: "hcore_int_to_prime 2 0 = Some 3"
proof -
  have "prime_inner 2 2 = Some False" by (simp add: prime_inner.simps)
  moreover have "prime_inner 3 2 = Some True" by (simp add: prime_inner.simps)
  ultimately show ?thesis by (simp add: hcore_int_to_prime_def prime_outer.simps [of 2] prime_outer.simps [of 3])
qed

lemma prime_inner_one:
  assumes "prime_inner x i = Some b"
  shows "\<not> (x = 1 \<and> 2 \<le> i)"
proof -
  have "(case (x, i) of (x, i) \<Rightarrow> (\<lambda>b. \<not> (x = 1 \<and> 2 \<le> i))) b"
  proof (rule prime_inner.raw_induct [where P = "\<lambda>x i b. \<not> (x = 1 \<and> 2 \<le> i)"])
    fix rec :: "int \<Rightarrow> int \<Rightarrow> bool option" and x i :: int and b
    assume IH: "\<And>x i b. rec x i = Some b \<Longrightarrow> \<not> (x = 1 \<and> 2 \<le> i)"
      and body: "(if x mod i \<noteq> 0 \<and> i = x - 1 then Some True else if x mod i = 0 then Some False else rec x (i + 1)) = Some b"
    show "\<not> (x = 1 \<and> 2 \<le> i)"
    proof
      assume x: "x = 1 \<and> 2 \<le> i"
      then have "x mod i = 1" by simp
      then show False using x body IH [of x "i + 1" b] by (auto split: if_splits)
    qed
  qed (simp add: assms)
  then show ?thesis by simp
qed

lemma prime_one_loops: "1 \<le> mx \<Longrightarrow> hcore_int_to_prime 1 mx = None"
  using prime_inner_one [of 1 2] by (cases "prime_inner 1 2") (simp_all add: hcore_int_to_prime_def prime_outer.simps [of 1])

subsection \<open>What the table does\<close>

text \<open>An element whose home cell is in use: the references to the cell are counted up and down again, whatever
  the cell holds. The element is not compared with it.\<close>

lemma htb_insert_remove_home:
  assumes "i = get_hash_proc proc data mod tb_size tb" and "nat i < length (tb_elems tb)" "0 \<le> i"
    and "el_status (tb_elems tb ! nat i) = HCORE_HTB_STATUS_EXIST" and "1 \<le> el_ref (tb_elems tb ! nat i)"
    and "el_ref (tb_elems tb ! nat i) < 4294967295" and "tb_count tb \<noteq> tb_size tb"
  shows "\<exists>tb'. hcore_htb_insert (Some tb) (Some data) (Some proc) 0 = Some (Ret (HCORE_HTB_ERR_SUCCESS, Some tb'))
    \<and> tb_elems tb' = (tb_elems tb)[nat i := (tb_elems tb ! nat i)\<lparr>el_ref := el_ref (tb_elems tb ! nat i) + 1\<rparr>]
    \<and> hcore_htb_remove (Some tb') (Some data) (Some proc) = Some (Ret (HCORE_HTB_ERR_SUCCESS, Some tb))"
proof -
  define el where "el = tb_elems tb ! nat i"
  define tb' where "tb' = htb_set_elem i (el\<lparr>el_ref := el_ref el + 1\<rparr>) tb"
  have home: "hcore_htb_find_pos (Some tb) (Some data) (Some proc) = Some (Ret i)" "htb_get_elem tb i = Ret el"
    using assms(2-4) by (simp_all add: htb_get_elem_def htb_probe.simps el_def hcore_htb_find_pos_def flip: assms(1))
  have ref: "u32 (el_ref el + 1) = el_ref el + 1" "u32 (el_ref el) = el_ref el" "el_ref el \<noteq> 0"
    using assms(5,6) by (simp_all add: u32_id el_def)
  have "hcore_htb_insert (Some tb) (Some data) (Some proc) 0 = Some (Ret (HCORE_HTB_ERR_SUCCESS, Some tb'))"
    using assms(4,7) home ref by (simp add: hcore_htb_insert_def htb_at_def tb'_def el_def Let_def)
  moreover have elems: "tb_elems tb' = (tb_elems tb)[nat i := el\<lparr>el_ref := el_ref el + 1\<rparr>]" "tb_size tb' = tb_size tb"
    by (simp_all add: tb'_def htb_set_elem_def)
  moreover have "hcore_htb_remove (Some tb') (Some data) (Some proc) = Some (Ret (HCORE_HTB_ERR_SUCCESS, Some tb))"
  proof -
    have g: "htb_get_elem tb' i = Ret (el\<lparr>el_ref := el_ref el + 1\<rparr>)" using assms(2,3) elems by (simp add: htb_get_elem_def)
    moreover from this have "hcore_htb_find_pos (Some tb') (Some data) (Some proc) = Some (Ret i)"
      using assms(4) elems by (simp add: htb_probe.simps el_def hcore_htb_find_pos_def flip: assms(1))
    moreover have "htb_set_elem i (el\<lparr>el_ref := el_ref el\<rparr>) tb' = tb" using assms(2) by (simp add: htb_set_elem_def tb'_def el_def)
    moreover have "el_status el = HCORE_HTB_STATUS_EXIST" using assms(4) by (simp add: el_def)
    ultimately show ?thesis using ref by (simp add: hcore_htb_remove_def htb_at_def Let_def)
  qed
  ultimately show ?thesis by (auto simp: el_def)
qed

text \<open>The probe only stops at a cell in use or at bytes that compare equal: in a table without cells in use and
  without such left-over bytes, as after hcore_htb_init, insertion does not return.\<close>

lemma htb_probe_empty:
  assumes "htb_probe tb data proc index n = Some r" and "r = Ret i"
  shows "\<exists>el\<in>set (tb_elems tb). el_status el = HCORE_HTB_STATUS_EXIST \<or> compare_proc proc (el_data el) data = 0"
proof -
  define ok where "ok = (\<lambda>(tb::htb) (proc::htb_proc) data. \<exists>el\<in>set (tb_elems tb). el_status el = HCORE_HTB_STATUS_EXIST
    \<or> compare_proc proc (el_data el) data = 0)"
  have "\<forall>i. r = Ret i \<longrightarrow> ok tb proc data"
  proof (rule htb_probe.raw_induct [where P = "\<lambda>tb data proc index n r. \<forall>i. r = Ret i \<longrightarrow> ok tb proc data"])
    fix rec :: "htb \<Rightarrow> byte list \<Rightarrow> htb_proc \<Rightarrow> int \<Rightarrow> int \<Rightarrow> int run option" and tb data proc index n and r :: "int run"
    assume IH: "\<And>tb data proc index n r. rec tb data proc index n = Some r \<Longrightarrow> \<forall>i. r = Ret i \<longrightarrow> ok tb proc data"
      and body: "(case htb_get_elem tb index of
        Fault \<Rightarrow> Some Fault
      | Ret elem \<Rightarrow>
          if el_status elem = HCORE_HTB_STATUS_EXIST then Some (Ret index)
          else if compare_proc proc (el_data elem) data = 0 then Some (Ret index)
          else
            let n = u32 (n + 1);
                index = u32 (index + u32 (u32 (n * 2) - 1));
                index = (if tb_size tb \<le> index then index mod tb_size tb else index)
            in rec tb data proc index n) = Some r"
    show "\<forall>i. r = Ret i \<longrightarrow> ok tb proc data"
    proof (cases "htb_get_elem tb index")
      case Fault
      then show ?thesis using body by auto
    next
      case (Ret elem)
      then have "elem \<in> set (tb_elems tb)" by (auto simp: htb_get_elem_def split: if_splits)
      then have "el_status elem = HCORE_HTB_STATUS_EXIST \<or> compare_proc proc (el_data elem) data = 0 \<Longrightarrow> ok tb proc data"
        by (auto simp: ok_def)
      then show ?thesis using body Ret IH unfolding Let_def by (simp split: if_splits)
    qed
  qed (rule assms(1))
  then show ?thesis using assms(2) by (auto simp: ok_def)
qed

text \<open>Opening and mapping shared memory: whatever fails, the last call closes the descriptor that shm_open gave.\<close>

lemma close_last: "hcore_close fd f = (r, f') \<Longrightarrow> last (s_calls f') = Close fd"
  using sys_retry_calls [of "Close fd" f r f'] by (auto simp: hcore_close_def)

lemma shm_create_closes:
  assumes "sys_call (ShmOpen name (O_CREAT OR O_RDWR OR O_TRUNC)) e = (fd, err, e1)"
  shows "last (s_calls (snd (hcore_shm_create (Some name) n e))) = Close fd"
proof -
  have "sys_call (ShmOpen name 578) e = (fd, err, e1)" using assms by simp
  then show ?thesis
    unfolding hcore_shm_create_def hcore_shm_open_def Let_def
    by (auto dest: close_last split: prod.splits if_splits)
qed

end
