(* ===== verification/HShmtx.thy ===== *)
theory HShmtx
  imports HPrelude
begin

section \<open>The lock in shared memory (src/hcore_shmtx.c)\<close>

text \<open>
  The lock is one word: 0, or the process id of the owner. It is taken by a compare-and-swap
  (include/hcore_base.h) after a plain read. Every read, every compare-and-swap and every pause of
  the spinning loop is a step of its own, and the steps of the processes interleave in any order; a
  process may die between any two of its steps. \<open>mtx_pc\<close> names the place where a process is: the
  loads and compare-and-swaps of hcore_shmtx_lock (\<open>LLoad\<close>, \<open>LCas\<close> before spinning, \<open>LLoad2\<close>,
  \<open>LCas2\<close> after the pauses of a round), its loops (\<open>LFor\<close>, \<open>LPause\<close>) and sched_yield
  (\<open>LYield\<close>), the two steps of hcore_shmtx_trylock, and the one of hcore_shmtx_unlock and
  hcore_shmtx_force_unlock. \<open>Rest\<close> is outside these functions without the lock, \<open>Held\<close> with it.
  Process ids are positive and not reused; hcore_shmtx_force_unlock is called for processes that died.
\<close>

subsection \<open>Data and initialisation\<close>

record shmtx =
  m_lock :: "int option"
  m_spin :: int

definition hcore_shmtx_init :: "shmtx option \<Rightarrow> int option \<Rightarrow> int \<times> shmtx option" where
  "hcore_shmtx_init mtx addr = (case (mtx, addr) of
      (Some m, Some a) \<Rightarrow>
        (let m = m\<lparr>m_lock := Some a\<rparr> in
         if m_spin m = u32 (-1) then (HCORE_OK, Some m) else (HCORE_OK, Some (m\<lparr>m_spin := 2048\<rparr>)))
    | _ \<Rightarrow> (HCORE_ERROR, mtx))"

text \<open>The result and the word after it.\<close>

definition hcore_atomic_cmp_set :: "int \<Rightarrow> int \<Rightarrow> int \<Rightarrow> int \<times> int" where
  "hcore_atomic_cmp_set lock old new = (if lock = old then (1, new) else (0, lock))"

text \<open>The other atomic operations of hcore_base.h: the value returned and the word after it. The increment is \<open>incl\<close>, of
  the low four bytes.\<close>

definition hcore_atomic_fetch_add :: "int \<Rightarrow> int \<Rightarrow> int \<times> int" where
  "hcore_atomic_fetch_add v add = (v, u64 (v + add))"

definition hcore_atomic_fetch :: "int \<Rightarrow> int" where
  "hcore_atomic_fetch v = v"

definition hcore_atomic_increase :: "int \<Rightarrow> int" where
  "hcore_atomic_increase v = v div 4294967296 * 4294967296 + u32 (v + 1)"

lemma atomic_increase_small: "v mod 4294967296 \<noteq> 4294967295 \<Longrightarrow> hcore_atomic_increase v = v + 1"
proof -
  assume "v mod 4294967296 \<noteq> 4294967295"
  then have "0 \<le> v mod 4294967296 + 1" "v mod 4294967296 + 1 < 4294967296"
    using pos_mod_bound [of 4294967296 v] pos_mod_sign [of 4294967296 v] by linarith+
  then have "u32 (v + 1) = v mod 4294967296 + 1" using mod_add_left_eq [of v 4294967296 1] by (simp add: u32_def)
  then show ?thesis using div_mult_mod_eq [of v 4294967296] by (simp add: hcore_atomic_increase_def)
qed

text \<open>The carry out of the low half is lost.\<close>

lemma atomic_increase_loses_carry: "hcore_atomic_increase 4294967295 = 0"
  by (simp add: hcore_atomic_increase_def u32_def)

subsection \<open>The steps of one process\<close>

datatype mtx_pc =
  Rest
| Held
| LLoad
| LCas
| LFor int
| LPause int int
| LLoad2 int
| LCas2 int
| LYield
| TLoad
| TCas
| Unlock
| Force int
| Dead

fun lock_step :: "int \<Rightarrow> int \<Rightarrow> mtx_pc \<Rightarrow> int \<Rightarrow> mtx_pc \<times> int" where
  "lock_step spin pid LLoad lock = (if lock = 0 then LCas else LFor 1, lock)"
| "lock_step spin pid LCas lock =
     (case hcore_atomic_cmp_set lock 0 pid of (r, lock) \<Rightarrow> (if r \<noteq> 0 then Held else LFor 1, lock))"
| "lock_step spin pid (LFor n) lock = (if n < spin then LPause n 0 else LYield, lock)"
| "lock_step spin pid (LPause n i) lock = (if i < n then LPause n (u32 (i + 1)) else LLoad2 n, lock)"
| "lock_step spin pid (LLoad2 n) lock = (if lock = 0 then LCas2 n else LFor (u32 (n * 2)), lock)"
| "lock_step spin pid (LCas2 n) lock =
     (case hcore_atomic_cmp_set lock 0 pid of (r, lock) \<Rightarrow> (if r \<noteq> 0 then Held else LFor (u32 (n * 2)), lock))"
| "lock_step spin pid LYield lock = (LLoad, lock)"
| "lock_step spin pid pc lock = (pc, lock)"

fun trylock_step :: "int \<Rightarrow> mtx_pc \<Rightarrow> int \<Rightarrow> mtx_pc \<times> int" where
  "trylock_step pid TLoad lock = (if lock = 0 then TCas else Rest, lock)"
| "trylock_step pid TCas lock =
     (case hcore_atomic_cmp_set lock 0 pid of (r, lock) \<Rightarrow> (if r \<noteq> 0 then Held else Rest, lock))"
| "trylock_step pid pc lock = (pc, lock)"

definition unlock_step :: "int \<Rightarrow> int \<Rightarrow> mtx_pc \<times> int" where
  "unlock_step pid lock = (Rest, snd (hcore_atomic_cmp_set lock pid 0))"

definition mtx_step :: "int \<Rightarrow> int \<Rightarrow> mtx_pc \<Rightarrow> int \<Rightarrow> mtx_pc \<times> int" where
  "mtx_step spin pid pc lock = (case pc of
      Unlock \<Rightarrow> unlock_step pid lock
    | Force q \<Rightarrow> unlock_step q lock
    | TLoad \<Rightarrow> trylock_step pid pc lock
    | TCas \<Rightarrow> trylock_step pid pc lock
    | _ \<Rightarrow> lock_step spin pid pc lock)"

subsection \<open>The processes together\<close>

record msys =
  sh_lock :: int
  pcs :: "int \<Rightarrow> mtx_pc"

datatype mevent = Move int | Die int

definition move_to :: "msys \<Rightarrow> int \<Rightarrow> mtx_pc \<Rightarrow> msys" where
  "move_to s p pc = s\<lparr>pcs := (pcs s)(p := pc)\<rparr>"

inductive mtx_trans :: "int \<Rightarrow> msys \<Rightarrow> mevent \<Rightarrow> msys \<Rightarrow> bool" for spin where
  call_lock: "0 < p \<Longrightarrow> pcs s p = Rest \<Longrightarrow> mtx_trans spin s (Move p) (move_to s p LLoad)"
| call_trylock: "0 < p \<Longrightarrow> pcs s p = Rest \<Longrightarrow> mtx_trans spin s (Move p) (move_to s p TLoad)"
| call_unlock: "0 < p \<Longrightarrow> pcs s p = Rest \<or> pcs s p = Held \<Longrightarrow> mtx_trans spin s (Move p) (move_to s p Unlock)"
| call_force: "0 < p \<Longrightarrow> pcs s p = Rest \<Longrightarrow> pcs s q = Dead \<Longrightarrow> mtx_trans spin s (Move p) (move_to s p (Force q))"
| exec: "0 < p \<Longrightarrow> pcs s p \<notin> {Rest, Held, Dead} \<Longrightarrow> mtx_step spin p (pcs s p) (sh_lock s) = (pc, l)
     \<Longrightarrow> mtx_trans spin s (Move p) (move_to s p pc\<lparr>sh_lock := l\<rparr>)"
| die: "mtx_trans spin s (Die p) (move_to s p Dead)"

inductive mtx_run :: "int \<Rightarrow> msys \<Rightarrow> mevent list \<Rightarrow> msys \<Rightarrow> bool" for spin where
  mtx_stop: "mtx_run spin s [] s"
| mtx_next: "mtx_trans spin s e t \<Longrightarrow> mtx_run spin t es u \<Longrightarrow> mtx_run spin s (e # es) u"

inductive_cases mtx_run_NilE: "mtx_run spin s [] u"

inductive_cases mtx_run_ConsE: "mtx_run spin s (e # es) u"

definition mtx_start :: msys where
  "mtx_start = \<lparr>sh_lock = 0, pcs = \<lambda>_. Rest\<rparr>"

lemmas step_defs = mtx_step_def unlock_step_def hcore_atomic_cmp_set_def move_to_def

subsection \<open>One owner at a time\<close>

text \<open>The word is the id of every process that has the lock, and it is that of no process that does
  not have it, is not giving it back and is not dead.\<close>

definition mtx_inv :: "msys \<Rightarrow> bool" where
  "mtx_inv s \<longleftrightarrow> (\<forall>p. pcs s p = Held \<longrightarrow> sh_lock s = p \<and> 0 < p)
     \<and> (sh_lock s \<noteq> 0 \<longrightarrow> pcs s (sh_lock s) \<in> {Held, Unlock, Dead})
     \<and> (\<forall>p q. pcs s p = Force q \<longrightarrow> pcs s q = Dead)"

lemma mtx_inv_move:
  assumes inv: "mtx_inv s" and pc: "pc \<noteq> Held" and own: "sh_lock s = p \<Longrightarrow> p \<noteq> 0 \<Longrightarrow> pc \<in> {Unlock, Dead}"
    and dead: "pcs s p = Dead \<Longrightarrow> pc = Dead" and force: "\<And>q. pc = Force q \<Longrightarrow> q \<noteq> p \<and> pcs s q = Dead"
  shows "mtx_inv (move_to s p pc)"
  unfolding mtx_inv_def
proof (intro conjI allI impI)
  fix x y
  show "sh_lock (move_to s p pc) = x" "0 < x" if "pcs (move_to s p pc) x = Held"
    using inv pc that by (auto simp: mtx_inv_def move_to_def split: if_splits)
  show "pcs (move_to s p pc) (sh_lock (move_to s p pc)) \<in> {Held, Unlock, Dead}" if "sh_lock (move_to s p pc) \<noteq> 0"
    using inv own that by (cases "sh_lock s = p") (simp_all add: mtx_inv_def move_to_def)
  show "pcs (move_to s p pc) y = Dead" if "pcs (move_to s p pc) x = Force y"
    using inv dead force [of y] that by (auto simp: mtx_inv_def move_to_def split: if_splits)
qed

text \<open>What one step does: nothing to the word, or it takes a free lock, or it clears the word of an owner.\<close>

lemma mtx_step_cases:
  assumes "mtx_step spin p pc l = (pc', l')" and "pc \<notin> {Rest, Held, Dead}"
  obtains (stay) "l' = l" "pc' \<notin> {Held, Unlock, Dead}" "\<And>q. pc' \<noteq> Force q" "pc = Unlock \<longrightarrow> l \<noteq> p"
  | (take) "l = 0" "l' = p" "pc' = Held"
  | (drop_lock) "l' = 0" "pc' = Rest" "pc = Unlock" "l = p"
  | (drop_force) q where "l' = 0" "pc' = Rest" "pc = Force q" "l = q"
proof (cases pc)
  case Unlock
  then show thesis using assms that(1,3) by (cases "l = p") (auto simp: step_defs)
next
  case (Force q)
  then show thesis using assms that(1) that(4) [of q] by (cases "l = q") (auto simp: step_defs)
qed (use assms in \<open>auto simp: step_defs split: if_splits intro: that(1,2)\<close>)

lemma mtx_trans_inv:
  assumes "mtx_trans spin s e t" and "mtx_inv s"
  shows "mtx_inv t"
  using assms
proof (induction rule: mtx_trans.induct)
  case (exec p s pc l)
  note inv = exec(4)
  have own: "pcs s p \<in> {Held, Unlock, Dead}" if "sh_lock s = p"
    using inv exec(1) that by (simp add: mtx_inv_def)
  show ?case using exec(3,2)
  proof (cases rule: mtx_step_cases)
    case stay
    then have "mtx_inv (move_to s p pc)" using own exec(1,2) by (intro mtx_inv_move [OF inv]) auto
    then show ?thesis using stay by (simp add: move_to_def)
  next
    case take
    have "pcs s x \<noteq> Held" for x using inv take(1) by (auto simp: mtx_inv_def)
    moreover have "pcs s y = Dead" "y \<noteq> p" if "pcs s x = Force y" for x y
      using inv exec(2) that by (auto simp: mtx_inv_def)
    ultimately show ?thesis using take exec(1) by (auto simp: mtx_inv_def move_to_def)
  next
    case drop_lock
    then have "pcs s x \<noteq> Held" "pcs s x \<noteq> Force p" for x using inv by (auto simp: mtx_inv_def)
    then show ?thesis using inv drop_lock by (auto simp: mtx_inv_def move_to_def)
  next
    case (drop_force q)
    then have dead: "pcs s q = Dead" using inv unfolding mtx_inv_def by blast
    have "pcs s x \<noteq> Held" for x
    proof
      assume "pcs s x = Held"
      then have "sh_lock s = x" using inv unfolding mtx_inv_def by blast
      then show False using dead drop_force(4) \<open>pcs s x = Held\<close> by simp
    qed
    moreover have "pcs s y = Dead" "y \<noteq> p" if "pcs s x = Force y" for x y
      using inv exec(2) that unfolding mtx_inv_def by blast+
    ultimately show ?thesis using drop_force(1,2) by (simp add: mtx_inv_def move_to_def)
  qed
next
  case (call_unlock p s)
  then show ?case by (intro mtx_inv_move) auto
next
  case (call_force p s q)
  then show ?case by (intro mtx_inv_move) (auto simp: mtx_inv_def)
next
  case (die s p)
  then show ?case by (intro mtx_inv_move) auto
qed (intro mtx_inv_move; auto simp: mtx_inv_def)+

lemma mtx_run_inv: "mtx_run spin s es t \<Longrightarrow> mtx_inv s \<Longrightarrow> mtx_inv t"
  by (induction rule: mtx_run.induct) (auto dest: mtx_trans_inv)

lemma mtx_start_inv: "mtx_inv mtx_start"
  by (simp add: mtx_inv_def mtx_start_def)

text \<open>C5: mutual exclusion. In every state the processes reach, however their steps interleave, whichever of
  them die, and also when the locks of dead ones are taken away by hcore_shmtx_force_unlock, at most
  one process has the lock, and the word in shared memory is its id.\<close>

theorem shmtx_mutual_exclusion:
  assumes "mtx_run spin mtx_start es s" and "pcs s p = Held" and "pcs s q = Held"
  shows "p = q \<and> sh_lock s = p"
  using mtx_run_inv [OF assms(1) mtx_start_inv] assms(2,3) by (auto simp: mtx_inv_def)

lemma mtx_exec:
  assumes "0 < p" "pcs s p \<notin> {Rest, Held, Dead}" "mtx_step spin p (pcs s p) (sh_lock s) = (pc, l)"
    and "mtx_run spin (move_to s p pc\<lparr>sh_lock := l\<rparr>) es u"
  shows "mtx_run spin s (Move p # es) u"
  using mtx_next [OF exec [OF assms(1-3)] assms(4)] .

lemma sample_acquire:
  "mtx_run 2 \<lparr>sh_lock = 0, pcs = (\<lambda>_. Rest)(1 := LLoad)\<rparr> [Move 1, Move 1] \<lparr>sh_lock = 1, pcs = (\<lambda>_. Rest)(1 := Held)\<rparr>"
  by (rule mtx_exec [where pc = LCas and l = 0], simp, simp, simp add: step_defs, simp add: move_to_def,
      rule mtx_exec [where pc = Held and l = 1], simp, simp, simp add: step_defs, simp add: move_to_def, rule mtx_stop)

theorem shmtx_mutual_exclusion_witness:
  "sh_lock \<lparr>sh_lock = 1, pcs = (\<lambda>_. Rest)(1 := Held)\<rparr> = 1"
proof -
  have "mtx_run 2 mtx_start (Move 1 # [Move 1, Move 1]) \<lparr>sh_lock = 1, pcs = (\<lambda>_. Rest)(1 := Held)\<rparr>"
    using mtx_next [OF call_lock [of 1 mtx_start 2]] sample_acquire by (simp add: mtx_start_def move_to_def)
  then show ?thesis using shmtx_mutual_exclusion [of 2 _ _ 1 1] by simp
qed

subsection \<open>A free lock is taken\<close>

text \<open>The steps a process inside hcore_shmtx_lock needs from its place while the lock is free.\<close>

fun lock_distance :: "int \<Rightarrow> mtx_pc \<Rightarrow> int" where
  "lock_distance spin LCas = 1"
| "lock_distance spin (LCas2 n) = 1"
| "lock_distance spin LLoad = 2"
| "lock_distance spin (LLoad2 n) = 2"
| "lock_distance spin LYield = 3"
| "lock_distance spin (LPause n i) = n - i + 3"
| "lock_distance spin (LFor n) = (if n < spin then n + 4 else 4)"
| "lock_distance spin pc = 0"

fun in_lock :: "int \<Rightarrow> mtx_pc \<Rightarrow> bool" where
  "in_lock spin LCas = True"
| "in_lock spin (LCas2 n) = True"
| "in_lock spin LLoad = True"
| "in_lock spin (LLoad2 n) = True"
| "in_lock spin LYield = True"
| "in_lock spin (LPause n i) = (0 \<le> i \<and> i \<le> n \<and> n < spin)"
| "in_lock spin (LFor n) = (0 \<le> n)"
| "in_lock spin pc = False"

lemma lock_distance_bound: "in_lock spin pc \<Longrightarrow> 0 \<le> spin \<Longrightarrow> 0 < lock_distance spin pc \<and> lock_distance spin pc \<le> spin + 4"
  by (cases pc) auto

text \<open>A step of the process itself brings it nearer or gives it the lock.\<close>

lemma lock_step_nearer:
  assumes "in_lock spin pc" and "spin \<le> 4294967295" and "0 < p"
    and "mtx_step spin p pc 0 = (pc', l)"
  shows "l \<noteq> 0 \<or> (l = 0 \<and> in_lock spin pc' \<and> lock_distance spin pc' < lock_distance spin pc)"
  using assms by (cases pc) (auto simp: step_defs u32_id split: if_splits)

lemma free_lock_step:
  assumes "mtx_trans spin s e t" and "in_lock spin (pcs s p)" and "sh_lock s = 0" and "e \<noteq> Die p" and "0 < p"
    and "spin \<le> 4294967295"
  shows "sh_lock t \<noteq> 0 \<or> (sh_lock t = 0 \<and> in_lock spin (pcs t p)
     \<and> (if e = Move p then lock_distance spin (pcs t p) < lock_distance spin (pcs s p) else pcs t p = pcs s p))"
  using assms
proof (induction rule: mtx_trans.induct)
  case (exec q s pc l)
  then show ?case
    using lock_step_nearer [of spin "pcs s q" q pc l] by (auto simp: move_to_def)
qed (auto simp: move_to_def)

text \<open>C13: progress. Once a process is inside hcore_shmtx_lock, alive, and the lock is free, some process
  takes the lock before that process has made \<open>spin + 4\<close> steps, whatever the others do meanwhile:
  neither spinning, nor yielding, nor the overflow of the doubled spin count keeps it away.\<close>

theorem shmtx_free_lock_taken:
  assumes "mtx_run spin s es t" and "in_lock spin (pcs s p)" and "sh_lock s = 0" and "Die p \<notin> set es" and "0 < p"
    and "0 \<le> spin" and "spin \<le> 4294967295" and "spin + 4 \<le> int (count_list es (Move p))"
  shows "\<exists>es1 es2 u. es = es1 @ es2 \<and> mtx_run spin s es1 u \<and> mtx_run spin u es2 t \<and> sh_lock u \<noteq> 0"
proof -
  have "lock_distance spin (pcs s p) \<le> int (count_list es (Move p))" using lock_distance_bound [OF assms(2,6)] assms(8) by simp
  with assms(1-4) show ?thesis
  proof (induction rule: mtx_run.induct)
    case (mtx_stop s)
    then show ?case using lock_distance_bound [OF mtx_stop(1) assms(6)] by simp
  next
    case (mtx_next s e t es u)
    note step = free_lock_step [OF mtx_next(1,4,5) _ assms(5,7)]
    show ?case
    proof (cases "sh_lock t = 0")
      case True
      then have "in_lock spin (pcs t p)" "lock_distance spin (pcs t p) \<le> int (count_list es (Move p))"
        using step mtx_next(6,7) by (auto split: if_splits)
      then obtain es1 es2 v where "es = es1 @ es2" "mtx_run spin t es1 v" "mtx_run spin v es2 u" "sh_lock v \<noteq> 0"
        using mtx_next(3) mtx_next(6) True by auto
      then show ?thesis using mtx_run.mtx_next [OF mtx_next(1), of es1 v]
        by (intro exI [of _ "e # es1"] exI [of _ es2] exI [of _ v]) simp
    next
      case False
      then show ?thesis using mtx_next(1,2) mtx_run.mtx_next [OF mtx_next(1) mtx_run.mtx_stop]
        by (intro exI [of _ "[e]"] exI [of _ es] exI [of _ t]) simp
    qed
  qed
qed

lemma sample_release:
  "mtx_run 2 \<lparr>sh_lock = 1, pcs = (\<lambda>_. Rest)(1 := Held)\<rparr> [Move 1, Move 1] \<lparr>sh_lock = 0, pcs = \<lambda>_. Rest\<rparr>"
proof -
  have "(\<lambda>_. Rest)(1 := Held, 1 := Unlock, 1 := Rest) = (\<lambda>_::int. Rest)" by auto
  then show ?thesis
    by (intro mtx_next [OF call_unlock] mtx_exec [where pc = Rest and l = 0])
      (simp_all add: step_defs mtx_stop)
qed

lemma mtx_run_append: "mtx_run spin s es t \<Longrightarrow> mtx_run spin t fs u \<Longrightarrow> mtx_run spin s (es @ fs) u"
  by (induction rule: mtx_run.induct) (auto intro: mtx_next)

theorem shmtx_free_lock_taken_witness:
  "\<exists>es1 es2 u. replicate 6 (Move 1) = es1 @ es2 \<and> mtx_run 2 \<lparr>sh_lock = 0, pcs = (\<lambda>_. Rest)(1 := LLoad)\<rparr> es1 u
     \<and> mtx_run 2 u es2 \<lparr>sh_lock = 0, pcs = (\<lambda>_. Rest)(1 := LCas)\<rparr> \<and> sh_lock u \<noteq> 0"
proof (rule shmtx_free_lock_taken [where p = 1])
  have "mtx_run 2 \<lparr>sh_lock = 0, pcs = \<lambda>_. Rest\<rparr> [Move 1, Move 1] \<lparr>sh_lock = 0, pcs = (\<lambda>_. Rest)(1 := LCas)\<rparr>"
    by (rule mtx_next [OF call_lock], simp, simp, rule mtx_exec [where pc = LCas and l = 0])
      (simp_all add: step_defs mtx_stop)
  then have "mtx_run 2 \<lparr>sh_lock = 0, pcs = (\<lambda>_. Rest)(1 := LLoad)\<rparr> ([Move 1, Move 1] @ [Move 1, Move 1] @ [Move 1, Move 1])
      \<lparr>sh_lock = 0, pcs = (\<lambda>_. Rest)(1 := LCas)\<rparr>"
    by (intro mtx_run_append [OF sample_acquire] mtx_run_append [OF sample_release])
  then show "mtx_run 2 \<lparr>sh_lock = 0, pcs = (\<lambda>_. Rest)(1 := LLoad)\<rparr> (replicate 6 (Move 1)) \<lparr>sh_lock = 0, pcs = (\<lambda>_. Rest)(1 := LCas)\<rparr>"
    by (simp add: numeral_eq_Suc)
qed (simp_all add: numeral_eq_Suc)

text \<open>The rounds of a process that spins with the value hcore_shmtx_init leaves alone, all ones, never
  come to sched_yield: the count of pauses is doubled until it is 0 and stays there.\<close>

lemma spin_all_ones_never_yields:
  assumes "n mod 2 = 0 \<or> n = 1" and "0 \<le> n" "n < 4294967296"
  shows "lock_step 4294967295 p (LFor n) l = (LPause n 0, l)"
    and "u32 (n * 2) mod 2 = 0 \<and> 0 \<le> u32 (n * 2) \<and> u32 (n * 2) < 4294967296"
proof -
  have "n \<noteq> 4294967295" using assms(1) by auto
  then show "lock_step 4294967295 p (LFor n) l = (LPause n 0, l)" using assms(3) by simp
  have "2 dvd u32 (n * 2)" by (simp add: u32_def dvd_mod_iff)
  then show "u32 (n * 2) mod 2 = 0 \<and> 0 \<le> u32 (n * 2) \<and> u32 (n * 2) < 4294967296"
    using u32_range [of "n * 2"] by auto
qed

end
