(* ===== verification/HSlab.thy ===== *)
theory HSlab
  imports HShmtx HBase HSys
begin

section \<open>The slab allocator in shared memory (src/hcore_shpool.c)\<close>

text \<open>
  The shared block holds the pool's header, one list head per slot, the descriptors of the pages, and the
  pages. Descriptors (hcore_slab_page_t) are the fields \<open>slab\<close>, \<open>prev\<close> and \<open>next\<close> by their address; the
  list heads and the header's \<open>free\<close> are descriptors too. Bitmaps inside pages are 64-bit words by their
  address. A result is \<open>None\<close> for a search that does not end and \<open>Fault\<close> for a value the code never
  computed. Everything goes by the addresses the code computes: also where they are not
  those of the page meant. A shift of 64 bits or more is what x86_64 does, by the count modulo 64.
\<close>

subsection \<open>Descriptors and the pool\<close>

record slab =
  sl_base :: int
  sl_min_shift :: int
  sl_min_size :: int
  sl_pages :: int
  sl_last :: int
  sl_pfree :: int
  sl_start :: int
  sl_end :: int
  pg_slab :: "int \<Rightarrow> int"
  pg_prev :: "int \<Rightarrow> int"
  pg_next :: "int \<Rightarrow> int"
  wd :: "int \<Rightarrow> int"

record slab_sizes =
  z_page :: int
  z_page_shift :: int
  z_max :: int
  z_exact :: int
  z_exact_shift :: int

definition slab_sizes_of :: "int \<Rightarrow> gvars \<Rightarrow> slab_sizes" where
  "slab_sizes_of sys g =
     (let (pagesize, g) = hcore_getpagesize sys g;
          (pagesize_shift, g) = hcore_getpagesize_shift sys g;
          (exact_size, g) = hcore_get_slab_exact_size sys g;
          (exact_shift, g) = hcore_get_slab_exact_shift sys g;
          (max_size, g) = hcore_get_slab_max_size sys g
      in \<lparr>z_page = pagesize, z_page_shift = pagesize_shift, z_max = max_size, z_exact = exact_size, z_exact_shift = exact_shift\<rparr>)"

abbreviation (input) HCORE_SLAB_PAGE_FREE :: int where "HCORE_SLAB_PAGE_FREE \<equiv> 0"

abbreviation (input) HCORE_SLAB_PAGE_BUSY :: int where "HCORE_SLAB_PAGE_BUSY \<equiv> 18446744073709551615"

abbreviation (input) HCORE_SLAB_PAGE_START :: int where "HCORE_SLAB_PAGE_START \<equiv> 9223372036854775808"

abbreviation (input) HCORE_SLAB_SHIFT_MASK :: int where "HCORE_SLAB_SHIFT_MASK \<equiv> 15"

abbreviation (input) HCORE_SLAB_MAP_SHIFT :: nat where "HCORE_SLAB_MAP_SHIFT \<equiv> 32"

abbreviation (input) HCORE_SLAB_MAP_MASK :: int where "HCORE_SLAB_MAP_MASK \<equiv> 18446744069414584320"

abbreviation (input) HCORE_SLAB_BUSY :: int where "HCORE_SLAB_BUSY \<equiv> 18446744073709551615"

abbreviation (input) HCORE_SLAB_PAGE :: int where "HCORE_SLAB_PAGE \<equiv> 0"

abbreviation (input) HCORE_SLAB_BIG :: int where "HCORE_SLAB_BIG \<equiv> 1"

abbreviation (input) HCORE_SLAB_EXACT :: int where "HCORE_SLAB_EXACT \<equiv> 2"

abbreviation (input) HCORE_SLAB_SMALL :: int where "HCORE_SLAB_SMALL \<equiv> 3"

definition set_slab :: "int \<Rightarrow> int \<Rightarrow> slab \<Rightarrow> slab" where
  "set_slab a v s = s\<lparr>pg_slab := (pg_slab s)(a := v)\<rparr>"

definition set_prev :: "int \<Rightarrow> int \<Rightarrow> slab \<Rightarrow> slab" where
  "set_prev a v s = s\<lparr>pg_prev := (pg_prev s)(a := v)\<rparr>"

definition set_next :: "int \<Rightarrow> int \<Rightarrow> slab \<Rightarrow> slab" where
  "set_next a v s = s\<lparr>pg_next := (pg_next s)(a := v)\<rparr>"

definition set_wd :: "int \<Rightarrow> int \<Rightarrow> slab \<Rightarrow> slab" where
  "set_wd a v s = s\<lparr>wd := (wd s)(a := v)\<rparr>"

text \<open>Addresses: of the header's \<open>free\<close>, of the slots, and of a descriptor in an array of them.\<close>

definition slab_free_head :: "slab \<Rightarrow> int" where
  "slab_free_head s = sl_base s + 40"

definition hcore_slab_get_slots :: "slab \<Rightarrow> int" where
  "hcore_slab_get_slots s = sl_base s + 96"

definition desc :: "int \<Rightarrow> int \<Rightarrow> int" where
  "desc p i = p + 24 * i"

definition hcore_slab_get_page_type :: "int \<Rightarrow> slab \<Rightarrow> int" where
  "hcore_slab_get_page_type page s = pg_prev s page AND 3"

definition hcore_slab_get_page_addr :: "slab \<Rightarrow> int \<Rightarrow> int \<Rightarrow> int" where
  "hcore_slab_get_page_addr s page shift = push_bit (nat shift) ((page - sl_pages s) div 24) + sl_start s"

definition hcore_slab_get_page_prev :: "int \<Rightarrow> slab \<Rightarrow> int" where
  "hcore_slab_get_page_prev page s = pg_prev s page AND NOT 3"

definition hcore_slab_set_page_prev :: "int \<Rightarrow> int \<Rightarrow> int \<Rightarrow> slab \<Rightarrow> slab" where
  "hcore_slab_set_page_prev page prev type s = set_prev page (prev OR type) s"

definition hcore_slab_remove_full_page :: "int \<Rightarrow> int \<Rightarrow> slab \<Rightarrow> slab" where
  "hcore_slab_remove_full_page page type s =
     (let s = set_next (hcore_slab_get_page_prev page s) (pg_next s page) s;
          s = set_prev (pg_next s page) (pg_prev s page) s;
          s = set_next page 0 s
      in hcore_slab_set_page_prev page 0 type s)"

subsection \<open>Initialisation\<close>

definition slab_init_slot :: "int \<Rightarrow> slab \<Rightarrow> slab" where
  "slab_init_slot a s = set_prev a 0 (set_next a a (set_slab a 0 s))"

definition slab_zero_desc :: "int \<Rightarrow> slab \<Rightarrow> slab" where
  "slab_zero_desc a s = set_next a 0 (set_prev a 0 (set_slab a 0 s))"

text \<open>New memory of \<open>sz\<close> bytes at \<open>addr\<close>: zeros, and the fields that hcore_create_shpool sets.\<close>

definition slab_at :: "int \<Rightarrow> int \<Rightarrow> slab" where
  "slab_at addr sz =
     \<lparr>sl_base = addr, sl_min_shift = 3, sl_min_size = 0, sl_pages = 0, sl_last = 0, sl_pfree = 0, sl_start = 0,
      sl_end = addr + sz, pg_slab = \<lambda>_. 0, pg_prev = \<lambda>_. 0, pg_next = \<lambda>_. 0, wd = \<lambda>_. 0\<rparr>"

definition hcore_slab_init :: "slab_sizes \<Rightarrow> slab \<Rightarrow> slab" where
  "hcore_slab_init z pool =
     (let pagesize = z_page z;
          s = pool\<lparr>sl_min_size := push_bit (nat (sl_min_shift pool)) 1\<rparr>;
          slots = hcore_slab_get_slots s;
          n = u32 (z_page_shift z - sl_min_shift s);
          s = fold (\<lambda>i. slab_init_slot (desc slots i)) [0..n - 1] s;
          p = slots + n * 24;
          sz = u64 (sl_end s - p);
          page_n = u32 (sz div (pagesize + 24));
          s = s\<lparr>sl_pages := p\<rparr>;
          s = fold (\<lambda>i. slab_zero_desc (desc p i)) [0..page_n - 1] s;
          page = sl_pages s;
          free = slab_free_head s;
          s = set_prev free 0 (set_next free page (set_slab free 0 s));
          s = set_prev page free (set_next page free (set_slab page page_n s));
          s = s\<lparr>sl_start := hcore_align_ptr (p + page_n * 24) pagesize\<rparr>;
          m = i32 (page_n - cdiv (sl_end s - sl_start s) pagesize);
          (page_n, s) = (if 0 < m then (u32 (page_n - m), set_slab page (u32 (page_n - m)) s) else (page_n, s));
          s = s\<lparr>sl_last := desc (sl_pages s) page_n\<rparr>
      in s\<lparr>sl_pfree := page_n\<rparr>)"

subsection \<open>Runs of pages\<close>

partial_function (option) slab_find_run :: "slab \<Rightarrow> int \<Rightarrow> int \<Rightarrow> int option option" where
  "slab_find_run s n page =
     (if page = slab_free_head s then Some None
      else if n \<le> pg_slab s page then Some (Some page)
      else slab_find_run s n (pg_next s page))"

text \<open>The run is split, or leaves the list.\<close>

definition slab_cut_run :: "int \<Rightarrow> int \<Rightarrow> slab \<Rightarrow> slab" where
  "slab_cut_run page n s =
     (if n < pg_slab s page then
        let s = set_prev (desc page (pg_slab s page - 1)) (desc page n) s;
            s = set_slab (desc page n) (pg_slab s page - n) s;
            s = set_next (desc page n) (pg_next s page) s;
            s = set_prev (desc page n) (pg_prev s page) s;
            s = set_next (pg_prev s page) (desc page n) s
        in set_prev (pg_next s page) (desc page n) s
      else
        let s = set_next (pg_prev s page) (pg_next s page) s
        in set_prev (pg_next s page) (pg_prev s page) s)"

text \<open>A page after the first: the code writes \<open>prev\<close> of the first page again, not that of this one.\<close>

definition slab_busy_page :: "int \<Rightarrow> int \<Rightarrow> slab \<Rightarrow> slab" where
  "slab_busy_page page p s =
     hcore_slab_set_page_prev page 0 HCORE_SLAB_PAGE (set_next p 0 (set_slab p HCORE_SLAB_PAGE_BUSY s))"

definition hcore_slab_alloc_pages :: "int \<Rightarrow> slab \<Rightarrow> (int \<times> slab) option" where
  "hcore_slab_alloc_pages n s =
     (case slab_find_run s n (pg_next s (slab_free_head s)) of
        None \<Rightarrow> None
      | Some None \<Rightarrow> Some (0, s)
      | Some (Some page) \<Rightarrow>
          (let s = slab_cut_run page n s;
               s = set_slab page (n OR HCORE_SLAB_PAGE_START) s;
               s = set_next page 0 s;
               s = hcore_slab_set_page_prev page 0 HCORE_SLAB_PAGE s;
               s = s\<lparr>sl_pfree := u32 (sl_pfree s - n)\<rparr>;
               s = fold (\<lambda>i. slab_busy_page page (desc page i)) [1..n - 1] s
           in Some (page, s)))"

text \<open>Joining with the run behind and the run in front, as written.\<close>

definition slab_unlink :: "int \<Rightarrow> slab \<Rightarrow> slab" where
  "slab_unlink page s =
     (let s = set_next (hcore_slab_get_page_prev page s) (pg_next s page) s
      in set_prev (pg_next s page) (pg_prev s page) s)"

definition slab_join_next :: "int \<Rightarrow> int \<times> slab \<Rightarrow> int \<times> slab" where
  "slab_join_next page = (\<lambda>(page_n, s).
     let join = desc page (pg_slab s page) in
     if join < sl_last s \<and> hcore_slab_get_page_type join s = HCORE_SLAB_PAGE \<and> pg_next s join \<noteq> 0 then
       let page_n = i32 (page_n + pg_slab s join);
           s = set_slab page (u64 (pg_slab s page + pg_slab s join)) s;
           s = slab_unlink join s;
           s = hcore_slab_remove_full_page join HCORE_SLAB_PAGE s
       in (page_n, set_slab page HCORE_SLAB_PAGE_FREE s)
     else (page_n, s))"

definition slab_join_prev :: "int \<times> int \<times> slab \<Rightarrow> int \<times> int \<times> slab" where
  "slab_join_prev = (\<lambda>(page, page_n, s).
     if sl_pages s < page \<and> hcore_slab_get_page_type (desc page (-1)) s = HCORE_SLAB_PAGE then
       let join = desc page (-1);
           join = (if pg_slab s join = HCORE_SLAB_PAGE_FREE then hcore_slab_get_page_prev join s else join)
       in if pg_next s join \<noteq> 0 then
            let page_n = i32 (page_n + pg_slab s join);
                s = set_slab join (u64 (pg_slab s join + pg_slab s page)) s;
                s = hcore_slab_remove_full_page join HCORE_SLAB_PAGE s;
                s = set_slab join HCORE_SLAB_PAGE_FREE s
            in (join, page_n, s)
          else (page, page_n, s)
     else (page, page_n, s))"

definition hcore_slab_free_pages :: "int \<Rightarrow> int \<Rightarrow> slab \<Rightarrow> slab" where
  "hcore_slab_free_pages page page_n s =
     (let s = s\<lparr>sl_pfree := u32 (sl_pfree s + page_n)\<rparr>;
          s = set_slab page page_n s;
          page_n = page_n - 1;
          s = fold (\<lambda>i. slab_zero_desc (desc page i)) [1..page_n] s;
          s = (if pg_next s page \<noteq> 0 then slab_unlink page s else s);
          (page_n, s) = slab_join_next page (page_n, s);
          (page, page_n, s) = slab_join_prev (page, page_n, s);
          s = (if page_n \<noteq> 0 then set_prev (desc page page_n) page s else s);
          free = slab_free_head s;
          s = set_prev page free s;
          s = set_next page (pg_next s free) s;
          s = set_prev (pg_next s page) page s
      in set_next free page s)"

subsection \<open>Allocation\<close>

text \<open>The class of a size: its shift, and its slot.\<close>

definition slab_class :: "slab \<Rightarrow> int \<Rightarrow> int \<times> int" where
  "slab_class s sz =
     (if sl_min_size s < sz then
        let shift = shift_loop (nat (sz - 1)) 1 in (shift, u32 (shift - sl_min_shift s))
      else (sl_min_shift s, 0))"

definition first_clear :: "int \<Rightarrow> nat list \<Rightarrow> nat option" where
  "first_clear w bs = find (\<lambda>b. \<not> bit w b) bs"

text \<open>A page of chunks smaller than the exact size: its bitmap is in its first chunks.\<close>

definition slab_small :: "slab_sizes \<Rightarrow> int \<Rightarrow> int \<Rightarrow> slab \<Rightarrow> (int \<times> slab) option" where
  "slab_small z shift page s =
     (let bitmap = hcore_slab_get_page_addr s page (z_page_shift z);
          map_n = drop_bit (nat shift) (z_page z) div 64
      in case find (\<lambda>i. wd s (bitmap + 8 * i) \<noteq> HCORE_SLAB_BUSY) [0..map_n - 1] of
           None \<Rightarrow> None
         | Some i \<Rightarrow>
             (case first_clear (wd s (bitmap + 8 * i)) [0..<64] of
                None \<Rightarrow> None
              | Some bit_n \<Rightarrow>
                  (let s = set_wd (bitmap + 8 * i) (wd s (bitmap + 8 * i) OR push_bit bit_n 1) s;
                       p = bitmap + u32 (push_bit (nat shift) (i * 64 + i));
                       s = (if wd s (bitmap + 8 * i) = HCORE_SLAB_BUSY
                              \<and> find (\<lambda>i. wd s (bitmap + 8 * i) \<noteq> HCORE_SLAB_BUSY) [i + 1..map_n - 1] = None
                            then hcore_slab_remove_full_page page HCORE_SLAB_SMALL s else s)
                   in Some (p, s))))"

text \<open>The search in a page of exact chunks: the value of \<open>m << 1\<close> is not assigned, so \<open>m\<close> stays 1.\<close>

partial_function (option) slab_exact_scan :: "int \<Rightarrow> int \<Rightarrow> int \<Rightarrow> int option" where
  "slab_exact_scan w m bit_n = (if w AND m \<noteq> 0 then slab_exact_scan w m (bit_n + 1) else Some m)"

definition slab_exact :: "int \<Rightarrow> slab \<Rightarrow> slab option" where
  "slab_exact page s = (case slab_exact_scan (pg_slab s page) 1 0 of
      None \<Rightarrow> None
    | Some m \<Rightarrow>
        (let s = set_slab page (pg_slab s page OR m) s
         in Some (if pg_slab s page = HCORE_SLAB_BUSY then hcore_slab_remove_full_page page HCORE_SLAB_EXACT s else s)))"

text \<open>A page of larger chunks, the bitmap in the upper half of \<open>slab\<close>. \<open>slab & MASK == mask\<close> is
  \<open>slab & (MASK == mask)\<close>.\<close>

definition slab_big :: "slab_sizes \<Rightarrow> int \<Rightarrow> int \<Rightarrow> slab \<Rightarrow> (int \<times> slab) option" where
  "slab_big z shift page s =
     (let m = u64 (push_bit 32 (push_bit (nat (drop_bit (nat shift) (z_page z) mod 64)) 1 - 1))
      in case first_clear (pg_slab s page) (takeWhile (bit m) [32..<64]) of
           None \<Rightarrow> None
         | Some b \<Rightarrow>
             (let s = set_slab page (pg_slab s page OR push_bit b 1) s;
                  s = (if pg_slab s page AND (if HCORE_SLAB_MAP_MASK = m then 1 else 0) \<noteq> 0
                       then hcore_slab_remove_full_page page HCORE_SLAB_BIG s else s)
              in Some (hcore_slab_get_page_addr s page (z_page_shift z), s)))"

text \<open>A new page for the slot.\<close>

definition slab_link_slot :: "int \<Rightarrow> int \<Rightarrow> int \<Rightarrow> slab \<Rightarrow> slab" where
  "slab_link_slot page slot type s =
     (let s = set_next page slot s;
          s = hcore_slab_set_page_prev page slot type s
      in set_next slot page s)"

definition slab_new_page :: "slab_sizes \<Rightarrow> int \<Rightarrow> int \<Rightarrow> int \<Rightarrow> slab \<Rightarrow> int \<times> slab" where
  "slab_new_page z shift slot page s =
     (let addr = hcore_slab_get_page_addr s page (z_page_shift z) in
      if shift < z_exact_shift z then
        let n = drop_bit (nat shift) (z_page z) div (push_bit (nat shift) 1 * 8);
            n = u32 (if n = 0 then 1 else n);
            i = (n + 1) div 64;
            s = fold (\<lambda>i. set_wd (addr + 8 * i) HCORE_SLAB_BUSY) [0..i - 1] s;
            s = set_wd (addr + 8 * i) (push_bit (nat ((n + 1) mod 64)) 1 - 1) s;
            map_n = drop_bit (nat shift) (z_page z) div 64;
            s = fold (\<lambda>i. set_wd (addr + 8 * i) 0) [i + 1..map_n - 1] s;
            s = set_slab page shift s;
            s = slab_link_slot page slot HCORE_SLAB_SMALL s
        in (addr + push_bit (nat shift) n, s)
      else if shift = z_exact_shift z then
        (addr, slab_link_slot page slot HCORE_SLAB_EXACT (set_slab page 1 s))
      else
        (addr, slab_link_slot page slot HCORE_SLAB_BIG (set_slab page (push_bit 32 1 OR shift) s)))"

definition slab_from_new_page :: "slab_sizes \<Rightarrow> int \<Rightarrow> int \<Rightarrow> slab \<Rightarrow> (int run \<times> slab) option" where
  "slab_from_new_page z shift slot s = (case hcore_slab_alloc_pages 1 s of
      None \<Rightarrow> None
    | Some (page, s) \<Rightarrow>
        if page = 0 then Some (Ret 0, s)
        else (case slab_new_page z shift slot page s of (p, s) \<Rightarrow> Some (Ret p, s)))"

definition hcore_slab_alloc_locked :: "slab_sizes \<Rightarrow> int \<Rightarrow> slab \<Rightarrow> (int run \<times> slab) option" where
  "hcore_slab_alloc_locked z sz s =
     (if z_max z < sz then
        (case hcore_slab_alloc_pages (u32 (drop_bit (nat (z_page_shift z)) sz + (if sz mod z_page z \<noteq> 0 then 1 else 0))) s of
           None \<Rightarrow> None
         | Some (page, s) \<Rightarrow>
             Some (Ret (if page \<noteq> 0 then hcore_slab_get_page_addr s page (z_page_shift z) else 0), s))
      else
        let (shift, slot) = slab_class s sz;
            slot = desc (hcore_slab_get_slots s) slot;
            page = pg_next s slot
        in if pg_next s page = page then slab_from_new_page z shift slot s
           else if shift < z_exact_shift z then
             (case slab_small z shift page s of
                Some (p, s) \<Rightarrow> Some (Ret p, s)
              | None \<Rightarrow> slab_from_new_page z shift slot s)
           else if shift = z_exact_shift z then
             (case slab_exact page s of None \<Rightarrow> None | Some s \<Rightarrow> Some (Fault, s))
           else
             (case slab_big z shift page s of
                Some (p, s) \<Rightarrow> Some (Ret p, s)
              | None \<Rightarrow> slab_from_new_page z shift slot s))"

subsection \<open>Giving back\<close>

text \<open>A page that was full is linked to its slot again.\<close>

definition slab_relink :: "int \<Rightarrow> int \<Rightarrow> int \<Rightarrow> slab \<Rightarrow> slab" where
  "slab_relink page slot type s =
     (let s = set_next page (pg_next s slot) s;
          s = set_next slot page s;
          s = hcore_slab_set_page_prev page slot type s
      in hcore_slab_set_page_prev (pg_next s page) page type s)"

definition slab_slot_of :: "int \<Rightarrow> slab \<Rightarrow> int" where
  "slab_slot_of shift s = desc (hcore_slab_get_slots s) (u32 (shift - sl_min_shift s))"

definition slab_free_small :: "slab_sizes \<Rightarrow> int \<Rightarrow> int \<Rightarrow> slab \<Rightarrow> slab" where
  "slab_free_small z page p s =
     (let shift = nat (pg_slab s page AND HCORE_SLAB_SHIFT_MASK);
          i = u32 (drop_bit shift (p AND (z_page z - 1)));
          m = push_bit (nat (i mod 64)) 1;
          i = i div 64;
          bitmap = p AND NOT (z_page z - 1)
      in if p AND (push_bit shift 1 - 1) \<noteq> 0 \<or> wd s (bitmap + 8 * i) AND m = 0 then s
         else
           let s = (if pg_next s page = 0 then slab_relink page (slab_slot_of (int shift) s) HCORE_SLAB_SMALL s else s);
               s = set_wd (bitmap + 8 * i) (wd s (bitmap + 8 * i) AND NOT m) s;
               n = drop_bit shift (z_page z) div (push_bit shift 1 * 8);
               n = (if n = 0 then 1 else n);
               i = n div 64;
               m = push_bit (nat (n mod 64)) 1 - 1;
               map_n = drop_bit shift (z_page z) div 64
           in if wd s (bitmap + 8 * i) AND NOT m \<noteq> 0 \<or> (\<exists>i \<in> set [i + 1..map_n - 1]. wd s (bitmap + 8 * i) \<noteq> 0) then s
              else hcore_slab_free_pages page 1 s)"

definition slab_free_exact :: "slab_sizes \<Rightarrow> int \<Rightarrow> int \<Rightarrow> slab \<Rightarrow> slab" where
  "slab_free_exact z page p s =
     (let slab = pg_slab s page;
          m = push_bit (nat (drop_bit (nat (z_exact_shift z)) (p AND (z_page z - 1)) mod 64)) 1
      in if p AND (z_exact z - 1) \<noteq> 0 \<or> slab AND m = 0 then s
         else
           let s = (if slab = HCORE_SLAB_BUSY then slab_relink page (slab_slot_of (z_exact_shift z) s) HCORE_SLAB_EXACT s else s);
               s = set_slab page (pg_slab s page AND NOT m) s
           in if pg_slab s page \<noteq> 0 then s else hcore_slab_free_pages page 1 s)"

definition slab_free_big :: "slab_sizes \<Rightarrow> int \<Rightarrow> int \<Rightarrow> slab \<Rightarrow> slab" where
  "slab_free_big z page p s =
     (let slab = pg_slab s page;
          shift = nat (slab AND HCORE_SLAB_SHIFT_MASK);
          m = push_bit (nat ((drop_bit shift (p AND (z_page z - 1)) + int HCORE_SLAB_MAP_SHIFT) mod 64)) 1
      in if p AND (push_bit shift 1 - 1) \<noteq> 0 \<or> slab AND m = 0 then s
         else
           let s = (if pg_next s page = 0 then slab_relink page (slab_slot_of (int shift) s) HCORE_SLAB_BIG s else s);
               s = set_slab page (pg_slab s page AND NOT m) s
           in if pg_slab s page AND HCORE_SLAB_MAP_MASK \<noteq> 0 then s else hcore_slab_free_pages page 1 s)"

definition slab_free_run :: "slab_sizes \<Rightarrow> int \<Rightarrow> int \<Rightarrow> slab \<Rightarrow> slab" where
  "slab_free_run z page p s =
     (let slab = pg_slab s page in
      if p AND (z_page z - 1) \<noteq> 0 \<or> slab AND HCORE_SLAB_PAGE_START = 0 \<or> slab = HCORE_SLAB_PAGE_BUSY then s
      else hcore_slab_free_pages page (i32 (slab AND NOT HCORE_SLAB_PAGE_START)) s)"

text \<open>The number of the page shifts by the size of a page, not by its shift: by 0 for sizes that are multiples of 64.\<close>

definition hcore_slab_free_locked :: "slab_sizes \<Rightarrow> int \<Rightarrow> slab \<Rightarrow> slab" where
  "hcore_slab_free_locked z p s =
     (if p < sl_start s \<or> sl_end s < p then s
      else
        let i = u32 (drop_bit (nat (z_page z mod 64)) (p - sl_start s));
            page = desc (sl_pages s) i;
            type = hcore_slab_get_page_type page s
        in if type = HCORE_SLAB_SMALL then slab_free_small z page p s
           else if type = HCORE_SLAB_EXACT then slab_free_exact z page p s
           else if type = HCORE_SLAB_BIG then slab_free_big z page p s
           else slab_free_run z page p s)"

end
