(* ===== verification/HSlabRun.thy ===== *)
theory HSlabRun
  imports HSlab
begin

section \<open>The free list of runs of pages\<close>

text \<open>
  hcore_slab_alloc_pages and hcore_slab_free_pages of src/hcore_shpool.c against a list of runs
  (number of the first page, number of pages) in the order of the free list: allocation is first fit,
  and freeing a run whose neighbours are not free puts it at the front.
\<close>

subsection \<open>A doubly linked segment\<close>

fun lseg :: "(int \<Rightarrow> int) \<Rightarrow> (int \<Rightarrow> int) \<Rightarrow> int \<Rightarrow> int list \<Rightarrow> int \<Rightarrow> bool" where
  "lseg nx pv p [] h = (nx p = h)"
| "lseg nx pv p (x # xs) h = (nx p = x \<and> pv x = p \<and> lseg nx pv x xs h)"

lemma lseg_append:
  "lseg nx pv p (xs @ ys) h \<longleftrightarrow> lseg nx pv p xs (hd (ys @ [h])) \<and> lseg nx pv (last (p # xs)) ys h"
  by (induction xs arbitrary: p) (cases ys; auto)+

lemma lseg_next_upd [simp]:
  "a \<noteq> p \<Longrightarrow> a \<notin> set xs \<Longrightarrow> lseg (nx(a := v)) pv p xs h = lseg nx pv p xs h"
  by (induction xs arbitrary: p) auto

lemma lseg_prev_upd [simp]: "a \<notin> set xs \<Longrightarrow> lseg nx (pv(a := v)) p xs h = lseg nx pv p xs h"
  by (induction xs arbitrary: p) auto

lemma lseg_cong:
  "lseg nx pv p xs h \<Longrightarrow> (\<And>a. a \<in> insert p (set xs) \<Longrightarrow> nx' a = nx a) \<Longrightarrow> (\<And>a. a \<in> set xs \<Longrightarrow> pv' a = pv a)
    \<Longrightarrow> lseg nx' pv' p xs h"
  by (induction xs arbitrary: p) auto

lemma lseg_end:
  "distinct (p # xs) \<Longrightarrow> lseg nx pv p xs r \<Longrightarrow> lseg (nx(last (p # xs) := h)) pv p xs h"
  by (induction xs arbitrary: p) auto

text \<open>Taking a node out, and putting another in its place.\<close>

lemma lseg_remove:
  assumes "lseg nx pv h (xs @ x # ys) h" and "distinct (h # xs @ x # ys)"
  shows "lseg (nx(pv x := nx x)) (pv(nx x := pv x)) h (xs @ ys) h"
proof -
  have 1: "lseg nx pv h xs x" "pv x = last (h # xs)" "lseg nx pv x ys h" using assms(1) by (auto simp: lseg_append)
  have nx: "nx x = hd (ys @ [h])" using 1(3) by (cases ys) auto
  have "nx x \<notin> set xs" using assms(2) by (cases ys) (auto simp: nx)
  then have front: "lseg (nx(last (h # xs) := nx x)) (pv(nx x := pv x)) h xs (hd (ys @ [h]))"
    using lseg_end [OF _ 1(1), of "nx x"] assms(2) by (auto simp: nx)
  have "last (h # xs) \<notin> set ys" using assms(2) by (cases xs rule: rev_cases) auto
  then have rest: "lseg (nx(last (h # xs) := nx x)) (pv(nx x := pv x)) (last (h # xs)) ys h"
    using 1 assms(2) nx by (cases ys) auto
  show ?thesis using front rest 1(2) by (simp only: lseg_append)
qed

lemma lseg_replace:
  assumes "lseg nx pv h (xs @ x # ys) h" and "distinct (h # xs @ x # ys)" and "y \<notin> set (h # xs @ x # ys)"
  shows "lseg (nx(y := nx x, pv x := y)) (pv(y := pv x, nx x := y)) h (xs @ y # ys) h"
proof -
  have 1: "lseg nx pv h xs x" "pv x = last (h # xs)" "lseg nx pv x ys h" using assms(1) by (auto simp: lseg_append)
  have nx: "nx x = hd (ys @ [h])" using 1(3) by (cases ys) auto
  have "nx x \<notin> set xs" "y \<noteq> nx x" using assms(2,3) by (cases ys; auto simp: nx)+
  moreover have "last (h # xs) \<noteq> y" "last (h # xs) \<notin> set ys" using assms(2,3) by (cases xs rule: rev_cases; auto)+
  moreover have "lseg (nx(y := nx x)) pv h xs x" using 1(1) assms(3) by simp
  then have "lseg (nx(y := nx x, last (h # xs) := y)) pv h xs y" by (rule lseg_end [rotated]) (use assms(2) in auto)
  moreover have "lseg (nx(y := nx x, last (h # xs) := y)) (pv(y := pv x, nx x := y)) y ys h"
    using calculation 1(3) assms(2,3) nx by (cases ys) auto
  ultimately show ?thesis using 1(2) assms(3)
    by (auto simp: lseg_append)
qed

subsection \<open>The runs\<close>

abbreviation (input) D :: "slab \<Rightarrow> int \<Rightarrow> int" where "D s i \<equiv> desc (sl_pages s) i"

definition heads :: "int \<Rightarrow> (int \<times> int) list \<Rightarrow> int list" where
  "heads p = map (\<lambda>r. desc p (fst r))"

lemma heads_simps [simp]:
  "heads p [] = []" "heads p (r # rs) = desc p (fst r) # heads p rs" "heads p (xs @ ys) = heads p xs @ heads p ys"
  by (simp_all add: heads_def)

lemma set_heads: "a \<in> set (heads p rs) \<longleftrightarrow> (\<exists>r \<in> set rs. a = desc p (fst r))"
  by (auto simp: heads_def)

lemma slab_free_head_set [simp]:
  "slab_free_head (set_prev a v s) = slab_free_head s" "slab_free_head (set_next a v s) = slab_free_head s"
  "slab_free_head (set_slab a v s) = slab_free_head s"
  by (simp_all add: slab_free_head_def set_prev_def set_next_def set_slab_def)

definition run_ok :: "slab \<Rightarrow> int \<times> int \<Rightarrow> bool" where
  "run_ok s r = (0 \<le> fst r \<and> 0 < snd r \<and> D s (fst r + snd r) \<le> sl_last s \<and> pg_slab s (D s (fst r)) = snd r)"

definition runs_apart :: "int \<times> int \<Rightarrow> int \<times> int \<Rightarrow> bool" where
  "runs_apart r q = (fst r + snd r \<le> fst q \<or> fst q + snd q \<le> fst r)"

definition free_runs :: "slab \<Rightarrow> (int \<times> int) list \<Rightarrow> bool" where
  "free_runs s rs =
     (slab_free_head s < sl_pages s
      \<and> lseg (pg_next s) (pg_prev s) (slab_free_head s) (heads (sl_pages s) rs) (slab_free_head s)
      \<and> (\<forall>r \<in> set rs. run_ok s r) \<and> sorted_wrt runs_apart rs
      \<and> sl_pfree s = sum_list (map snd rs) \<and> sl_pfree s < 4294967296)"

fun first_fit :: "int \<Rightarrow> (int \<times> int) list \<Rightarrow> (int \<times> (int \<times> int) list) option" where
  "first_fit n [] = None"
| "first_fit n ((i, m) # rs) =
     (if n \<le> m then Some (i, if n < m then (i + n, m - n) # rs else rs)
      else map_option (\<lambda>(j, qs). (j, (i, m) # qs)) (first_fit n rs))"

lemma desc_inject [simp]: "desc p i = desc p j \<longleftrightarrow> i = j"
  by (simp add: desc_def)

lemma desc_desc [simp]: "desc (desc p i) j = desc p (i + j)"
  by (simp add: desc_def)

lemma free_runs_distinct:
  assumes "free_runs s rs"
  shows "distinct (slab_free_head s # heads (sl_pages s) rs)"
proof -
  have "slab_free_head s \<notin> set (heads (sl_pages s) rs)" using assms by (force simp: free_runs_def run_ok_def desc_def set_heads)
  moreover have "sorted_wrt runs_apart rs \<Longrightarrow> (\<forall>r \<in> set rs. run_ok s r) \<Longrightarrow> distinct (map fst rs)"
    by (induction rs) (force simp: runs_apart_def run_ok_def)+
  then have "distinct (heads (sl_pages s) rs)" using assms
    by (auto simp: free_runs_def heads_def distinct_map inj_on_def)
  ultimately show ?thesis by auto
qed

subsection \<open>Looking for a run\<close>

lemma find_run:
  assumes "lseg (pg_next s) (pg_prev s) p (heads (sl_pages s) rs) (slab_free_head s)"
    and "slab_free_head s \<notin> set (heads (sl_pages s) rs)" and "\<forall>r \<in> set rs. run_ok s r"
  shows "slab_find_run s n (pg_next s p) = Some (map_option (\<lambda>r. D s (fst r)) (find (\<lambda>r. n \<le> snd r) rs))"
  using assms
proof (induction rs arbitrary: p)
  case Nil
  then show ?case by (subst slab_find_run.simps) simp
next
  case (Cons r rs)
  then have "slab_find_run s n (pg_next s (D s (fst r))) = Some (map_option (\<lambda>r. D s (fst r)) (find (\<lambda>r. n \<le> snd r) rs))"
    by auto
  then show ?case using Cons.prems by (subst slab_find_run.simps) (auto simp: run_ok_def)
qed

lemma first_fit_none: "first_fit n rs = None \<longleftrightarrow> find (\<lambda>r. n \<le> snd r) rs = None"
  by (induction n rs rule: first_fit.induct) auto

lemma first_fit_split:
  "find (\<lambda>r. n \<le> snd r) rs = Some (i, m) \<Longrightarrow> \<exists>xs ys. rs = xs @ (i, m) # ys \<and> n \<le> m
    \<and> first_fit n rs = Some (i, xs @ (if n < m then (i + n, m - n) # ys else ys))"
proof (induction n rs rule: first_fit.induct)
  case (2 n j k rs)
  show ?case
  proof (cases "n \<le> k")
    case True
    then show ?thesis using 2(2) by (intro exI [of _ "[]"] exI [of _ rs]) auto
  next
    case False
    then obtain xs ys where "rs = xs @ (i, m) # ys" "n \<le> m"
      "first_fit n rs = Some (i, xs @ (if n < m then (i + n, m - n) # ys else ys))" using 2 by auto
    then show ?thesis using False by (intro exI [of _ "(j, k) # xs"] exI [of _ ys]) auto
  qed
qed simp

subsection \<open>Frames\<close>

text \<open>States that differ only in the descriptors of a set.\<close>

definition slab_eq_off :: "int set \<Rightarrow> slab \<Rightarrow> slab \<Rightarrow> bool" where
  "slab_eq_off A s t =
     (sl_base t = sl_base s \<and> sl_pages t = sl_pages s \<and> sl_last t = sl_last s \<and> sl_pfree t = sl_pfree s
      \<and> sl_start t = sl_start s
      \<and> (\<forall>a. a \<notin> A \<longrightarrow> pg_slab t a = pg_slab s a \<and> pg_prev t a = pg_prev s a \<and> pg_next t a = pg_next s a))"

lemma slab_eq_off_trans:
  "slab_eq_off A s t \<Longrightarrow> slab_eq_off B t u \<Longrightarrow> A \<subseteq> C \<Longrightarrow> B \<subseteq> C \<Longrightarrow> slab_eq_off C s u"
  unfolding slab_eq_off_def by (metis subsetD)

lemma free_runs_frame:
  assumes "free_runs s rs" and "slab_eq_off A s t" and "slab_free_head s \<notin> A" and "\<forall>r \<in> set rs. D s (fst r) \<notin> A"
  shows "free_runs t rs"
proof -
  have "slab_free_head t = slab_free_head s" using assms(2) by (simp add: slab_free_head_def slab_eq_off_def)
  moreover have off: "\<forall>a \<in> set (slab_free_head s # heads (sl_pages s) rs). a \<notin> A" using assms(3,4) by (auto simp: set_heads)
  moreover have "lseg (pg_next t) (pg_prev t) (slab_free_head s) (heads (sl_pages s) rs) (slab_free_head s)"
    by (rule lseg_cong [where nx = "pg_next s" and pv = "pg_prev s"])
      (use assms(1,2) off in \<open>auto simp: free_runs_def slab_eq_off_def\<close>)
  ultimately show ?thesis using assms by (auto simp: free_runs_def run_ok_def slab_eq_off_def)
qed

lemmas slab_sets = set_slab_def set_prev_def set_next_def hcore_slab_set_page_prev_def

lemma busy_pages_eq_off:
  "slab_eq_off (insert x (set (map (desc x) is))) s (fold (\<lambda>i. slab_busy_page x (desc x i)) is s)"
proof (induction "is" arbitrary: s)
  case (Cons i "is")
  show ?case using Cons [of "slab_busy_page x (desc x i) s"] by (auto simp: slab_eq_off_def slab_busy_page_def slab_sets)
qed (simp add: slab_eq_off_def)

lemma free_runs_inside:
  assumes "free_runs s rs" and "(i, m) \<in> set rs" and "r \<in> set rs" and "r \<noteq> (i, m)"
  shows "fst r + snd r \<le> i \<or> i + m \<le> fst r"
proof -
  have "sorted_wrt runs_apart rs" using assms(1) by (simp add: free_runs_def)
  then have "runs_apart r (i, m) \<or> runs_apart (i, m) r" using assms(2-4) by (induction rs) auto
  then show ?thesis by (auto simp: runs_apart_def)
qed

subsection \<open>Taking pages of a run\<close>

lemma free_runs_parts:
  assumes "free_runs s (xs @ (i, m) # ys)"
  shows "lseg (pg_next s) (pg_prev s) (slab_free_head s) (heads (sl_pages s) xs @ D s i # heads (sl_pages s) ys) (slab_free_head s)"
    and "distinct (slab_free_head s # heads (sl_pages s) xs @ D s i # heads (sl_pages s) ys)"
    and "0 \<le> i" and "0 < m" and "D s (i + m) \<le> sl_last s" and "pg_slab s (D s i) = m"
  using assms free_runs_distinct [OF assms] by (auto simp: free_runs_def run_ok_def)

lemma free_runs_interior:
  assumes "free_runs s (xs @ (i, m) # ys)" and "0 < k" and "k < m"
  shows "D s (i + k) \<notin> set (slab_free_head s # heads (sl_pages s) xs @ D s i # heads (sl_pages s) ys)"
proof -
  have "slab_free_head s \<noteq> D s (i + k)" using assms free_runs_parts [OF assms(1)] by (auto simp: free_runs_def desc_def)
  moreover have "fst r \<noteq> i + k" if "r \<in> set xs \<union> set ys" for r
  proof -
    have "r \<noteq> (i, m)" using that free_runs_parts(2) [OF assms(1)] by (force simp: set_heads)
    moreover have "0 < snd r" using that assms(1) by (auto simp: free_runs_def run_ok_def)
    ultimately show ?thesis using free_runs_inside [OF assms(1), of i m r] that assms(2,3) by auto
  qed
  ultimately show ?thesis using assms(2) by (force simp: set_heads)
qed

lemma free_runs_ends:
  assumes "free_runs s (xs @ (i, m) # ys)"
  shows "pg_prev s (D s i) \<in> set (slab_free_head s # heads (sl_pages s) xs)"
    and "pg_next s (D s i) \<in> set (slab_free_head s # heads (sl_pages s) ys)"
  using free_runs_parts(1) [OF assms] by (cases xs rule: rev_cases; cases ys; auto simp: lseg_append)+

lemma sum_runs_bound: "free_runs s rs \<Longrightarrow> r \<in> set rs \<Longrightarrow> snd r \<le> sl_pfree s"
proof -
  assume a: "free_runs s rs" "r \<in> set rs"
  then have "\<forall>r \<in> set rs. 0 < snd r" by (auto simp: free_runs_def run_ok_def)
  then have "snd r \<le> sum_list (map snd rs)" using a(2)
    by (intro member_le_sum_list) auto
  then show ?thesis using a(1) by (simp add: free_runs_def)
qed

lemma free_runs_remove:
  assumes f: "free_runs s (xs @ (i, m) # ys)"
  shows "free_runs (slab_cut_run (D s i) m s\<lparr>sl_pfree := sl_pfree s - m\<rparr>) (xs @ ys)"
proof -
  note parts = free_runs_parts [OF f] and ends = free_runs_ends [OF f]
  have ne: "D s i \<noteq> pg_prev s (D s i)" using parts(2) ends(1) by auto
  have cut: "slab_cut_run (D s i) m s = s\<lparr>pg_next := (pg_next s)(pg_prev s (D s i) := pg_next s (D s i)),
      pg_prev := (pg_prev s)(pg_next s (D s i) := pg_prev s (D s i))\<rparr>"
    using parts(6) ne by (simp add: slab_cut_run_def slab_sets Let_def)
  show ?thesis using lseg_remove [OF parts(1,2)] f parts(4)
    by (auto simp: cut free_runs_def slab_free_head_def run_ok_def sorted_wrt_append)
qed

lemma free_runs_split:
  assumes f: "free_runs s (xs @ (i, m) # ys)" and n: "0 < n" "n < m"
  shows "free_runs (slab_cut_run (D s i) n s\<lparr>sl_pfree := sl_pfree s - n\<rparr>) (xs @ (i + n, m - n) # ys)"
proof -
  note parts = free_runs_parts [OF f] and ends = free_runs_ends [OF f]
  let ?x = "D s i" and ?y = "D s (i + n)" and ?l = "D s (i + (m - 1))"
  define pv where "pv = (pg_prev s)(?l := ?y)"
  note y = free_runs_interior [OF f n]
  have l: "?l \<notin> set (slab_free_head s # heads (sl_pages s) xs @ ?x # heads (sl_pages s) ys)"
    using free_runs_interior [OF f, of "m - 1"] n by simp
  have ne: "?x \<noteq> pg_prev s ?x" "?y \<noteq> ?x" "?l \<noteq> ?x" "?y \<noteq> pg_prev s ?x" "?y \<noteq> pg_next s ?x" "?x \<noteq> pg_next s ?x"
    using parts(2) ends y l by auto
  have cut: "slab_cut_run ?x n s = s\<lparr>pg_slab := (pg_slab s)(?y := m - n),
      pg_next := (pg_next s)(?y := pg_next s ?x, pv ?x := ?y), pg_prev := pv(?y := pv ?x, pg_next s ?x := ?y)\<rparr>"
    using parts(6) ne n by (simp add: slab_cut_run_def slab_sets Let_def pv_def)
  have "lseg (pg_next s) pv (slab_free_head s) (heads (sl_pages s) xs @ ?x # heads (sl_pages s) ys) (slab_free_head s)"
    unfolding pv_def by (rule lseg_prev_upd [THEN iffD2, OF _ parts(1)]) (use l in auto)
  note seg = lseg_replace [OF this parts(2) y]
  have "(i + n, k) \<notin> set xs \<and> (i + n, k) \<notin> set ys" for k using y set_heads [of ?y "sl_pages s"] by fastforce
  then show ?thesis using seg f n parts(3)
    by (auto simp: cut free_runs_def slab_free_head_def run_ok_def sorted_wrt_append runs_apart_def)
qed

subsection \<open>Allocation is first fit\<close>

lemma cut_run_pages:
  "sl_pages (slab_cut_run x n s) = sl_pages s" "sl_base (slab_cut_run x n s) = sl_base s"
  "sl_last (slab_cut_run x n s) = sl_last s" "sl_pfree (slab_cut_run x n s) = sl_pfree s"
  "sl_start (slab_cut_run x n s) = sl_start s"
  by (simp_all add: slab_cut_run_def slab_sets Let_def)

text \<open>The marks on the pages that were taken.\<close>

definition slab_mark_run :: "int \<Rightarrow> int \<Rightarrow> slab \<Rightarrow> slab" where
  "slab_mark_run x n s =
     fold (\<lambda>i. slab_busy_page x (desc x i)) [1..n - 1]
       (hcore_slab_set_page_prev x 0 HCORE_SLAB_PAGE (set_next x 0 (set_slab x (n OR HCORE_SLAB_PAGE_START) s)))"

lemma mark_run_eq_off: "slab_eq_off (insert x (desc x ` {1..<n})) s (slab_mark_run x n s)"
proof -
  define t where "t = hcore_slab_set_page_prev x 0 HCORE_SLAB_PAGE (set_next x 0 (set_slab x (n OR HCORE_SLAB_PAGE_START) s))"
  have "slab_eq_off {x} s t" by (simp add: t_def slab_eq_off_def slab_sets)
  then show ?thesis unfolding slab_mark_run_def t_def [symmetric]
    by (rule slab_eq_off_trans [OF _ busy_pages_eq_off]) auto
qed

lemma pfree_swap:
  "s\<lparr>sl_pfree := k, pg_slab := v\<rparr> = s\<lparr>pg_slab := v, sl_pfree := k\<rparr>"
  "s\<lparr>sl_pfree := k, pg_prev := v\<rparr> = s\<lparr>pg_prev := v, sl_pfree := k\<rparr>"
  "s\<lparr>sl_pfree := k, pg_next := v\<rparr> = s\<lparr>pg_next := v, sl_pfree := k\<rparr>"
  by simp_all

lemma pfree_mark_run: "slab_mark_run x n (s\<lparr>sl_pfree := k\<rparr>) = slab_mark_run x n s\<lparr>sl_pfree := k\<rparr>"
proof -
  have "fold (\<lambda>i. slab_busy_page x (desc x i)) is (s\<lparr>sl_pfree := k\<rparr>) = fold (\<lambda>i. slab_busy_page x (desc x i)) is s\<lparr>sl_pfree := k\<rparr>" for "is" s
    by (induction "is" arbitrary: s) (simp_all add: slab_busy_page_def slab_sets pfree_swap)
  then show ?thesis unfolding slab_mark_run_def by (simp add: slab_sets pfree_swap)
qed

lemma alloc_pages_eq:
  assumes "slab_find_run s n (pg_next s (slab_free_head s)) = Some (Some x)" and "0 \<le> sl_pfree s - n" and "sl_pfree s - n < 4294967296"
  shows "hcore_slab_alloc_pages n s = Some (x, slab_mark_run x n (slab_cut_run x n s\<lparr>sl_pfree := sl_pfree s - n\<rparr>))"
  using assms u32_id [of "sl_pfree s - n"]
  by (simp add: hcore_slab_alloc_pages_def Let_def slab_mark_run_def cut_run_pages slab_sets pfree_swap)

text \<open>After the cut the pages that were taken are not heads of runs.\<close>

lemma taken_not_heads:
  assumes f: "free_runs s (xs @ (i, m) # ys)" and n: "0 < n" "n \<le> m" and rs: "rs = xs @ (if n < m then (i + n, m - n) # ys else ys)"
  shows "slab_free_head s \<notin> insert (D s i) (desc (D s i) ` {1..<n})"
    and "\<forall>r \<in> set rs. D s (fst r) \<notin> insert (D s i) (desc (D s i) ` {1..<n})"
proof -
  have no: "a \<notin> set (slab_free_head s # heads (sl_pages s) xs @ heads (sl_pages s) ys)"
    if a: "a \<in> insert (D s i) (desc (D s i) ` {1..<n})" for a
    using a n free_runs_parts(2) [OF f] free_runs_interior [OF f] by auto
  show "slab_free_head s \<notin> insert (D s i) (desc (D s i) ` {1..<n})" using no [of "slab_free_head s"] by auto
  have "D s (fst r) \<notin> insert (D s i) (desc (D s i) ` {1..<n})" if "r \<in> set xs \<union> set ys" for r
    using no [of "D s (fst r)"] that by (auto simp: set_heads)
  then show "\<forall>r \<in> set rs. D s (fst r) \<notin> insert (D s i) (desc (D s i) ` {1..<n})"
    using n rs by auto
qed

lemma alloc_pages_first_fit:
  assumes f: "free_runs s rs" and n: "0 < n"
  shows "(case first_fit n rs of
        None \<Rightarrow> hcore_slab_alloc_pages n s = Some (0, s)
      | Some (i, qs) \<Rightarrow> \<exists>t. hcore_slab_alloc_pages n s = Some (D s i, t) \<and> free_runs t qs
          \<and> sl_pages t = sl_pages s \<and> sl_last t = sl_last s \<and> sl_start t = sl_start s \<and> sl_pfree t = sl_pfree s - n)"
proof -
  have find: "slab_find_run s n (pg_next s (slab_free_head s)) = Some (map_option (\<lambda>r. D s (fst r)) (find (\<lambda>r. n \<le> snd r) rs))"
    by (rule find_run) (use f free_runs_distinct [OF f] in \<open>auto simp: free_runs_def\<close>)
  show ?thesis
  proof (cases "find (\<lambda>r. n \<le> snd r) rs")
    case None
    then show ?thesis using find first_fit_none [of n rs] by (simp add: hcore_slab_alloc_pages_def)
  next
    case (Some r)
    then obtain i m xs ys where r: "rs = xs @ (i, m) # ys" "n \<le> m"
      "first_fit n rs = Some (i, xs @ (if n < m then (i + n, m - n) # ys else ys))" "find (\<lambda>r. n \<le> snd r) rs = Some (i, m)"
      using first_fit_split [of n rs] by (metis surj_pair)
    let ?qs = "xs @ (if n < m then (i + n, m - n) # ys else ys)"
    define c where "c = slab_cut_run (D s i) n s\<lparr>sl_pfree := sl_pfree s - n\<rparr>"
    have bound: "m \<le> sl_pfree s" "sl_pfree s < 4294967296" using sum_runs_bound [OF f, of "(i, m)"] f r(1) by (auto simp: free_runs_def)
    have al: "hcore_slab_alloc_pages n s = Some (D s i, slab_mark_run (D s i) n c)"
      using alloc_pages_eq find r(2,4) bound n by (simp add: c_def)
    have "free_runs c ?qs"
      using free_runs_split [of s xs i m ys n] free_runs_remove [of s xs i m ys] f r(1,2) n by (auto simp: c_def)
    moreover have pages: "sl_pages c = sl_pages s" "slab_free_head c = slab_free_head s" "sl_last c = sl_last s" "sl_start c = sl_start s" "sl_pfree c = sl_pfree s - n"
      by (simp_all add: c_def cut_run_pages slab_free_head_def)
    ultimately have "free_runs (slab_mark_run (D s i) n c) ?qs"
      using taken_not_heads [OF _ n r(2) refl, of s xs i ys] f r(1) by (intro free_runs_frame [OF _ mark_run_eq_off]) auto
    then show ?thesis using al r(3) pages mark_run_eq_off [of "D s i" n c] by (auto simp: slab_eq_off_def)
  qed
qed

subsection \<open>Freeing a run between pages that are not free\<close>

lemma zero_descs_eq_off:
  "slab_eq_off (set (map (desc x) is)) s (fold (\<lambda>i. slab_zero_desc (desc x i)) is s)"
proof (induction "is" arbitrary: s)
  case (Cons i "is")
  show ?case using Cons [of "slab_zero_desc (desc x i) s"] by (auto simp: slab_eq_off_def slab_zero_desc_def slab_sets)
qed (simp add: slab_eq_off_def)

text \<open>The tests that hcore_slab_free_pages makes before it joins.\<close>

definition busy_after :: "slab \<Rightarrow> int \<Rightarrow> bool" where
  "busy_after s x = (sl_last s \<le> x \<or> hcore_slab_get_page_type x s \<noteq> HCORE_SLAB_PAGE \<or> pg_next s x = 0)"

definition busy_before :: "slab \<Rightarrow> int \<Rightarrow> bool" where
  "busy_before s x = (x \<le> sl_pages s \<or> hcore_slab_get_page_type (desc x (-1)) s \<noteq> HCORE_SLAB_PAGE
     \<or> pg_next s (if pg_slab s (desc x (-1)) = HCORE_SLAB_PAGE_FREE then hcore_slab_get_page_prev (desc x (-1)) s
                  else desc x (-1)) = 0)"

definition slab_push_run :: "int \<Rightarrow> int \<Rightarrow> slab \<Rightarrow> slab" where
  "slab_push_run x n s =
     (let s = (if n - 1 \<noteq> 0 then set_prev (desc x (n - 1)) x s else s);
          s = set_prev x (slab_free_head s) s;
          s = set_next x (pg_next s (slab_free_head s)) s;
          s = set_prev (pg_next s x) x s
      in set_next (slab_free_head s) x s)"

text \<open>The pages as they are before the joins.\<close>

definition slab_clear_run :: "int \<Rightarrow> int \<Rightarrow> slab \<Rightarrow> slab" where
  "slab_clear_run x n s = fold (\<lambda>i. slab_zero_desc (desc x i)) [1..n - 1] (set_slab x n (s\<lparr>sl_pfree := u32 (sl_pfree s + n)\<rparr>))"

lemma clear_run_eq_off: "slab_eq_off (desc x ` {0..<n}) (s\<lparr>sl_pfree := u32 (sl_pfree s + n)\<rparr>) (slab_clear_run x n s)" if "0 < n"
proof -
  define t where "t = set_slab x n (s\<lparr>sl_pfree := u32 (sl_pfree s + n)\<rparr>)"
  have "x = desc x 0" by (simp add: desc_def)
  then have sub: "{x} \<subseteq> desc x ` {0..<n}" using that by auto
  have "slab_eq_off {x} (s\<lparr>sl_pfree := u32 (sl_pfree s + n)\<rparr>) t" by (simp add: t_def slab_eq_off_def slab_sets)
  then show ?thesis unfolding slab_clear_run_def t_def [symmetric]
    by (rule slab_eq_off_trans [OF _ zero_descs_eq_off sub]) auto
qed

lemma clear_run_slab: "pg_slab (slab_clear_run x n s) x = n"
proof -
  have "x \<notin> set (map (desc x) [1..n - 1])" by (auto simp: desc_def)
  then show ?thesis using zero_descs_eq_off [of x "[1..n - 1]"] by (simp add: slab_clear_run_def slab_eq_off_def slab_sets)
qed

lemma clear_run_next: "pg_next (slab_clear_run x n s) x = pg_next s x"
proof -
  have "x \<notin> set (map (desc x) [1..n - 1])" by (auto simp: desc_def)
  then show ?thesis using zero_descs_eq_off [of x "[1..n - 1]"] by (simp add: slab_clear_run_def slab_eq_off_def slab_sets)
qed

lemma free_pages_push:
  assumes "pg_next s x = 0" and "0 < n" and "busy_after (slab_clear_run x n s) (desc x n)" and "busy_before (slab_clear_run x n s) x"
  shows "hcore_slab_free_pages x n s = slab_push_run x n (slab_clear_run x n s)"
proof -
  define t where "t = slab_clear_run x n s"
  have "slab_join_next x (n - 1, t) = (n - 1, t)"
    using assms(3) clear_run_slab [of x n s] by (auto simp: slab_join_next_def busy_after_def t_def Let_def)
  moreover have "slab_join_prev (x, n - 1, t) = (x, n - 1, t)"
    using assms(4) by (auto simp: slab_join_prev_def busy_before_def t_def Let_def)
  moreover have "pg_next t x = 0" using assms(1) by (simp add: t_def clear_run_next)
  ultimately show ?thesis
    unfolding hcore_slab_free_pages_def slab_push_run_def t_def [symmetric] by (simp add: slab_clear_run_def t_def Let_def)
qed

lemma run_pages_not_heads:
  assumes f: "free_runs s rs" and r: "0 \<le> i" "0 < n" and a: "\<forall>r \<in> set rs. runs_apart (i, n) r"
  shows "slab_free_head s \<notin> desc (D s i) ` {0..<n}" and "\<forall>r \<in> set rs. D s (fst r) \<notin> desc (D s i) ` {0..<n}"
proof -
  show "slab_free_head s \<notin> desc (D s i) ` {0..<n}" using f r by (auto simp: free_runs_def desc_def)
  have "0 < snd r" if "r \<in> set rs" for r using f that by (auto simp: free_runs_def run_ok_def)
  then show "\<forall>r \<in> set rs. D s (fst r) \<notin> desc (D s i) ` {0..<n}" using a by (force simp: runs_apart_def)
qed

lemma free_runs_push:
  assumes f: "free_runs (t\<lparr>sl_pfree := k\<rparr>) rs" and k: "sl_pfree t = k + n" "k + n < 4294967296" and r: "0 \<le> i" "0 < n"
    and a: "\<forall>r \<in> set rs. runs_apart (i, n) r" and last: "D t (i + n) \<le> sl_last t" and slab: "pg_slab t (D t i) = n"
  shows "free_runs (slab_push_run (D t i) n t) ((i, n) # rs)"
proof -
  let ?x = "D t i" and ?h = "slab_free_head t" and ?l = "D t (i + (n - 1))"
  have h: "slab_free_head (t\<lparr>sl_pfree := k\<rparr>) = ?h" by (simp add: slab_free_head_def)
  note not = run_pages_not_heads [OF f r a, unfolded h]
  have at: "k \<in> {0..<n} \<Longrightarrow> D t (i + k) = desc ?x k \<and> desc ?x k \<in> desc ?x ` {0..<n}" for k by simp
  have x: "?x \<noteq> ?h" "?x \<notin> set (heads (sl_pages t) rs)" using not at [of 0] r by (force simp: set_heads)+
  have l: "?l \<noteq> ?h" "?l \<notin> set (heads (sl_pages t) rs)" using not at [of "n - 1"] r by (force simp: set_heads)+
  define pv where "pv = (if n - 1 \<noteq> 0 then (pg_prev t)(?l := ?x) else pg_prev t)"
  have seg: "lseg (pg_next t) pv ?h (heads (sl_pages t) rs) ?h"
    using f l(2) unfolding pv_def by (auto simp: free_runs_def h)
  have push: "slab_push_run ?x n t = t\<lparr>pg_next := (pg_next t)(?x := pg_next t ?h, ?h := ?x),
      pg_prev := pv(?x := ?h, pg_next t ?h := ?x)\<rparr>"
    using x(1) by (simp add: slab_push_run_def Let_def slab_sets pv_def slab_free_head_def)
  have nh: "pg_next t ?h = ?h \<and> rs = [] \<or> (\<exists>r qs. rs = r # qs \<and> pg_next t ?h = D t (fst r))"
    using seg by (cases rs) auto
  have dist: "distinct (?h # heads (sl_pages t) rs)" using free_runs_distinct [OF f] by (simp add: h)
  have "lseg ((pg_next t)(?x := pg_next t ?h, ?h := ?x)) (pv(?x := ?h, pg_next t ?h := ?x)) ?h (?x # heads (sl_pages t) rs) ?h"
    using seg x dist nh by (cases rs) auto
  then show ?thesis using f k r a last slab
    by (auto simp: push free_runs_def slab_free_head_def run_ok_def)
qed

lemma free_pages_run:
  assumes f: "free_runs s rs" and r: "0 \<le> i" "0 < n" "D s (i + n) \<le> sl_last s"
    and a: "\<forall>r \<in> set rs. runs_apart (i, n) r" and k: "sl_pfree s + n < 4294967296" and nx: "pg_next s (D s i) = 0"
    and busy: "busy_after (slab_clear_run (D s i) n s) (D s (i + n))" "busy_before (slab_clear_run (D s i) n s) (D s i)"
  shows "free_runs (hcore_slab_free_pages (D s i) n s) ((i, n) # rs)
    \<and> sl_pfree (hcore_slab_free_pages (D s i) n s) = sl_pfree s + n"
proof -
  define t where "t = slab_clear_run (D s i) n s"
  have t: "slab_eq_off (desc (D s i) ` {0..<n}) (s\<lparr>sl_pfree := u32 (sl_pfree s + n)\<rparr>) t"
    unfolding t_def by (rule clear_run_eq_off) (rule r)
  have "\<forall>m \<in> set (map snd rs). 0 \<le> m" using f by (auto simp: free_runs_def run_ok_def)
  then have "0 \<le> sum_list (map snd rs)" by (intro sum_list_nonneg) blast
  then have "0 \<le> sl_pfree s" using f by (simp add: free_runs_def)
  then have pf: "sl_pfree t = sl_pfree s + n" using t k r u32_id [of "sl_pfree s + n"] by (simp add: slab_eq_off_def)
  have "free_runs (t\<lparr>sl_pfree := sl_pfree s\<rparr>) rs"
    by (rule free_runs_frame [OF f _ run_pages_not_heads [OF f r(1,2) a]]) (use t in \<open>auto simp: slab_eq_off_def\<close>)
  then have "free_runs (slab_push_run (D t i) n t) ((i, n) # rs)"
    by (rule free_runs_push) (use pf k r a t in \<open>auto simp: slab_eq_off_def t_def clear_run_slab\<close>)
  moreover have "hcore_slab_free_pages (D s i) n s = slab_push_run (D t i) n t"
    using free_pages_push [OF nx r(2)] busy t by (simp add: t_def slab_eq_off_def)
  moreover have "sl_pfree (slab_push_run (D t i) n t) = sl_pfree t" by (simp add: slab_push_run_def Let_def slab_sets)
  ultimately show ?thesis using pf by simp
qed

subsection \<open>Blocks of whole pages\<close>

definition units :: "(int \<times> int) list \<Rightarrow> int set" where
  "units rs = (\<Union>(i, m) \<in> set rs. {i..<i + m})"

lemma units_simps [simp]: "units [] = {}" "units ((i, m) # rs) = {i..<i + m} \<union> units rs"
  by (simp_all add: units_def)

lemma first_fit_units:
  "first_fit n rs = Some (i, qs) \<Longrightarrow> 0 < n \<Longrightarrow> sorted_wrt runs_apart rs \<Longrightarrow> \<forall>r \<in> set rs. 0 < snd r
    \<Longrightarrow> {i..<i + n} \<subseteq> units rs \<and> units qs = units rs - {i..<i + n}"
proof (induction n rs arbitrary: qs rule: first_fit.induct)
  case (2 n j m rs)
  have disj: "{j..<j + m} \<inter> units rs = {}" using 2(4) by (force simp: units_def runs_apart_def)
  show ?case
  proof (cases "n \<le> m")
    case True
    then have "i = j" "qs = (if n < m then (j + n, m - n) # rs else rs)" using 2(2) by auto
    moreover have "{j..<j + m} - {j..<j + n} = {j + n..<j + (m - n + n)}" "{j..<j + n} \<subseteq> {j..<j + m}" using True 2(3) by auto
    moreover have "{j..<j + n} \<inter> units rs = {}" using disj calculation(4) by blast
    ultimately show ?thesis using True by auto
  next
    case False
    then obtain qs' where q: "first_fit n rs = Some (i, qs')" "qs = (j, m) # qs'" using 2(2) by auto
    then have ih: "{i..<i + n} \<subseteq> units rs" "units qs' = units rs - {i..<i + n}" using 2 False by auto
    then show ?thesis using disj q(2) by auto
  qed
qed simp

definition pages_for :: "slab_sizes \<Rightarrow> int \<Rightarrow> int" where
  "pages_for z sz = drop_bit (nat (z_page_shift z)) sz + (if sz mod z_page z \<noteq> 0 then 1 else 0)"

lemma pages_for_enough:
  assumes "2 ^ nat (z_page_shift z) dvd z_page z" and "0 \<le> sz"
  shows "sz \<le> pages_for z sz * 2 ^ nat (z_page_shift z)"
proof -
  let ?u = "2 ^ nat (z_page_shift z) :: int"
  have split: "sz = sz div ?u * ?u + sz mod ?u" "sz mod ?u < ?u" by (simp_all only: div_mult_mod_eq) simp
  show ?thesis
  proof (cases "sz mod z_page z = 0")
    case True
    then have "sz mod ?u = 0" using assms(1) by (meson dvd_trans mod_0_imp_dvd dvd_imp_mod_0)
    then show ?thesis using split True by (simp add: pages_for_def drop_bit_eq_div)
  next
    case False
    have "sz \<le> sz div ?u * ?u + ?u" using split by linarith
    then show ?thesis using False by (simp add: pages_for_def drop_bit_eq_div algebra_simps)
  qed
qed

text \<open>A block over the largest slab size: what hcore_slab_alloc_locked does is one allocation of a run.\<close>

lemma alloc_locked_large:
  assumes "free_runs s rs" and "z_max z < sz" and "0 < pages_for z sz" and "pages_for z sz < 4294967296" and "0 < sl_pages s"
  shows "(case first_fit (pages_for z sz) rs of
        None \<Rightarrow> hcore_slab_alloc_locked z sz s = Some (Ret 0, s)
      | Some (i, qs) \<Rightarrow> \<exists>t. hcore_slab_alloc_locked z sz s
            = Some (Ret (push_bit (nat (z_page_shift z)) i + sl_start s), t) \<and> free_runs t qs
          \<and> sl_pages t = sl_pages s \<and> sl_last t = sl_last s \<and> sl_start t = sl_start s \<and> sl_pfree t = sl_pfree s - pages_for z sz)"
proof (cases "first_fit (pages_for z sz) rs")
  case None
  then show ?thesis using alloc_pages_first_fit [OF assms(1,3)] assms(2,4) u32_id [of "pages_for z sz"] assms(3)
    by (simp add: hcore_slab_alloc_locked_def pages_for_def)
next
  case (Some r)
  then obtain i qs t where r: "first_fit (pages_for z sz) rs = Some (i, qs)"
    "hcore_slab_alloc_pages (pages_for z sz) s = Some (D s i, t)" "free_runs t qs"
    "sl_pages t = sl_pages s" "sl_last t = sl_last s" "sl_start t = sl_start s" "sl_pfree t = sl_pfree s - pages_for z sz"
    using alloc_pages_first_fit [OF assms(1,3)] by (cases r) auto
  have "sorted_wrt runs_apart rs" "\<forall>r \<in> set rs. 0 < snd r" "\<forall>r \<in> set rs. 0 \<le> fst r" using assms(1) by (auto simp: free_runs_def run_ok_def)
  then have "{i..<i + pages_for z sz} \<subseteq> units rs" "\<forall>j \<in> units rs. 0 \<le> j"
    using first_fit_units [OF r(1) assms(3)] by (auto simp: units_def)
  then have "0 \<le> i" using assms(3) by (meson atLeastLessThan_iff less_add_same_cancel1 order_refl subsetD)
  then have "D s i \<noteq> 0" using assms(5) by (simp add: desc_def)
  then have "hcore_slab_alloc_locked z sz s = Some (Ret (push_bit (nat (z_page_shift z)) i + sl_start s), t)"
    using r assms(2,4) u32_id [of "pages_for z sz"] assms(3)
    by (simp add: hcore_slab_alloc_locked_def pages_for_def [symmetric] hcore_slab_get_page_addr_def desc_def)
  then show ?thesis using r by simp
qed

subsection \<open>A new pool\<close>

lemma init_slots_eq_off:
  "slab_eq_off (set (map (desc x) is)) s (fold (\<lambda>i. slab_init_slot (desc x i)) is s)
    \<and> sl_end (fold (\<lambda>i. slab_init_slot (desc x i)) is s) = sl_end s
    \<and> sl_min_shift (fold (\<lambda>i. slab_init_slot (desc x i)) is s) = sl_min_shift s"
proof (induction "is" arbitrary: s)
  case (Cons i "is")
  show ?case using Cons [of "slab_init_slot (desc x i) s"] by (auto simp: slab_eq_off_def slab_init_slot_def slab_sets)
qed (simp add: slab_eq_off_def)

lemma zero_descs_end: "sl_end (fold (\<lambda>i. slab_zero_desc (desc x i)) is s) = sl_end s"
  by (induction "is" arbitrary: s) (simp_all add: slab_zero_desc_def slab_sets)

text \<open>The number of pages that hcore_slab_init makes of the memory after the descriptors, and where they start.\<close>

definition init_pages :: "int \<Rightarrow> int \<Rightarrow> int" where
  "init_pages p e =
     (let n = (e - p) div 4120; start = (p + n * 24 + 4095) div 4096 * 4096 in min n ((e - start) div 4096))"

lemma init_pages_fit:
  assumes "p + 4120 * 2 \<le> e"
  shows "0 < init_pages p e" and "(p + (e - p) div 4120 * 24 + 4095) div 4096 * 4096 + init_pages p e * 4096 \<le> e"
proof -
  define n where "n = (e - p) div 4120"
  define st where "st = (p + n * 24 + 4095) div 4096 * 4096"
  have n: "2 \<le> n" "n * 4120 \<le> e - p" using assms by (simp_all add: n_def)
  have down: "x div 4096 * 4096 \<le> x" for x :: int by presburger
  have st: "st \<le> p + n * 24 + 4095" unfolding st_def by (rule down)
  then have "4096 \<le> e - st" using n by linarith
  then have "0 < (e - st) div 4096" by simp
  then show "0 < init_pages p e" using n by (simp add: init_pages_def Let_def n_def [symmetric] st_def [symmetric])
  have "init_pages p e \<le> (e - st) div 4096" by (simp add: init_pages_def Let_def n_def [symmetric] st_def [symmetric])
  then show "(p + (e - p) div 4120 * 24 + 4095) div 4096 * 4096 + init_pages p e * 4096 \<le> e"
    unfolding n_def [symmetric] st_def [symmetric] using down [of "e - st"] by linarith
qed

lemma hcore_slab_init_one_run:
  assumes z: "z_page z = 4096" "z_page_shift z = 11" and a: "0 < addr" "addr + sz < 9223372036854775808"
    and sz: "32768 \<le> sz" "sz < 4398046511104"
  defines "t \<equiv> hcore_slab_init z (slab_at addr sz)" and "n \<equiv> init_pages (addr + 288) (addr + sz)"
  shows "free_runs t [(0, n)]" and "0 < n" and "sl_pages t = addr + 288" and "addr + 288 + 24 * n \<le> sl_start t"
    and "sl_start t + 4096 * n \<le> addr + sz" and "4096 dvd sl_start t"
proof -
  let ?p = "addr + 288" and ?h = "addr + 40"
  define m where "m = (sz - 288) div 4120"
  define slots where "slots = (slab_at addr sz)\<lparr>sl_min_size := 8\<rparr>"
  define s1 where "s1 = fold (\<lambda>i. slab_init_slot (desc (addr + 96) i)) [0..7] slots"
  define s2 where "s2 = fold (\<lambda>i. slab_zero_desc (desc ?p i)) [0..m - 1] (s1\<lparr>sl_pages := ?p\<rparr>)"
  define start where "start = (?p + m * 24 + 4095) div 4096 * 4096"
  have m: "0 \<le> m" "m < 2147483648" "m * 4120 \<le> sz - 288" using sz by (simp_all add: m_def)
  have n: "n = min m ((addr + sz - start) div 4096)" by (simp add: n_def init_pages_def Let_def m_def start_def)
  have fit: "0 < n" "start + n * 4096 \<le> addr + sz" "?p + m * 24 \<le> start" "start < ?p + m * 24 + 4096"
    using init_pages_fit [of ?p "addr + sz"] sz div_mult_bounds [of 4096 "?p + m * 24"]
    by (simp_all add: n_def m_def start_def)
  have s1: "sl_base s1 = addr" "sl_end s1 = addr + sz" "sl_min_shift s1 = 3"
    using init_slots_eq_off [of "addr + 96" "[0..7]" slots]
    by (simp_all only: s1_def slab_eq_off_def) (simp_all add: slots_def slab_at_def)
  have s2: "sl_base s2 = addr" "sl_end s2 = addr + sz" "sl_pages s2 = ?p"
    using zero_descs_eq_off [of ?p "[0..m - 1]" "s1\<lparr>sl_pages := ?p\<rparr>"] zero_descs_end [of ?p "[0..m - 1]" "s1\<lparr>sl_pages := ?p\<rparr>"] s1
    by (simp_all add: s2_def slab_eq_off_def)
  have al: "hcore_align_ptr (?p + m * 24) 4096 = start"
    using hcore_align_ptr_power [of "?p + m * 24" 12] m a sz by (simp add: start_def)
  have "t = s2\<lparr>pg_slab := (pg_slab s2)(?h := 0, ?p := n), pg_prev := (pg_prev s2)(?h := 0, ?p := ?h),
      pg_next := (pg_next s2)(?h := ?p, ?p := ?h), sl_start := start, sl_last := desc ?p n, sl_pfree := n\<rparr>"
  proof -
    have e1: "(slab_at addr sz)\<lparr>sl_min_size := push_bit (nat (sl_min_shift (slab_at addr sz))) 1\<rparr> = slots"
      by (simp add: slots_def slab_at_def)
    have e2: "hcore_slab_get_slots slots = addr + 96" "u32 (11 - sl_min_shift slots) = 8" "(8::int) - 1 = 7"
      "addr + 96 + 8 * 24 = ?p" by (simp_all add: slots_def slab_at_def hcore_slab_get_slots_def u32_id)
    have e3: "u32 (u64 (sl_end s1 - ?p) div (4096 + 24)) = m" using sz m s1 by (simp add: m_def u64_id u32_id)
    define k where "k = (addr + sz - start) div 4096"
    have small: "w < 4398046511104 \<Longrightarrow> w div 4096 < 2147483648" for w :: int by presburger
    have "addr + sz - start < 4398046511104" using fit sz m by linarith
    then have k: "0 \<le> k" "k < 2147483648" "n = min m k" using fit n small by (simp_all add: k_def)
    have "cdiv (addr + sz - start) 4096 = k" using fit by (simp add: cdiv_def k_def sgn_if)
    then have gap: "i32 (m - cdiv (addr + sz - start) 4096) = m - k" "u32 (m - (m - k)) = k"
      using k m i32_id [of "m - k"] u32_id [of k] by simp_all
    show ?thesis
      unfolding t_def hcore_slab_init_def Let_def e1 z e2 s1_def [symmetric] e3 s2_def [symmetric]
      using s2 gap k(3) by (intro slab.equality) (simp_all add: slab_sets slab_free_head_def al)
  qed
  moreover have "n \<le> m" "4096 dvd start" using n by (simp_all add: start_def)
  ultimately show "free_runs t [(0, n)]" "0 < n" "sl_pages t = addr + 288" "addr + 288 + 24 * n \<le> sl_start t"
    "sl_start t + 4096 * n \<le> addr + sz" "4096 dvd sl_start t"
    using fit m(2) s2
    by (simp_all add: free_runs_def run_ok_def slab_free_head_def desc_def)
qed

subsection \<open>Freeing next to free pages\<close>

text \<open>Two pages, the first free and the second in use. When the second is freed the two are joined, but the
  descriptor that heads the joined run is left with 0 pages: the counter says 2, and not one page can be
  allocated.\<close>

definition two_pages :: slab where
  "two_pages =
     \<lparr>sl_base = 0, sl_min_shift = 3, sl_min_size = 8, sl_pages = 1000, sl_last = 1048, sl_pfree = 1, sl_start = 4096,
      sl_end = 12288, pg_slab = (\<lambda>_. 0)(1000 := 1, 1024 := 1 OR HCORE_SLAB_PAGE_START), pg_prev = (\<lambda>_. 0)(1000 := 40),
      pg_next = (\<lambda>_. 0)(40 := 1000, 1000 := 40), wd = \<lambda>_. 0\<rparr>"

lemma two_pages_runs: "free_runs two_pages [(0, 1)]"
  by (simp add: free_runs_def two_pages_def slab_free_head_def run_ok_def desc_def)

lemma free_next_to_free_loses:
  defines "t \<equiv> hcore_slab_free_pages 1024 1 two_pages"
  shows "sl_pfree t = 2" and "hcore_slab_alloc_pages 1 t = Some (0, t)"
proof -
  have t: "sl_pfree t = 2 \<and> sl_base t = 0 \<and> pg_next t 40 = 1000 \<and> pg_next t 1000 = 40 \<and> pg_slab t 1000 = 0"
    unfolding t_def
    by (simp add: hcore_slab_free_pages_def slab_join_next_def slab_join_prev_def hcore_slab_remove_full_page_def
        hcore_slab_get_page_type_def hcore_slab_get_page_prev_def slab_unlink_def slab_sets two_pages_def
        slab_free_head_def desc_def Let_def u32_id i32_id u64_id)
  then show "sl_pfree t = 2" by simp
  have "slab_find_run t 1 (pg_next t (slab_free_head t)) = Some None"
    using t by (simp add: slab_free_head_def) (subst slab_find_run.simps, simp add: slab_free_head_def,
      subst slab_find_run.simps, simp add: slab_free_head_def)
  then show "hcore_slab_alloc_pages 1 t = Some (0, t)" by (simp add: hcore_slab_alloc_pages_def)
qed

end
