(* ===== verification/HShpool.thy ===== *)
theory HShpool
  imports HSlabRun
begin

section \<open>Pools in shared memory (src/hcore_shpool.c)\<close>

text \<open>
  hcore_shpool_t is the descriptor a process has of a pool; the slab allocator is in the memory it maps.
  The calls that lock are given the word of the lock, and run with no other process moving: a word that
  is not 0 is waited for without end (the interleavings are those of HShmtx).
\<close>

subsection \<open>Creating, opening and destroying\<close>

record shpool =
  shp_addr :: int
  shp_size :: int
  shp_mutex :: shmtx
  shp_name :: "byte list option"
  shp_create :: bool

definition shpool_zero :: shpool where
  "shpool_zero = \<lparr>shp_addr = 0, shp_size = 0, shp_mutex = \<lparr>m_lock = None, m_spin = 0\<rparr>, shp_name = None, shp_create = False\<rparr>"

abbreviation (input) MAP_FAILED :: int where "MAP_FAILED \<equiv> -1"

text \<open>The end of both functions after an error: also the one that did not create the object unlinks it.\<close>

definition shpool_undo :: "shpool \<Rightarrow> int \<Rightarrow> byte list option \<Rightarrow> sysenv \<Rightarrow> sysenv" where
  "shpool_undo sh fd name e =
     (let e = (if shp_addr sh \<noteq> MAP_FAILED then snd (snd (sys_call (Munmap (shp_addr sh) (shp_size sh)) e)) else e)
      in if fd \<noteq> -1 then snd (snd (sys_call (ShmUnlink (case name of Some n \<Rightarrow> n | None \<Rightarrow> []))
                                     (snd (snd (sys_call (Close fd) e)))))
         else e)"

text \<open>The mutex is made over the first word of the mapped memory.\<close>

definition shpool_fill :: "shpool \<Rightarrow> byte list option \<Rightarrow> int \<Rightarrow> bool \<Rightarrow> int \<times> shpool" where
  "shpool_fill sh name sz create =
     (let sh = sh\<lparr>shp_name := name, shp_size := sz, shp_create := create\<rparr> in
      case hcore_shmtx_init (Some (shp_mutex sh)) (Some (shp_addr sh)) of
        (r, Some m) \<Rightarrow> (r, sh\<lparr>shp_mutex := m\<rparr>)
      | (r, None) \<Rightarrow> (r, sh))"

text \<open>\<open>mem\<close> is whether the descriptor could be allocated. The memory of a new object is zero.\<close>

definition hcore_create_shpool :: "slab_sizes \<Rightarrow> bool \<Rightarrow> bool \<Rightarrow> byte list option \<Rightarrow> int \<Rightarrow> sysenv
    \<Rightarrow> (shpool \<times> slab) option \<times> sysenv" where
  "hcore_create_shpool z log mem name sz e =
     (if \<not> log \<or> sz = 0 \<or> \<not> mem then (None, e)
      else
        let sh = shpool_zero;
            (fd, e) = (case name of
                None \<Rightarrow> (-1, e)
              | Some n \<Rightarrow> (case sys_call (ShmOpen n (O_RDWR OR O_CREAT OR O_TRUNC)) e of (fd, err, e) \<Rightarrow> (fd, e)))
        in if name \<noteq> None \<and> fd = -1 then (None, shpool_undo sh fd name e)
           else
             let sz = max sz (push_bit 3 (z_page z));
                 e = (if fd \<noteq> -1 then snd (snd (sys_call (Ftruncate fd sz) e)) else e);
                 (addr, err, e) = sys_call (Mmap sz fd) e;
                 sh = sh\<lparr>shp_addr := addr\<rparr>
             in if addr = MAP_FAILED then (None, shpool_undo sh fd name e)
                else
                  let (r, sh) = shpool_fill sh name sz True in
                  if r \<noteq> HCORE_OK then (None, shpool_undo sh fd name e)
                  else (Some (sh, hcore_slab_init z (slab_at addr sz)),
                        if fd \<noteq> -1 then snd (snd (sys_call (Close fd) e)) else e))"

text \<open>The answer of fstat is the size of the object.\<close>

definition hcore_get_shpool :: "bool \<Rightarrow> bool \<Rightarrow> byte list option \<Rightarrow> sysenv \<Rightarrow> shpool option \<times> sysenv" where
  "hcore_get_shpool log mem name e = (case name of
      None \<Rightarrow> (None, e)
    | Some n \<Rightarrow>
        if \<not> log \<or> \<not> mem then (None, e)
        else
          let sh = shpool_zero;
              (fd, err, e) = sys_call (ShmOpen n O_RDWR) e
          in if fd = -1 then (None, shpool_undo sh fd name e)
             else
               let (sz, err, e) = sys_call (Fstat fd) e in
               if sz = -1 then (None, shpool_undo sh fd name e)
               else
                 let (addr, err, e) = sys_call (Mmap sz fd) e;
                     sh = sh\<lparr>shp_addr := addr\<rparr>
                 in if addr = MAP_FAILED then (None, shpool_undo sh fd name e)
                    else
                      let (r, sh) = shpool_fill sh name sz False in
                      if r \<noteq> HCORE_OK then (None, shpool_undo sh fd name e)
                      else (Some sh, snd (snd (sys_call (Close fd) e))))"

definition hcore_destroy_shpool :: "shpool option \<Rightarrow> sysenv \<Rightarrow> sysenv" where
  "hcore_destroy_shpool shpool e = (case shpool of
      None \<Rightarrow> e
    | Some sh \<Rightarrow>
        let e = snd (snd (sys_call (Munmap (shp_addr sh) (shp_size sh)) e)) in
        (case shp_name sh of
           Some n \<Rightarrow> if shp_create sh then snd (snd (sys_call (ShmUnlink n) e)) else e
         | None \<Rightarrow> e))"

subsection \<open>Allocating and freeing under the lock\<close>

text \<open>hcore_shmtx_lock from its first load to the return, run alone.\<close>

partial_function (option) lock_alone :: "int \<Rightarrow> int \<Rightarrow> mtx_pc \<Rightarrow> int \<Rightarrow> int option" where
  "lock_alone spin pid pc lock =
     (if pc = Held then Some lock
      else case lock_step spin pid pc lock of (pc, lock) \<Rightarrow> lock_alone spin pid pc lock)"

text \<open>Both tests for null join the null pointer with the null size, so a null pool alone is used.\<close>

definition hcore_shpool_alloc :: "slab_sizes \<Rightarrow> int \<Rightarrow> shpool option \<Rightarrow> int \<Rightarrow> int \<Rightarrow> slab
    \<Rightarrow> (int run \<times> int \<times> slab) option" where
  "hcore_shpool_alloc z pid shpool sz lock s = (case shpool of
      None \<Rightarrow> Some (if sz = 0 then Ret 0 else Fault, lock, s)
    | Some sh \<Rightarrow>
        (case lock_alone (m_spin (shp_mutex sh)) pid LLoad lock of
           None \<Rightarrow> None
         | Some lock \<Rightarrow>
             (case hcore_slab_alloc_locked z sz s of
                None \<Rightarrow> None
              | Some (p, s) \<Rightarrow> Some (p, snd (unlock_step pid lock), s))))"

definition hcore_shpool_alloc_locked :: "slab_sizes \<Rightarrow> shpool option \<Rightarrow> int \<Rightarrow> slab \<Rightarrow> (int run \<times> slab) option" where
  "hcore_shpool_alloc_locked z shpool sz s = (case shpool of
      None \<Rightarrow> Some (Fault, s)
    | Some sh \<Rightarrow> hcore_slab_alloc_locked z sz s)"

text \<open>The bytes of the block are zeroed, which includes the words of the bitmaps that lie in it.\<close>

definition zero_bytes :: "int \<Rightarrow> int \<Rightarrow> slab \<Rightarrow> slab" where
  "zero_bytes p n s = s\<lparr>wd := \<lambda>a. if p \<le> a \<and> a + 8 \<le> p + n then 0 else wd s a\<rparr>"

definition hcore_shpool_calloc :: "slab_sizes \<Rightarrow> int \<Rightarrow> shpool option \<Rightarrow> int \<Rightarrow> int \<Rightarrow> slab
    \<Rightarrow> (int run \<times> int \<times> slab) option" where
  "hcore_shpool_calloc z pid shpool sz lock s = (case hcore_shpool_alloc z pid shpool sz lock s of
      Some (Ret p, lock, s) \<Rightarrow> Some (Ret p, lock, if p \<noteq> 0 then zero_bytes p sz s else s)
    | r \<Rightarrow> r)"

definition hcore_shpool_free :: "slab_sizes \<Rightarrow> int \<Rightarrow> shpool option \<Rightarrow> int \<Rightarrow> int \<Rightarrow> slab
    \<Rightarrow> (unit run \<times> int \<times> slab) option" where
  "hcore_shpool_free z pid shpool p lock s = (case shpool of
      None \<Rightarrow> Some (if p = 0 then Ret () else Fault, lock, s)
    | Some sh \<Rightarrow>
        (case lock_alone (m_spin (shp_mutex sh)) pid LLoad lock of
           None \<Rightarrow> None
         | Some lock \<Rightarrow> Some (Ret (), snd (unlock_step pid lock), hcore_slab_free_locked z p s)))"

definition hcore_shpool_free_locked :: "slab_sizes \<Rightarrow> shpool option \<Rightarrow> int \<Rightarrow> slab \<Rightarrow> unit run \<times> slab" where
  "hcore_shpool_free_locked z shpool p s = (case shpool of
      None \<Rightarrow> (Fault, s)
    | Some sh \<Rightarrow> (Ret (), hcore_slab_free_locked z p s))"

subsection \<open>Large blocks\<close>

lemma lock_alone_free: "pid \<noteq> 0 \<Longrightarrow> lock_alone spin pid LLoad 0 = Some pid"
  by (subst lock_alone.simps, simp, subst lock_alone.simps, simp add: hcore_atomic_cmp_set_def, subst lock_alone.simps, simp)

lemma unlock_own: "snd (unlock_step pid pid) = 0"
  by (simp add: unlock_step_def hcore_atomic_cmp_set_def)

lemma first_fit_none_small: "first_fit n rs = None \<Longrightarrow> \<forall>r \<in> set rs. snd r < n"
  by (induction n rs rule: first_fit.induct) (auto split: if_splits)

definition block_taken :: "slab_sizes \<Rightarrow> int \<Rightarrow> slab \<Rightarrow> (int \<times> int) list \<Rightarrow> int \<Rightarrow> slab \<Rightarrow> (int \<times> int) list \<Rightarrow> bool" where
  "block_taken z sz s rs p t qs =
     (let n = pages_for z sz; u = 2 ^ nat (z_page_shift z); i = (p - sl_start s) div u in
      p = sl_start s + u * i \<and> p + sz \<le> sl_start s + u * (i + n)
      \<and> {i..<i + n} \<subseteq> units rs \<and> units qs = units rs - {i..<i + n} \<and> sl_pfree t = sl_pfree s - n)"

lemma block_takenI:
  assumes "2 ^ nat (z_page_shift z) dvd z_page z" and "0 \<le> sz" and "0 < pages_for z sz"
    and "first_fit (pages_for z sz) rs = Some (i, qs)" and "free_runs s rs" and "sl_pfree t = sl_pfree s - pages_for z sz"
  shows "block_taken z sz s rs (push_bit (nat (z_page_shift z)) i + sl_start s) t qs"
proof -
  have "sorted_wrt runs_apart rs" "\<forall>r \<in> set rs. 0 < snd r" using assms(5) by (auto simp: free_runs_def run_ok_def)
  note units = first_fit_units [OF assms(4,3) this]
  have "sz \<le> 2 ^ nat (z_page_shift z) * pages_for z sz" using pages_for_enough [OF assms(1,2)] by (simp add: mult.commute)
  then show ?thesis using units assms(6)
    by (simp add: block_taken_def Let_def push_bit_eq_mult distrib_left mult.commute)
qed


text \<open>The sizes of a system whose pages have 4096 bytes: the shifts are one too small.\<close>

definition sizes_4096 :: slab_sizes where
  "sizes_4096 = \<lparr>z_page = 4096, z_page_shift = 11, z_max = 2048, z_exact = 64, z_exact_shift = 5\<rparr>"

lemma slab_sizes_4096: "slab_sizes_of 4096 gvars_init = sizes_4096"
proof -
  have "shift_loop 4096 (-1) = 11" "shift_loop 64 (-1) = 5" using shift_loop_power [of 12 "-1"] shift_loop_power [of 6 "-1"] by simp_all
  then show ?thesis
    by (simp add: slab_sizes_of_def sizes_4096_def hcore_getpagesize_shift_def hcore_getpagesize_def hcore_get_slab_exact_size_def
        hcore_get_slab_exact_shift_def hcore_get_slab_max_size_def hcore_init_slab_def gvars_init_def Let_def)
qed

definition sample_slab :: slab where
  "sample_slab = hcore_slab_init sizes_4096 (slab_at 4096 32768)"

lemma sample_slab_run:
  "free_runs sample_slab [(0, 7)]" "sl_pages sample_slab = 4384"
proof -
  have "init_pages (4096 + 288) (4096 + 32768) = 7" by (simp add: init_pages_def)
  then show "free_runs sample_slab [(0, 7)]" "sl_pages sample_slab = 4384"
    using hcore_slab_init_one_run [of sizes_4096 4096 32768] by (simp_all add: sample_slab_def sizes_4096_def)
qed


subsection \<open>What the other paths do\<close>

text \<open>The search in a page of exact chunks does not end if the first chunk is in use.\<close>

lemma exact_scan_no_end: "w AND m \<noteq> 0 \<Longrightarrow> slab_exact_scan w m b = None"
proof -
  have "w AND m \<noteq> 0 \<longrightarrow> \<not> P" if "slab_exact_scan w m b = Some r" for r P
    by (rule slab_exact_scan.raw_induct [where P = "\<lambda>w m b r. w AND m \<noteq> 0 \<longrightarrow> \<not> P", OF _ that]) (auto split: if_splits)
  then show "w AND m \<noteq> 0 \<Longrightarrow> slab_exact_scan w m b = None" by (cases "slab_exact_scan w m b") auto
qed

text \<open>A page of small chunks with a clear bit in its first word gives the address of its own bitmap, whatever
  the chunk is.\<close>

lemma slab_small_gives_bitmap:
  assumes "wd s (hcore_slab_get_page_addr s page (z_page_shift z)) \<noteq> HCORE_SLAB_BUSY" and "0 < drop_bit (nat shift) (z_page z) div 64"
    and "first_clear (wd s (hcore_slab_get_page_addr s page (z_page_shift z))) [0..<64] = Some b"
  shows "\<exists>t. slab_small z shift page s = Some (hcore_slab_get_page_addr s page (z_page_shift z), t)"
proof -
  have "[0..drop_bit (nat shift) (z_page z) div 64 - 1] = 0 # [1..drop_bit (nat shift) (z_page z) div 64 - 1]"
    using assms(2) upto_rec1 [of 0 "drop_bit (nat shift) (z_page z) div 64 - 1"] by simp
  then show ?thesis using assms by (simp add: slab_small_def Let_def u32_id)
qed

text \<open>A page of large chunks gives its own address, whatever the chunk is.\<close>

lemma slab_big_gives_page:
  "slab_big z shift page s = Some (p, t) \<Longrightarrow> p = hcore_slab_get_page_addr t page (z_page_shift z)"
  by (auto simp: slab_big_def Let_def split: option.splits)

text \<open>Freeing shifts by the page size: with pages of 4096 bytes the descriptor is the one whose number is the offset.\<close>

lemma free_takes_offset_for_page:
  assumes "z_page z = 4096" and "sl_start s \<le> p" and "p \<le> sl_end s" and "p - sl_start s < 4294967296"
    and "hcore_slab_get_page_type (desc (sl_pages s) (p - sl_start s)) s = HCORE_SLAB_PAGE"
  shows "hcore_slab_free_locked z p s = slab_free_run z (desc (sl_pages s) (p - sl_start s)) p s"
  using assms u32_id [of "p - sl_start s"] by (simp add: hcore_slab_free_locked_def Let_def)

text \<open>A pool that could not be opened is removed, though another process made it, and address 0 is unmapped.\<close>

lemma get_shpool_failure_unlinks:
  assumes "s_answers e = (3, 0) # (-1, err) # rest"
  shows "fst (hcore_get_shpool True True (Some n) e) = None"
    and "s_calls (snd (hcore_get_shpool True True (Some n) e))
      = s_calls e @ [ShmOpen n O_RDWR, Fstat 3, Munmap 0 0, Close 3, ShmUnlink n]"
  using assms by (cases rest; cases "tl rest"; cases "tl (tl rest)";
      auto simp: hcore_get_shpool_def shpool_undo_def sys_call_def shpool_zero_def Let_def split: list.splits)+

end
