(* ===== verification/HConnection.thy ===== *)
theory HConnection
  imports HBuf HInet HSys
begin

section \<open>Connections (src/hcore_connection.c, src/hcore_io.c)\<close>

text \<open>
  A connection has two events, of reading and of writing, whose flags its functions set. The kernel is the
  list of answers of HSys, with two additions: the address of the sender of each datagram (\<open>s_from\<close>), and the
  addresses of the bytes it took from the program, in their order (\<open>s_wire\<close>). What a call stores in the
  buffer of the caller is not modelled, only how much. The chain and its buffers are those of HBuf.
  \<open>Fault\<close> is a write or read outside an object, or the use of a value the code does not have.
\<close>

subsection \<open>Data\<close>

record hevent =
  ev_error :: bool
  ev_ready :: bool
  ev_active :: bool
  ev_closed :: bool
  ev_write :: bool
  ev_timer_set :: bool
  ev_timeout :: bool
  ev_eof :: bool
  ev_cancelable :: bool
  ev_deleted :: bool

record conn =
  c_fd :: int
  c_type :: int
  c_sockaddr :: "hcore_sockaddr option"
  c_socklen :: int
  c_addr_text :: "byte list \<times> int"
  c_rev :: hevent
  c_wev :: hevent
  c_sent_size :: int
  c_recv_size :: int
  c_shared :: bool
  c_pipe :: bool
  c_closed :: bool
  c_timeout :: bool
  c_error :: bool
  c_known :: bool
  c_bind_peer :: bool

record netenv = sysenv +
  s_from :: "(hcore_sockaddr \<times> int) list"
  s_wire :: "int list"

definition zero_event :: hevent where
  "zero_event = \<lparr>ev_error = False, ev_ready = False, ev_active = False, ev_closed = False, ev_write = False,
     ev_timer_set = False, ev_timeout = False, ev_eof = False, ev_cancelable = False, ev_deleted = False\<rparr>"

definition zero_conn :: conn where
  "zero_conn = \<lparr>c_fd = 0, c_type = 0, c_sockaddr = None, c_socklen = 0, c_addr_text = ([], 0), c_rev = zero_event,
     c_wev = zero_event, c_sent_size = 0, c_recv_size = 0, c_shared = False, c_pipe = False, c_closed = False,
     c_timeout = False, c_error = False, c_known = False, c_bind_peer = False\<rparr>"

abbreviation (input) EAGAIN :: int where "EAGAIN \<equiv> 11"

abbreviation (input) set_wev :: "(hevent \<Rightarrow> hevent) \<Rightarrow> conn \<Rightarrow> conn" where
  "set_wev f c \<equiv> c\<lparr>c_wev := f (c_wev c)\<rparr>"

abbreviation (input) set_rev :: "(hevent \<Rightarrow> hevent) \<Rightarrow> conn \<Rightarrow> conn" where
  "set_rev f c \<equiv> c\<lparr>c_rev := f (c_rev c)\<rparr>"

subsection \<open>Creating and destroying\<close>

abbreviation (input) HCORE_POOL_SIZE_DEFAULT :: int where "HCORE_POOL_SIZE_DEFAULT \<equiv> 16384"

abbreviation (input) sizeof_hcore_log_t :: int where "sizeof_hcore_log_t \<equiv> 64"

abbreviation (input) sizeof_hcore_connection_t :: int where "sizeof_hcore_connection_t \<equiv> 144"

abbreviation (input) sizeof_hcore_event_t :: int where "sizeof_hcore_event_t \<equiv> 80"

text \<open>The four blocks are of the log, the connection and its events; each failure destroys the pool. The result
  is the addresses of the blocks, the connection and its pool.\<close>

fun conn_blocks :: "int list \<Rightarrow> hpool \<Rightarrow> env \<Rightarrow> int list option \<times> hpool \<times> env" where
  "conn_blocks [] pool e = (Some [], pool, e)"
| "conn_blocks (n # ns) pool e =
     (case hcore_pnalloc pool n e of
        (None, pool, e) \<Rightarrow> (None, pool, e)
      | (Some p, pool, e) \<Rightarrow>
          (case conn_blocks ns pool e of (r, pool, e) \<Rightarrow> (map_option ((#) p) r, pool, e)))"

definition hcore_create_connection :: "int \<Rightarrow> int \<Rightarrow> env \<Rightarrow> (int list \<times> conn \<times> hpool) option \<times> env" where
  "hcore_create_connection sys fd e =
     (case hcore_create_pool sys HCORE_POOL_SIZE_DEFAULT e of
        (None, e) \<Rightarrow> (None, e)
      | (Some pool, e) \<Rightarrow>
          (case conn_blocks [sizeof_hcore_log_t, sizeof_hcore_connection_t, sizeof_hcore_event_t, sizeof_hcore_event_t] pool e of
             (None, pool, e) \<Rightarrow> (None, hcore_destroy_pool pool e)
           | (Some ps, pool, e) \<Rightarrow> (Some (ps, zero_conn\<lparr>c_fd := fd\<rparr>, pool), e)))"

definition hcore_destroy_connection :: "conn \<Rightarrow> hpool \<Rightarrow> netenv \<Rightarrow> env \<Rightarrow> netenv \<times> env" where
  "hcore_destroy_connection c pool n e =
     (let n = (if c_shared c then n else if c_fd c \<noteq> -1 then snd (snd (sys_call (Close (c_fd c)) n)) else n)
      in (n, hcore_destroy_pool pool e))"

subsection \<open>Sending and receiving\<close>

text \<open>The loops repeat an interrupted call.\<close>

function hcore_udp_send :: "int \<Rightarrow> conn \<Rightarrow> netenv \<Rightarrow> int \<times> conn \<times> netenv" where
  "hcore_udp_send sz c e =
     (case sys_call (Sendto (c_fd c) sz (c_socklen c)) e of (n, err, e') \<Rightarrow>
        if 0 \<le> n then
          if n \<noteq> sz then (HCORE_ERROR, set_wev (\<lambda>ev. ev\<lparr>ev_error := True\<rparr>) c, e')
          else (n, c\<lparr>c_sent_size := c_sent_size c + n\<rparr>, e')
        else if err = EAGAIN then (HCORE_AGAIN, set_wev (\<lambda>ev. ev\<lparr>ev_ready := False\<rparr>) c, e')
        else if err \<noteq> EINTR then (HCORE_ERROR, set_wev (\<lambda>ev. ev\<lparr>ev_error := True\<rparr>) c, e')
        else hcore_udp_send sz c e')"
  by auto

function hcore_tcp_send :: "int \<Rightarrow> conn \<Rightarrow> netenv \<Rightarrow> int \<times> conn \<times> netenv" where
  "hcore_tcp_send sz c e =
     (case sys_call (Send (c_fd c) sz 0) e of (n, err, e') \<Rightarrow>
        if 0 < n then
          let c = (if n < sz then set_rev (\<lambda>ev. ev\<lparr>ev_ready := False\<rparr>) c else c)
          in (n, c\<lparr>c_sent_size := c_sent_size c + n\<rparr>, e')
        else if n = 0 then (n, set_rev (\<lambda>ev. ev\<lparr>ev_ready := False\<rparr>) c, e')
        else if err = EAGAIN \<or> err = EINTR then
          let c = set_rev (\<lambda>ev. ev\<lparr>ev_ready := False\<rparr>) c
          in if err = EAGAIN then (HCORE_AGAIN, c, e') else hcore_tcp_send sz c e'
        else (HCORE_ERROR, set_rev (\<lambda>ev. ev\<lparr>ev_error := True\<rparr>) c, e'))"
  by auto

function hcore_tcp_recv :: "int \<Rightarrow> conn \<Rightarrow> netenv \<Rightarrow> int \<times> conn \<times> netenv" where
  "hcore_tcp_recv sz c e =
     (case sys_call (Recv (c_fd c) sz) e of (n, err, e') \<Rightarrow>
        if n = 0 then (0, set_rev (\<lambda>ev. ev\<lparr>ev_ready := False, ev_eof := True\<rparr>) c, e')
        else if 0 < n then (n, c, e')
        else if err = EAGAIN \<or> err = EINTR then
          let c = set_rev (\<lambda>ev. ev\<lparr>ev_ready := False\<rparr>) c
          in if err = EAGAIN then (HCORE_AGAIN, c, e') else hcore_tcp_recv sz c e'
        else (HCORE_ERROR, set_rev (\<lambda>ev. ev\<lparr>ev_error := True\<rparr>) c, e'))"
  by auto

lemma sys_call_shorter:
  "sys_call c e = (r, err, e') \<Longrightarrow> err \<noteq> 0 \<Longrightarrow> length (s_answers e') < length (s_answers e)"
  using sys_call_answers [of c e r err e'] sys_call_none [of e c r err e'] by (cases "s_answers e") auto

termination hcore_udp_send
  by (relation "measure (\<lambda>(sz, c, e). length (s_answers e))") (auto dest!: sys_call_shorter [OF sym])

termination hcore_tcp_send
  by (relation "measure (\<lambda>(sz, c, e). length (s_answers e))") (auto dest!: sys_call_shorter [OF sym])

termination hcore_tcp_recv
  by (relation "measure (\<lambda>(sz, c, e). length (s_answers e))") (auto dest!: sys_call_shorter [OF sym])

declare hcore_udp_send.simps [simp del] hcore_tcp_send.simps [simp del] hcore_tcp_recv.simps [simp del]

text \<open>The local address of hcore_udp_recv has the 16 bytes of \<open>struct sockaddr\<close>. A longer address that fits into
  the length passed runs over it; else the rest is cut. \<open>None\<close> is an address that is not (all) set.\<close>

definition sockaddr_16 :: "hcore_sockaddr \<Rightarrow> hcore_sockaddr" where
  "sockaddr_16 sa = (case sa of
      Sockaddr_in6 addr port \<Rightarrow> Sockaddr_in6 (take 8 addr @ replicate 8 0) port
    | Sockaddr_un path \<Rightarrow> Sockaddr_un (take 14 path)
    | sa \<Rightarrow> sa)"

definition recv_address :: "int \<Rightarrow> hcore_sockaddr \<times> int \<Rightarrow> hcore_sockaddr option \<Rightarrow> hcore_sockaddr option run" where
  "recv_address len from loc =
     (if 16 < min len (snd from) then Fault
      else if min len (snd from) = 0 then Ret loc
      else if len < 16 then Ret None
      else Ret (Some (sockaddr_16 (fst from))))"

definition sockaddr_family :: "hcore_sockaddr \<Rightarrow> int" where
  "sockaddr_family sa = (case sa of Sockaddr_in sin \<Rightarrow> sin_family sin | Sockaddr_in6 _ _ \<Rightarrow> AF_INET6
     | Sockaddr_un _ \<Rightarrow> AF_UNIX | Sockaddr_other family \<Rightarrow> family)"

definition next_from :: "netenv \<Rightarrow> (hcore_sockaddr \<times> int) \<times> netenv" where
  "next_from e = (case s_from e of [] \<Rightarrow> ((Sockaddr_other 0, 0), e) | f # fs \<Rightarrow> (f, e\<lparr>s_from := fs\<rparr>))"

text \<open>Binding the peer: \<open>Ret None\<close> goes on with the loop, \<open>Ret (Some r)\<close> returns \<open>r\<close>, where \<open>None\<close> stands for the
  number of bytes that were received.\<close>

definition bind_peer :: "'d dblops \<Rightarrow> (byte list \<Rightarrow> byte list option) \<Rightarrow> hcore_sockaddr option \<Rightarrow> int \<Rightarrow> conn \<Rightarrow> hpool \<Rightarrow> env
    \<Rightarrow> (int option option \<times> conn \<times> hpool \<times> env) run" where
  "bind_peer ops inet_ntop loc len c pool e =
     (case hcore_pcalloc pool len e of
        (None, pool, e) \<Rightarrow> Ret (None, c\<lparr>c_sockaddr := None\<rparr>, pool, e)
      | (Some p, pool, e) \<Rightarrow>
          if len < 16 then Fault
          else (case loc of
              None \<Rightarrow> Fault
            | Some sa \<Rightarrow>
                let c = c\<lparr>c_sockaddr := Some sa, c_socklen := len\<rparr>;
                    max_len = hcore_get_max_addr_len (sockaddr_family sa)
                in (case hcore_palloc pool max_len e of
                      (None, pool, e) \<Rightarrow> Ret (Some (Some HCORE_ERROR), c, pool, e)
                    | (Some d, pool, e) \<Rightarrow>
                        bind_run (hcore_sock_ntop ops inet_ntop sa (nat len) (nat max_len))
                          (\<lambda>t. Ret (Some None, c\<lparr>c_addr_text := t\<rparr>, pool, e)))))"

function udp_recv_loop :: "'d dblops \<Rightarrow> (byte list \<Rightarrow> byte list option) \<Rightarrow> int \<Rightarrow> hcore_sockaddr option \<Rightarrow> int \<Rightarrow> conn \<Rightarrow> hpool
    \<Rightarrow> env \<Rightarrow> netenv \<Rightarrow> (int \<times> conn \<times> hpool \<times> env \<times> netenv) run" where
  "udp_recv_loop ops inet_ntop sz loc len c pool m e =
     (case sys_call (Recvfrom (c_fd c) sz len) e of (n, err, e') \<Rightarrow>
        if 0 < n then
          (case next_from e' of (from, e2) \<Rightarrow>
             bind_run (recv_address len from loc) (\<lambda>loc.
               let len = snd from in
               if len = 0 \<and> c_known c then udp_recv_loop ops inet_ntop sz loc len c pool m e2
               else if c_bind_peer c \<and> c_socklen c = 0 then
                 bind_run (bind_peer ops inet_ntop loc len c pool m) (\<lambda>(r, c, pool, m).
                   case r of
                     None \<Rightarrow> udp_recv_loop ops inet_ntop sz loc len c pool m e2
                   | Some None \<Rightarrow> Ret (n, c, pool, m, e2)
                   | Some (Some v) \<Rightarrow> Ret (v, c, pool, m, e2))
               else Ret (n, c, pool, m, e2)))
        else if n = -1 then
          if err = EAGAIN then Ret (HCORE_AGAIN, set_rev (\<lambda>ev. ev\<lparr>ev_ready := False\<rparr>) c, pool, m, e')
          else if err = EINTR then udp_recv_loop ops inet_ntop sz loc len c pool m e'
          else Ret (HCORE_ERROR, set_rev (\<lambda>ev. ev\<lparr>ev_error := True\<rparr>) c, pool, m, e')
        else Ret (HCORE_ERROR, set_rev (\<lambda>ev. ev\<lparr>ev_eof := True\<rparr>) c, pool, m, e'))"
  by pat_completeness auto

lemma sys_call_answered:
  "sys_call c e = (r, err, e') \<Longrightarrow> 0 < r \<Longrightarrow> length (s_answers e') < length (s_answers e)"
  by (auto simp: sys_call_def Let_def split: list.splits)

lemma next_from_answers: "next_from e = (f, e') \<Longrightarrow> s_answers e' = s_answers e"
  by (auto simp: next_from_def split: list.splits)

lemma recv_shorter:
  "(n, y) = sys_call c e \<Longrightarrow> (err, e') = y \<Longrightarrow> 0 < n \<Longrightarrow> (from, e2) = next_from e' \<Longrightarrow> length (s_answers e2) < length (s_answers e)"
  using sys_call_answered [of c e n err e'] next_from_answers [of e' "from" e2] by simp

lemma intr_shorter:
  "(n, y) = sys_call c e \<Longrightarrow> (err, e') = y \<Longrightarrow> err = EINTR \<Longrightarrow> length (s_answers e') < length (s_answers e)"
  using sys_call_shorter [of c e n err e'] by simp

termination udp_recv_loop
  by (relation "measure (\<lambda>(ops, inet_ntop, sz, loc, len, c, pool, m, e). length (s_answers e))")
    (rule wf_measure, (simp (no_asm) only: in_measure prod.case, ((rule recv_shorter; assumption) | (rule intr_shorter; assumption)))+)

declare udp_recv_loop.simps [simp del]

definition hcore_udp_recv :: "'d dblops \<Rightarrow> (byte list \<Rightarrow> byte list option) \<Rightarrow> int \<Rightarrow> conn \<Rightarrow> hpool
    \<Rightarrow> env \<Rightarrow> netenv \<Rightarrow> (int \<times> conn \<times> hpool \<times> env \<times> netenv) run" where
  "hcore_udp_recv ops inet_ntop sz c pool m e =
     (let (loc, len) = (if c_bind_peer c \<and> c_socklen c \<noteq> 0 then (c_sockaddr c, c_socklen c) else (None, 16))
      in udp_recv_loop ops inet_ntop sz loc len c pool m e)"

subsection \<open>Sending a chain\<close>

text \<open>The vector of a chain: blocks (address, length), a buffer that goes on where the one before ends joined to
  its block. Before the first buffer the end is address 0; \<open>iov\<close> is then not set.\<close>

partial_function (option) iovec_loop :: "nat \<Rightarrow> cstate \<Rightarrow> int option \<Rightarrow> (int \<times> int) list \<Rightarrow> int \<Rightarrow> int
    \<Rightarrow> (int option \<times> (int \<times> int) list \<times> int) run option" where
  "iovec_loop nalloc s out vec prev_last size_n =
     (case out of
        None \<Rightarrow> Some (Ret (None, vec, size_n))
      | Some cl \<Rightarrow>
          if length vec = nalloc then Some (Ret (out, vec, size_n))
          else (case cl_buf (cs_chains s cl) of
              None \<Rightarrow> Some Fault
            | Some b \<Rightarrow>
                let pos = b_pos (cs_bufs s b); sz = u64 (hcore_buf_get_size (cs_bufs s b)) in
                if prev_last = pos \<and> vec = [] then Some Fault
                else
                  let vec = (if prev_last = pos then butlast vec @ [(fst (last vec), u64 (snd (last vec) + sz))]
                             else vec @ [(pos, sz)])
                  in iovec_loop nalloc s (cl_next (cs_chains s cl)) vec (u64 (pos + sz)) (u64 (size_n + sz))))"

definition hcore_output_chain_to_iovec :: "nat \<Rightarrow> cstate \<Rightarrow> int option \<Rightarrow> (int option \<times> (int \<times> int) list \<times> int) run option" where
  "hcore_output_chain_to_iovec nalloc s out = iovec_loop nalloc s out [] 0 0"

definition iov_bytes :: "(int \<times> int) list \<Rightarrow> int list" where
  "iov_bytes vec = concat (map (\<lambda>(a, n). [a..a + n - 1]) vec)"

text \<open>The kernel takes as many bytes of the vector as it answers, at most all. An answer EAGAIN is asked again.\<close>

definition kernel_writev :: "int \<Rightarrow> (int \<times> int) list \<Rightarrow> netenv \<Rightarrow> int \<times> int \<times> netenv" where
  "kernel_writev fd vec e = (case sys_call (Writev fd vec) e of (n, err, e) \<Rightarrow>
     let n = max (-1) (min n (int (length (iov_bytes vec))))
     in (n, err, e\<lparr>s_wire := s_wire e @ take (nat n) (iov_bytes vec)\<rparr>))"

function hcore_writev :: "int \<Rightarrow> (int \<times> int) list \<Rightarrow> netenv \<Rightarrow> int \<times> int \<times> netenv" where
  "hcore_writev fd vec e =
     (case kernel_writev fd vec e of (n, err, e') \<Rightarrow>
        if n = -1 \<and> err = EAGAIN then hcore_writev fd vec e' else (n, err, e'))"
  by auto

lemma kernel_writev_shorter:
  "kernel_writev fd vec e = (n, err, e') \<Longrightarrow> err \<noteq> 0 \<or> 0 \<le> n \<Longrightarrow> length (s_answers e') < length (s_answers e)"
  by (cases "s_answers e") (auto simp: kernel_writev_def sys_call_def Let_def split: prod.splits)

termination hcore_writev
  by (relation "measure (\<lambda>(fd, vec, e). length (s_answers e))") (auto dest!: kernel_writev_shorter [OF sym])

declare hcore_writev.simps [simp del]

partial_function (option) update_chain_loop :: "int option \<Rightarrow> int \<Rightarrow> cstate \<Rightarrow> (int option \<times> cstate) run option" where
  "update_chain_loop out sent s =
     (case out of
        None \<Rightarrow> Some (Ret (None, s))
      | Some cl \<Rightarrow>
          (case cl_buf (cs_chains s cl) of
             None \<Rightarrow> Some Fault
           | Some b \<Rightarrow>
               let n = min sent (u64 (hcore_buf_get_size (cs_bufs s b)));
                   s = upd_buf b ((cs_bufs s b)\<lparr>b_pos := b_pos (cs_bufs s b) + n\<rparr>) s;
                   sent = sent - n
               in if sent = 0 then Some (Ret (out, s))
                  else update_chain_loop (cl_next (cs_chains s cl)) sent s))"

definition hcore_update_output_chain :: "int option \<Rightarrow> int \<Rightarrow> cstate \<Rightarrow> (int option \<times> cstate) run option" where
  "hcore_update_output_chain out sent s = (if sent = 0 then Some (Ret (out, s)) else update_chain_loop out sent s)"

datatype chain_result = Chain_error | Chain "int option"

partial_function (option) send_chain_loop :: "nat \<Rightarrow> int option \<Rightarrow> conn \<Rightarrow> cstate \<Rightarrow> netenv
    \<Rightarrow> (chain_result \<times> conn \<times> cstate \<times> netenv) run option" where
  "send_chain_loop nalloc out c s e =
     (case hcore_output_chain_to_iovec nalloc s out of
        None \<Rightarrow> None
      | Some Fault \<Rightarrow> Some Fault
      | Some (Ret (_, vec, size_n)) \<Rightarrow>
          (case hcore_writev (c_fd c) vec e of (n, err, e) \<Rightarrow>
             if n = -1 then
               if err \<noteq> EAGAIN then Some (Ret (Chain_error, set_wev (\<lambda>ev. ev\<lparr>ev_error := True\<rparr>) c, s, e))
               else Some (Ret (Chain out, c, s, e))
             else (case hcore_update_output_chain out n s of
                None \<Rightarrow> None
              | Some Fault \<Rightarrow> Some Fault
              | Some (Ret (out, s)) \<Rightarrow>
                  let c = c\<lparr>c_sent_size := c_sent_size c + n\<rparr> in
                  if size_n \<noteq> n then Some (Ret (Chain out, set_wev (\<lambda>ev. ev\<lparr>ev_ready := False\<rparr>) c, s, e))
                  else send_chain_loop nalloc out c s e)))"

definition hcore_tcp_send_chain :: "nat \<Rightarrow> int option \<Rightarrow> conn \<Rightarrow> cstate \<Rightarrow> netenv
    \<Rightarrow> (chain_result \<times> conn \<times> cstate \<times> netenv) run option" where
  "hcore_tcp_send_chain nalloc out c s e =
     (if \<not> ev_ready (c_wev c) then Some (Ret (Chain out, c, s, e)) else send_chain_loop nalloc out c s e)"

subsection \<open>The bytes of a chain are sent in order\<close>

definition buf_bytes :: "hbuf \<Rightarrow> int list" where
  "buf_bytes b = [b_pos b..b_last b - 1]"

definition node_buf :: "cstate \<Rightarrow> int \<Rightarrow> int" where
  "node_buf s cl = the (cl_buf (cs_chains s cl))"

definition chain_bytes :: "cstate \<Rightarrow> int list \<Rightarrow> int list" where
  "chain_bytes s xs = concat (map (\<lambda>cl. buf_bytes (cs_bufs s (node_buf s cl))) xs)"

definition node_ok :: "cstate \<Rightarrow> int \<Rightarrow> bool" where
  "node_ok s cl = (\<exists>b. cl_buf (cs_chains s cl) = Some b \<and> 0 < b_pos (cs_bufs s b) \<and> b_pos (cs_bufs s b) \<le> b_last (cs_bufs s b)
     \<and> b_last (cs_bufs s b) < 18446744073709551616)"

definition chain_ok :: "cstate \<Rightarrow> int option \<Rightarrow> int list \<Rightarrow> bool" where
  "chain_ok s out xs =
     (chain_path (cs_chains s) out xs \<and> (\<forall>cl \<in> set xs. node_ok s cl) \<and> distinct (map (node_buf s) xs)
      \<and> length (chain_bytes s xs) < 18446744073709551616)"

lemma chain_bytes_simps [simp]:
  "chain_bytes s [] = []"
  "chain_bytes s (cl # xs) = buf_bytes (cs_bufs s (node_buf s cl)) @ chain_bytes s xs"
  by (simp_all add: chain_bytes_def)

lemma upto_join: "a \<le> b \<Longrightarrow> b \<le> c \<Longrightarrow> [a..b - 1] @ [b..c - 1] = [a..c - (1::int)]"
  using upto_split1 [of a b "c - 1"] by (cases "b = c") auto

lemma upto_drop: "0 \<le> n \<Longrightarrow> a + n \<le> b \<Longrightarrow> [a + n..b - 1] = drop (nat n) [a..b - (1::int)]"
proof -
  assume a: "0 \<le> n" "a + n \<le> b"
  then have "[a..b - 1] = [a..a + n - 1] @ [a + n..b - 1]" using upto_join [of a "a + n" b] by simp
  moreover have "length [a..a + n - 1] = nat n" using a by simp
  ultimately show ?thesis by (metis append_eq_conv_conj)
qed

lemma iov_bytes_append [simp]: "iov_bytes (xs @ ys) = iov_bytes xs @ iov_bytes ys"
  by (simp add: iov_bytes_def)

lemma iov_bytes_single [simp]: "iov_bytes [(a, n)] = [a..a + n - 1]"
  by (simp add: iov_bytes_def)

lemma iov_bytes_nil [simp]: "iov_bytes [] = []"
  by (simp add: iov_bytes_def)

text \<open>What the loop has made so far: the end of the last block is the end of the last buffer.\<close>

definition vec_ok :: "(int \<times> int) list \<Rightarrow> int \<Rightarrow> bool" where
  "vec_ok vec prev_last = (if vec = [] then prev_last = 0
     else 0 < fst (last vec) \<and> 0 \<le> snd (last vec) \<and> prev_last = fst (last vec) + snd (last vec))"

lemma vec_join:
  assumes "vec_ok vec p" and "vec \<noteq> []" and "0 \<le> n" and "p + n < 18446744073709551616"
  defines "w \<equiv> butlast vec @ [(fst (last vec), u64 (snd (last vec) + n))]"
  shows "vec_ok w (p + n)" and "iov_bytes w = iov_bytes vec @ [p..p + n - 1]" and "length w = length vec"
proof -
  obtain a k where l: "last vec = (a, k)" by (cases "last vec")
  have ak: "0 < a" "0 \<le> k" "p = a + k" using assms(1,2) l by (auto simp: vec_ok_def)
  have u: "u64 (k + n) = k + n" using ak assms(3,4) by (intro u64_id) auto
  then show "vec_ok w (p + n)" using ak l assms(3) by (simp add: vec_ok_def w_def)
  have "iov_bytes vec = iov_bytes (butlast vec) @ [a..a + k - 1]" using append_butlast_last_id [OF assms(2)] l
    by (metis iov_bytes_append iov_bytes_single)
  then show "iov_bytes w = iov_bytes vec @ [p..p + n - 1]"
    using u l ak assms(3) upto_join [of a "a + k" "a + (k + n)"] by (simp add: w_def add.assoc)
  show "length w = length vec" using assms(2) by (simp add: w_def)
qed

lemma vec_next:
  assumes "vec_ok vec p" and "0 < a" and "0 \<le> n" and "a + n < 18446744073709551616"
    and "w = (if p = a then butlast vec @ [(fst (last vec), u64 (snd (last vec) + n))] else vec @ [(a, n)])"
  shows "\<not> (p = a \<and> vec = [])" and "vec_ok w (a + n)" and "iov_bytes w = iov_bytes vec @ [a..a + n - 1]"
proof -
  show ne: "\<not> (p = a \<and> vec = [])" using assms(1,2) by (auto simp: vec_ok_def)
  have "vec_ok w (a + n) \<and> iov_bytes w = iov_bytes vec @ [a..a + n - 1]"
  proof (cases "p = a")
    case True
    then show ?thesis using vec_join [OF assms(1) _ assms(3)] ne assms(4,5) by simp
  next
    case False
    then have "w = vec @ [(a, n)]" using assms(5) by simp
    then show ?thesis using assms(2,3) by (simp add: vec_ok_def)
  qed
  then show "vec_ok w (a + n)" "iov_bytes w = iov_bytes vec @ [a..a + n - 1]" by auto
qed

lemma iovec_loop_correct:
  assumes "chain_path (cs_chains s) out xs" and "\<forall>cl \<in> set xs. node_ok s cl" and "vec_ok vec p"
    and "0 \<le> t" and "t + int (length (chain_bytes s xs)) < 18446744073709551616"
  shows "\<exists>ys zs out' vec'. xs = ys @ zs \<and> iovec_loop nalloc s out vec p t
      = Some (Ret (out', vec', t + int (length (chain_bytes s ys)))) \<and> iov_bytes vec' = iov_bytes vec @ chain_bytes s ys
      \<and> (length vec < nalloc \<longrightarrow> xs \<noteq> [] \<longrightarrow> ys \<noteq> [])"
  using assms
proof (induction xs arbitrary: out vec p t)
  case Nil
  then show ?case by (intro exI [of _ "[]"] exI [of _ None] exI [of _ vec]) (auto simp: iovec_loop.simps)
next
  case (Cons cl xs)
  show ?case
  proof (cases "length vec = nalloc")
    case True
    then show ?thesis using Cons.prems(1)
      by (intro exI [of _ "[]"] exI [of _ "cl # xs"] exI [of _ out] exI [of _ vec]) (auto simp: iovec_loop.simps)
  next
    case False
    let ?b = "cs_bufs s (node_buf s cl)"
    let ?n = "b_last ?b - b_pos ?b"
    have node: "cl_buf (cs_chains s cl) = Some (node_buf s cl)" "0 < b_pos ?b" "0 \<le> ?n" "b_last ?b < 18446744073709551616"
      using Cons.prems(2) by (auto simp: node_ok_def node_buf_def)
    have sz: "u64 (hcore_buf_get_size ?b) = ?n" "u64 (b_pos ?b + ?n) = b_last ?b" "int (length (buf_bytes ?b)) = ?n"
      using node by (auto simp: hcore_buf_get_size_def buf_bytes_def intro!: u64_id)
    define w where "w = (if p = b_pos ?b then butlast vec @ [(fst (last vec), u64 (snd (last vec) + ?n))] else vec @ [(b_pos ?b, ?n)])"
    have ne: "\<not> (p = b_pos ?b \<and> vec = [])" and w: "vec_ok w (b_last ?b)" "iov_bytes w = iov_bytes vec @ buf_bytes ?b"
      using vec_next [OF Cons.prems(3) node(2,3) _ w_def] node(4) by (simp_all add: buf_bytes_def)
    have step: "iovec_loop nalloc s out vec p t = iovec_loop nalloc s (cl_next (cs_chains s cl)) w (b_last ?b) (t + ?n)"
      using Cons.prems(1,4,5) False node(1) ne sz
      by (subst iovec_loop.simps) (auto simp: w_def Let_def u64_id)
    obtain ys zs out' vec' where "xs = ys @ zs" "iovec_loop nalloc s (cl_next (cs_chains s cl)) w (b_last ?b) (t + ?n)
      = Some (Ret (out', vec', t + ?n + int (length (chain_bytes s ys))))" "iov_bytes vec' = iov_bytes w @ chain_bytes s ys"
      using Cons.IH [of "cl_next (cs_chains s cl)" w "b_last ?b" "t + ?n"] Cons.prems w(1) node(3) sz(3) by auto
    then show ?thesis using step w(2) sz(3)
      by (intro exI [of _ "cl # ys"] exI [of _ zs] exI [of _ out'] exI [of _ vec']) (auto simp: add.assoc)
  qed
qed

lemma upd_buf_fields [simp]:
  "cs_chains (upd_buf b v s) = cs_chains s" "cs_bufs (upd_buf b v s) = (cs_bufs s)(b := v)"
  "node_buf (upd_buf b v s) = node_buf s"
  by (simp_all add: upd_buf_def node_buf_def fun_eq_iff)

lemma chain_bytes_upd: "b \<notin> node_buf s ` set xs \<Longrightarrow> chain_bytes (upd_buf b v s) xs = chain_bytes s xs"
  by (auto simp: chain_bytes_def intro!: arg_cong [of _ _ concat])

lemma node_ok_upd: "b \<noteq> node_buf s cl \<Longrightarrow> node_ok (upd_buf b v s) cl = node_ok s cl"
  by (auto simp: node_ok_def node_buf_def)

lemma chain_ok_upd: "chain_ok s out xs \<Longrightarrow> b \<notin> node_buf s ` set xs \<Longrightarrow> chain_ok (upd_buf b v s) out xs"
  unfolding chain_ok_def using node_ok_upd [of b s] by (auto simp: chain_bytes_upd image_iff)

lemma update_chain_loop_correct:
  assumes "chain_ok s out xs" and "0 < n" and "n \<le> int (length (chain_bytes s xs))"
  shows "\<exists>out' t zs. update_chain_loop out n s = Some (Ret (out', t)) \<and> chain_ok t out' zs
    \<and> chain_bytes t zs = drop (nat n) (chain_bytes s xs)"
  using assms
proof (induction xs arbitrary: out n s)
  case Nil
  then show ?case by simp
next
  case (Cons cl xs)
  let ?i = "node_buf s cl"
  let ?b = "cs_bufs s ?i"
  let ?k = "b_last ?b - b_pos ?b"
  have node: "out = Some cl" "cl_buf (cs_chains s cl) = Some ?i" "0 < b_pos ?b" "0 \<le> ?k" "b_last ?b < 18446744073709551616"
    using Cons.prems(1) by (auto simp: chain_ok_def node_ok_def node_buf_def)
  have sz: "u64 (hcore_buf_get_size ?b) = ?k" "int (length (buf_bytes ?b)) = ?k"
    using node by (auto simp: hcore_buf_get_size_def buf_bytes_def intro!: u64_id)
  have rest: "chain_ok s (cl_next (cs_chains s cl)) xs" "?i \<notin> node_buf s ` set xs"
    using Cons.prems(1) by (auto simp: chain_ok_def)
  define m where "m = min n ?k"
  define t where "t = upd_buf ?i (?b\<lparr>b_pos := b_pos ?b + m\<rparr>) s"
  have step: "update_chain_loop out n s = (if n - m = 0 then Some (Ret (out, t)) else update_chain_loop (cl_next (cs_chains s cl)) (n - m) t)"
    using node(1,2) sz(1) by (subst update_chain_loop.simps) (simp add: m_def t_def Let_def)
  show ?case
  proof (cases "n \<le> ?k")
    case True
    then have m: "m = n" by (simp add: m_def)
    have here: "buf_bytes (?b\<lparr>b_pos := b_pos ?b + n\<rparr>) = drop (nat n) (buf_bytes ?b)"
      using upto_drop [of n "b_pos ?b" "b_last ?b"] Cons.prems(2) True by (simp add: buf_bytes_def)
    have bytes: "chain_bytes t (cl # xs) = drop (nat n) (chain_bytes s (cl # xs))"
      using here sz(2) True rest(2) by (simp add: t_def m chain_bytes_upd)
    have "chain_ok t out (cl # xs)"
      using Cons.prems(1) rest bytes True node Cons.prems(2) chain_ok_upd [OF rest]
      by (auto simp: chain_ok_def t_def m node_ok_def [of _ cl])
    then show ?thesis using step m bytes by auto
  next
    case False
    then have m: "m = ?k" by (simp add: m_def)
    have ok: "chain_ok t (cl_next (cs_chains s cl)) xs" unfolding t_def by (rule chain_ok_upd [OF rest])
    have bytes: "chain_bytes t xs = chain_bytes s xs" using rest(2) by (simp add: t_def chain_bytes_upd)
    obtain out' u zs where "update_chain_loop (cl_next (cs_chains s cl)) (n - ?k) t = Some (Ret (out', u))" "chain_ok u out' zs"
      "chain_bytes u zs = drop (nat (n - ?k)) (chain_bytes s xs)"
      using Cons.IH [OF ok, of "n - ?k"] False Cons.prems(3) sz(2) bytes by auto
    moreover have "nat (n - ?k) = nat n - length (buf_bytes ?b)" "length (buf_bytes ?b) \<le> nat n"
      using sz(2) False node(4) by linarith+
    ultimately show ?thesis using step m False by (intro exI [of _ out'] exI [of _ u] exI [of _ zs]) auto
  qed
qed

lemma update_output_chain_correct:
  assumes "chain_ok s out xs" and "0 \<le> n" and "n \<le> int (length (chain_bytes s xs))"
  shows "\<exists>out' t zs. hcore_update_output_chain out n s = Some (Ret (out', t)) \<and> chain_ok t out' zs
    \<and> chain_bytes t zs = drop (nat n) (chain_bytes s xs)"
proof (cases "n = 0")
  case True
  then show ?thesis using assms(1) by (auto simp: hcore_update_output_chain_def)
next
  case False
  then show ?thesis using update_chain_loop_correct [OF assms(1)] assms(2,3) by (simp add: hcore_update_output_chain_def)
qed

lemma writev_result:
  "hcore_writev fd vec e = (n, err, e') \<Longrightarrow> n = -1 \<and> err \<noteq> EAGAIN \<and> s_wire e' = s_wire e
    \<or> 0 \<le> n \<and> n \<le> int (length (iov_bytes vec)) \<and> s_wire e' = s_wire e @ take (nat n) (iov_bytes vec)
      \<and> length (s_answers e') < length (s_answers e)"
proof (induction fd vec e rule: hcore_writev.induct)
  case (1 fd vec e)
  obtain m err1 e1 where k: "kernel_writev fd vec e = (m, err1, e1)" by (metis prod_cases3)
  have m: "m = -1 \<and> s_wire e1 = s_wire e \<or> 0 \<le> m \<and> m \<le> int (length (iov_bytes vec)) \<and> s_wire e1 = s_wire e @ take (nat m) (iov_bytes vec)"
    using k by (auto simp: kernel_writev_def sys_call_def Let_def split: list.splits)
  show ?case
  proof (cases "m = -1 \<and> err1 = EAGAIN")
    case True
    then have "hcore_writev fd vec e1 = (n, err, e')" using 1(2) k by (simp add: hcore_writev.simps [of fd vec e])
    moreover have "length (s_answers e1) < length (s_answers e)" using kernel_writev_shorter [OF k] True by simp
    ultimately show ?thesis using 1(1) [OF k [symmetric] refl True] m True by auto
  next
    case False
    then show ?thesis using 1(2) k m kernel_writev_shorter [OF k] by (auto simp: hcore_writev.simps [of fd vec e])
  qed
qed

definition sent_upto :: "nat \<Rightarrow> cstate \<Rightarrow> int list \<Rightarrow> conn \<Rightarrow> netenv \<Rightarrow> chain_result \<times> conn \<times> cstate \<times> netenv \<Rightarrow> bool" where
  "sent_upto k s xs c e res = (case res of (r, c', s', e') \<Rightarrow>
     s_wire e' = s_wire e @ take k (chain_bytes s xs) \<and> c_sent_size c' = c_sent_size c + int k
     \<and> (case r of
          Chain_error \<Rightarrow> k \<le> length (chain_bytes s xs) \<and> ev_error (c_wev c')
        | Chain out \<Rightarrow> k < length (chain_bytes s xs) \<and> \<not> ev_ready (c_wev c')
            \<and> (\<exists>zs. chain_ok s' out zs \<and> chain_bytes s' zs = drop k (chain_bytes s xs))))"

lemma sent_upto_later:
  assumes "sent_upto k t zs c1 e1 res" and "chain_bytes t zs = drop j (chain_bytes s xs)" and "j \<le> length (chain_bytes s xs)"
    and "s_wire e1 = s_wire e @ take j (chain_bytes s xs)" and "c_sent_size c1 = c_sent_size c + int j"
  shows "sent_upto (j + k) s xs c e res"
  using assms by (auto simp: sent_upto_def take_add add.commute split: prod.splits chain_result.splits)

lemma send_chain_loop_correct:
  "chain_ok s out xs \<Longrightarrow> \<exists>k res. send_chain_loop nalloc out c s e = Some (Ret res) \<and> sent_upto k s xs c e res"
proof (induction "length (s_answers e)" arbitrary: s out xs c e rule: less_induct)
  case less
  note ok = less.prems
  have path: "chain_path (cs_chains s) out xs" "\<forall>cl \<in> set xs. node_ok s cl"
    "0 + int (length (chain_bytes s xs)) < 18446744073709551616" using ok by (auto simp: chain_ok_def)
  obtain ys zs out' vec where vec: "xs = ys @ zs" "hcore_output_chain_to_iovec nalloc s out
      = Some (Ret (out', vec, int (length (chain_bytes s ys))))" "iov_bytes vec = chain_bytes s ys"
    using iovec_loop_correct [OF path(1,2) _ _ path(3), of "[]" 0 nalloc]
    by (auto simp: hcore_output_chain_to_iovec_def vec_ok_def)
  have all: "chain_bytes s xs = chain_bytes s ys @ chain_bytes s zs" using vec(1) by (simp add: chain_bytes_def)
  obtain n err e1 where w: "hcore_writev (c_fd c) vec e = (n, err, e1)" by (metis prod_cases3)
  show ?case
  proof (cases "n = -1")
    case True
    then have "err \<noteq> EAGAIN" "s_wire e1 = s_wire e" using writev_result [OF w] by auto
    then have "send_chain_loop nalloc out c s e = Some (Ret (Chain_error, c\<lparr>c_wev := c_wev c\<lparr>ev_error := True\<rparr>\<rparr>, s, e1))"
      using vec(2) w True by (subst send_chain_loop.simps) simp
    then show ?thesis using \<open>s_wire e1 = s_wire e\<close> by (intro exI [of _ 0]) (auto simp: sent_upto_def)
  next
    case False
    then have n: "0 \<le> n" "n \<le> int (length (chain_bytes s ys))" "s_wire e1 = s_wire e @ take (nat n) (chain_bytes s ys)"
      "length (s_answers e1) < length (s_answers e)" using writev_result [OF w] vec(3) by auto
    then have n': "n \<le> int (length (chain_bytes s xs))" and wire: "s_wire e1 = s_wire e @ take (nat n) (chain_bytes s xs)"
      using all by (auto simp: nat_le_iff)
    obtain out2 t us where upd: "hcore_update_output_chain out n s = Some (Ret (out2, t))" "chain_ok t out2 us"
      "chain_bytes t us = drop (nat n) (chain_bytes s xs)" using update_output_chain_correct [OF ok n(1) n'] by blast
    define c1 where "c1 = c\<lparr>c_sent_size := c_sent_size c + n\<rparr>"
    have step: "send_chain_loop nalloc out c s e = (if int (length (chain_bytes s ys)) \<noteq> n
        then Some (Ret (Chain out2, c1\<lparr>c_wev := c_wev c1\<lparr>ev_ready := False\<rparr>\<rparr>, t, e1)) else send_chain_loop nalloc out2 c1 t e1)"
      using vec(2) w False upd(1) by (subst send_chain_loop.simps) (simp add: c1_def Let_def)
    show ?thesis
    proof (cases "int (length (chain_bytes s ys)) = n")
      case True
      obtain k res where "send_chain_loop nalloc out2 c1 t e1 = Some (Ret res)" "sent_upto k t us c1 e1 res"
        using less.hyps [OF n(4) upd(2)] by blast
      then show ?thesis using step True n(1) n' wire sent_upto_later [OF _ upd(3), of k c1 e1 res e c]
        by (intro exI [of _ "nat n + k"] exI [of _ res]) (auto simp: c1_def)
    next
      case False
      then show ?thesis using step n all wire upd(2,3)
        by (intro exI [of _ "nat n"]) (auto simp: sent_upto_def c1_def intro!: exI [of _ us])
    qed
  qed
qed


definition sample_chain :: cstate where
  "sample_chain = \<lparr>cs_pool = \<lparr>pool_blocks = [], pool_max = 0, pool_current = 0, pool_large = [], pool_chain = None,
       pool_cleanup = [], pool_customed = False\<rparr>, cs_env = \<lparr>answers = [], trace = [], mem = \<lambda>_. 0\<rparr>,
     cs_chains = (\<lambda>_. zero_chain)(1 := zero_chain\<lparr>cl_buf := Some 1, cl_next := Some 2\<rparr>, 2 := zero_chain\<lparr>cl_buf := Some 2\<rparr>),
     cs_bufs = (\<lambda>_. zero_buf)(1 := \<lparr>b_pos = 100, b_last = 102, b_start = 100, b_end = 110\<rparr>,
       2 := \<lparr>b_pos = 200, b_last = 203, b_start = 200, b_end = 210\<rparr>)\<rparr>"

definition sample_net :: netenv where
  "sample_net = \<lparr>s_answers = [(3, 0)], s_calls = [], s_from = [], s_wire = []\<rparr>"

lemma sample_chain_ok: "chain_ok sample_chain (Some 1) [1, 2]"
  by (auto simp: chain_ok_def sample_chain_def node_ok_def node_buf_def zero_chain_def buf_bytes_def)


subsection \<open>Flags, addresses and spinning\<close>

text \<open>hcore_tcp_send marks the event of reading where its description says the event of writing.\<close>

lemma tcp_send_marks_read_event:
  assumes "s_answers e = (-1, EAGAIN) # as"
  shows "fst (hcore_tcp_send n c e) = HCORE_AGAIN" and "c_wev (fst (snd (hcore_tcp_send n c e))) = c_wev c"
    and "\<not> ev_ready (c_rev (fst (snd (hcore_tcp_send n c e))))"
  using assms by (simp_all add: hcore_tcp_send.simps [of n c e] sys_call_def Let_def)

text \<open>A connection bound to a peer with an address longer than 16 bytes lets the kernel write over the local address.\<close>

lemma udp_recv_long_peer_overflows:
  assumes "c_bind_peer c" and "c_socklen c = 28" and "s_answers e = (10, 0) # as" and "s_from e = (sa, 28) # fs"
  shows "hcore_udp_recv ops inet_ntop n c pool m e = Fault"
  using assms by (simp add: hcore_udp_recv_def Let_def udp_recv_loop.simps [of ops inet_ntop n _ 28] sys_call_def next_from_def recv_address_def)

text \<open>After the last byte the loop goes on writing empty vectors: while the kernel answers 0 it does not return.\<close>

lemma send_empty_chain_spins:
  "s_answers e = replicate j (0, 0) \<Longrightarrow> \<exists>res. send_chain_loop nalloc None c s e = Some (Ret res)
     \<and> length (s_calls (snd (snd (snd res)))) = length (s_calls e) + Suc j"
proof (induction j arbitrary: c e)
  case 0
  then show ?case
    by (subst send_chain_loop.simps) (simp add: hcore_output_chain_to_iovec_def iovec_loop.simps [of _ _ None] hcore_writev.simps
        kernel_writev_def sys_call_def Let_def)
next
  case (Suc j)
  define e1 where "e1 = e\<lparr>s_answers := replicate j (0, 0), s_calls := s_calls e @ [Writev (c_fd c) []]\<rparr>"
  have w: "hcore_writev (c_fd c) [] e = (0, 0, e1)"
    using Suc.prems by (simp add: hcore_writev.simps [of _ _ e] kernel_writev_def sys_call_def Let_def e1_def)
  have "send_chain_loop nalloc None c s e = send_chain_loop nalloc None c s e1"
    by (subst send_chain_loop.simps) (simp add: hcore_output_chain_to_iovec_def iovec_loop.simps [of _ _ None] w
        hcore_update_output_chain_def)
  then show ?case using Suc.IH [of e1 c] by (simp add: e1_def)
qed

end
