(* ===== verification/HAstring.thy ===== *)
theory HAstring
  imports HFormat HSys
begin

section \<open>Strings that grow (src/hcore_astring.c)\<close>

text \<open>
  hcore_asnprintf prints behind the text it has and, as long as the output fills the block, doubles the
  block and prints again. realloc and free (or the functions given in their place) are calls of HSys:
  an answer that is not positive is the null pointer, and a block keeps its bytes when it is moved.
\<close>

subsection \<open>Printing into more room\<close>

text \<open>Every conversion appends, and an output that does not fill the room does not depend on the room.\<close>

definition room_free :: "(nat \<Rightarrow> byte list) \<Rightarrow> byte list \<Rightarrow> bool" where
  "room_free f buf = (\<forall>cap cap'. (\<exists>x. f cap = buf @ x) \<and> (length (f cap) < cap \<longrightarrow> cap \<le> cap' \<longrightarrow> f cap' = f cap))"

lemma sprintf_num_room: "room_free (\<lambda>cap. hcore_sprintf_num cap buf n z h w) buf"
proof -
  let ?p = "num_digits n h"
  let ?k = "nat w - length ?p"
  define b where "b cap = buf @ replicate (min ?k (cap - length buf)) z" for cap
  have f: "hcore_sprintf_num cap buf n z h w = b cap @ take (if cap < length (b cap) + length ?p then cap - length (b cap) else length ?p) ?p" for cap
    by (simp add: hcore_sprintf_num_def Let_def b_def)
  have "hcore_sprintf_num cap' buf n z h w = hcore_sprintf_num cap buf n z h w"
    if short: "length (hcore_sprintf_num cap buf n z h w) < cap" and le: "cap \<le> cap'" for cap cap'
  proof -
    have len: "length (b cap) < cap" "length (b cap) + length ?p \<le> cap" using short unfolding f by (auto split: if_splits)
    then have "?k \<le> cap - length buf" by (auto simp: b_def min_def split: if_splits)
    then have "b cap' = b cap" using le by (simp add: b_def)
    then show ?thesis using len le unfolding f by simp
  qed
  moreover have "\<exists>x. hcore_sprintf_num cap buf n z h w = buf @ x" for cap unfolding f by (simp add: b_def)
  ultimately show ?thesis unfolding room_free_def by blast
qed

lemma room_free_append: "room_free f (buf @ x) \<Longrightarrow> room_free f buf"
  unfolding room_free_def by (metis append.assoc)

lemma put_number_room: "room_free (\<lambda>cap. put_number cap buf s i u) buf"
  by (cases "f_sign s"; cases "i < 0") (simp_all add: put_number_def sprintf_num_room room_free_append [OF sprintf_num_room])

lemma put_fraction_room: "room_free (\<lambda>cap. put_fraction cap buf s u fr) buf"
proof (cases "f_frac_width s = 0")
  case True
  then show ?thesis using sprintf_num_room by (simp add: put_fraction_def Let_def)
next
  case False
  let ?one = "\<lambda>cap. hcore_sprintf_num cap buf u (f_zero s) 0 (f_width s)"
  let ?dot = "\<lambda>cap. if length (?one cap) < cap then ?one cap @ [46] else ?one cap"
  show ?thesis unfolding room_free_def
  proof (intro allI conjI impI)
    fix cap cap'
    have one: "\<exists>x. ?one cap = buf @ x" "length (?one cap) < cap \<Longrightarrow> cap \<le> cap' \<Longrightarrow> ?one cap' = ?one cap"
      using sprintf_num_room [of buf u "f_zero s" 0 "f_width s"] unfolding room_free_def by blast+
    have two: "\<exists>x. hcore_sprintf_num cap (?dot cap) fr 48 0 (f_frac_width s) = ?dot cap @ x"
      "length (hcore_sprintf_num cap (?dot cap) fr 48 0 (f_frac_width s)) < cap \<Longrightarrow> cap \<le> cap'
        \<Longrightarrow> hcore_sprintf_num cap' (?dot cap) fr 48 0 (f_frac_width s) = hcore_sprintf_num cap (?dot cap) fr 48 0 (f_frac_width s)"
      using sprintf_num_room [of "?dot cap" fr 48 0 "f_frac_width s"] unfolding room_free_def by blast+
    have pf: "put_fraction c buf s u fr = hcore_sprintf_num c (?dot c) fr 48 0 (f_frac_width s)" for c
      using False by (simp add: put_fraction_def Let_def)
    show "\<exists>x. put_fraction cap buf s u fr = buf @ x" using one(1) two(1) unfolding pf by (auto split: if_splits)
    assume short: "length (put_fraction cap buf s u fr) < cap" and le: "cap \<le> cap'"
    then have "length (?one cap) < cap" using two(1) unfolding pf by (auto split: if_splits)
    then have "?one cap' = ?one cap" "?dot cap' = ?dot cap" using one(2) le by auto
    then show "put_fraction cap' buf s u fr = put_fraction cap buf s u fr" using two(2) short le unfolding pf by simp
  qed
qed

lemma put_double_room: "room_free (\<lambda>cap. put_double ops cap buf s f) buf"
proof -
  have one: "room_free (\<lambda>cap. if c then put_fraction cap b s u fr else put_fraction cap b s u' fr') b" for b c u fr u' fr'
    by (cases c) (simp_all add: put_fraction_room)
  show ?thesis
    by (cases "d_is_neg ops f") (simp_all add: put_double_def Let_def one put_fraction_room room_free_append [OF one]
      room_free_append [OF put_fraction_room])
qed

lemma copy_cstr_room: "copy_cstr n p = Ret b \<Longrightarrow> length b < n \<Longrightarrow> n \<le> n' \<Longrightarrow> copy_cstr n' p = Ret b"
proof (induction n p arbitrary: b n' rule: copy_cstr.induct)
  case (1 p)
  then show ?case by simp
next
  case (2 n)
  then show ?case by simp
next
  case (3 n c p)
  obtain m where n': "n' = Suc m" "n \<le> m" using 3(4) by (cases n') simp_all
  show ?case
  proof (cases "c = 0")
    case True
    then show ?thesis using 3(2) n' by simp
  next
    case False
    then obtain b' where "copy_cstr n p = Ret b'" "b = c # b'" using 3(2) by (auto simp: bind_run_Ret_iff)
    then show ?thesis using 3(1) [OF False, of b' m] 3(3) n' False by simp
  qed
qed

lemma copy_bytes_room:
  "copy_bytes (min room k) p = Ret b \<Longrightarrow> length b < room \<Longrightarrow> room \<le> room' \<Longrightarrow> copy_bytes (min room' k) p = Ret b"
  by (cases "k < room") (auto simp: copy_bytes_def split: if_splits)

lemma copy_bytes_room_int:
  "copy_bytes (nat (min (int room) k)) p = Ret b \<Longrightarrow> length b < room \<Longrightarrow> room \<le> room' \<Longrightarrow> copy_bytes (nat (min (int room') k)) p = Ret b"
  by (cases "k < int room") (auto simp: copy_bytes_def split: if_splits)

lemma conv_text_room:
  assumes "conv_text c s room args = Some (Ret (b, args'))" and "length b < room" and "room \<le> room'"
  shows "conv_text c s room' args = Some (Ret (b, args'))"
proof -
  consider "c = 86" | "c = 115" | "c \<noteq> 86" "c \<noteq> 115" by blast
  then show ?thesis
  proof cases
    case 1
    then show ?thesis using assms copy_bytes_room [OF _ assms(2,3)]
      by (auto simp: conv_text_def bind_run_Ret_iff split: list.splits vararg.splits)
  next
    case 2
    then show ?thesis using assms copy_bytes_room_int [OF _ assms(2,3)] copy_cstr_room [OF _ assms(2,3)]
      by (auto simp: conv_text_def bind_run_Ret_iff split: list.splits vararg.splits if_splits)
  next
    case 3
    then show ?thesis using assms(1) by (simp add: conv_text_def)
  qed
qed

lemma room_freeD: "room_free f buf \<Longrightarrow> length (f cap) < cap \<Longrightarrow> cap \<le> cap' \<Longrightarrow> f cap' = f cap"
  unfolding room_free_def by blast

lemma room_free_prefix: "room_free f buf \<Longrightarrow> \<exists>x. f cap = buf @ x"
  unfolding room_free_def by blast

lemma convert_cases:
  assumes "convert ops cap buf s c args = Ret (buf', args')"
  obtains (str) b where "conv_text c s (cap - length buf) args = Some (Ret (b, args'))" and "buf' = buf @ b"
  | (num) s' i u where "conv_text c s (cap - length buf) args = None" and "conv_int c s args = Some (Ret (s', i, u, args'))"
      and "buf' = put_number cap buf s' i u"
  | (dbl) f where "conv_text c s (cap - length buf) args = None" and "conv_int c s args = None" and "c = 102"
      and "args = VDbl f # args'" and "buf' = put_double ops cap buf s f"
  | (oth) "conv_text c s (cap - length buf) args = None" and "conv_int c s args = None" and "c \<noteq> 102"
      and "buf' = buf @ [c]" and "args' = args"
proof (cases "conv_text c s (cap - length buf) args")
  case (Some r)
  then show thesis using assms str by (auto simp: convert_def bind_run_Ret_iff)
next
  case none: None
  show thesis
  proof (cases "conv_int c s args")
    case (Some r)
    then show thesis using assms none num by (auto simp: convert_def bind_run_Ret_iff)
  next
    case None
    show thesis
    proof (cases "c = 102")
      case True
      then obtain f where "args = VDbl f # args'" "buf' = put_double ops cap buf s f"
        using assms none None by (auto simp: convert_def split: list.split_asm vararg.split_asm)
      then show thesis using dbl none None True by blast
    next
      case False
      then have "buf' = buf @ [c]" "args' = args" using assms none None by (simp_all add: convert_def)
      then show thesis using oth none None False by blast
    qed
  qed
qed

lemma convert_prefix: "convert ops cap buf s c args = Ret (buf', args') \<Longrightarrow> \<exists>x. buf' = buf @ x"
  by (elim convert_cases) (simp_all add: room_free_prefix [OF put_number_room] room_free_prefix [OF put_double_room])

lemma conv_text_none: "conv_text c s room args = None \<Longrightarrow> conv_text c s room' args = None"
  by (simp add: conv_text_def split: if_splits)

lemma convert_room:
  assumes "convert ops cap buf s c args = Ret (buf', args')" and "length buf' < cap" and "cap \<le> cap'"
  shows "convert ops cap' buf s c args = Ret (buf', args')"
  using assms(1)
proof (cases rule: convert_cases)
  case (str b)
  then have "conv_text c s (cap' - length buf) args = Some (Ret (b, args'))"
    using conv_text_room [of c s "cap - length buf" args b args' "cap' - length buf"] assms(2,3) by auto
  then show ?thesis using str(2) by (simp add: convert_def)
next
  case (num s' i u)
  then have "put_number cap' buf s' i u = buf'" using room_freeD [OF put_number_room _ assms(3)] assms(2) by simp
  then show ?thesis using num(2) conv_text_none [OF num(1)] by (simp add: convert_def)
next
  case (dbl f)
  then have "put_double ops cap' buf s f = buf'" using room_freeD [OF put_double_room _ assms(3)] assms(2) by simp
  then show ?thesis using dbl(2-4) conv_text_none [OF dbl(1)] by (simp add: convert_def)
next
  case oth
  then show ?thesis using conv_text_none [OF oth(1)] by (simp add: convert_def)
qed

lemma vslprintf_cases:
  assumes "hcore_vslprintf ops cap buf fmt args = Ret out"
  obtains (conv) fmt' buf1 fmt1 args1 where "fmt = 37 # fmt'" and "length buf < cap"
      and "conversion ops cap buf fmt' args = Ret (buf1, fmt1, args1)" and "hcore_vslprintf ops cap buf1 fmt1 args1 = Ret out"
  | (plain) c fmt' where "fmt = c # fmt'" and "c \<noteq> 0" and "c \<noteq> 37" and "length buf < cap"
      and "hcore_vslprintf ops cap (buf @ [c]) fmt' args = Ret out"
  | (stop) c fmt' where "fmt = c # fmt'" and "c = 0 \<or> cap \<le> length buf" and "out = buf"
proof (cases fmt)
  case Nil
  then show thesis using assms by (simp add: hcore_vslprintf.simps [of _ _ _ "[]"])
next
  case (Cons c fmt')
  note eq = hcore_vslprintf.simps [of ops cap buf "c # fmt'" args]
  consider "c = 0 \<or> cap \<le> length buf" | "c \<noteq> 0" "length buf < cap" "c = 37" | "c \<noteq> 0" "length buf < cap" "c \<noteq> 37" by fastforce
  then show thesis
  proof cases
    case 1
    then show thesis using assms Cons eq stop by auto
  next
    case 2
    obtain buf1 fmt1 args1 where r: "conversion ops cap buf fmt' args = Ret (buf1, fmt1, args1)"
      using assms Cons eq 2 by (cases "conversion ops cap buf fmt' args") auto
    then show thesis using assms Cons eq 2 conv [of fmt' buf1 fmt1 args1] by simp
  next
    case 3
    then show thesis using assms Cons eq plain [of c fmt'] by simp
  qed
qed

lemma conversion_prefix: "conversion ops cap buf fmt args = Ret (buf', fmt', args') \<Longrightarrow> \<exists>x. buf' = buf @ x"
  by (erule conversion_Ret) (rule convert_prefix)

lemma conversion_room:
  "conversion ops cap buf fmt args = Ret (buf', fmt', args') \<Longrightarrow> length buf' < cap \<Longrightarrow> cap \<le> cap'
    \<Longrightarrow> conversion ops cap' buf fmt args = Ret (buf', fmt', args')"
proof -
  assume c: "conversion ops cap buf fmt args = Ret (buf', fmt', args')" and le: "length buf' < cap" "cap \<le> cap'"
  from c obtain width fmt1 t ch args1 where parts: "fmt_number 0 fmt = Ret (width, fmt1)"
    "fmt_flags (fspec_init (hd fmt) width) fmt1 args = Ret (t, ch # fmt', args1)" "convert ops cap buf t ch args1 = Ret (buf', args')"
    by (rule conversion_Ret)
  from convert_room [OF parts(3) le] show ?thesis using parts(1,2) by (simp add: conversion_def)
qed

lemma vslprintf_prefix: "hcore_vslprintf ops cap buf fmt args = Ret out \<Longrightarrow> \<exists>x. out = buf @ x"
proof (induction ops cap buf fmt args rule: hcore_vslprintf.induct)
  case (1 ops cap buf fmt args)
  from 1(3) show ?case
  proof (cases rule: vslprintf_cases)
    case (conv fmt' buf1 fmt1 args1)
    obtain x where "buf1 = buf @ x" using conversion_prefix [OF conv(3)] by blast
    moreover obtain y where "out = buf1 @ y" using 1(1) [OF conv(1) _ refl conv(3) refl refl] conv(2,4) by auto
    ultimately show ?thesis by simp
  next
    case (plain c fmt')
    then show ?thesis using 1(2) [OF plain(1)] by auto
  qed simp
qed

lemma vslprintf_room:
  "hcore_vslprintf ops cap buf fmt args = Ret out \<Longrightarrow> length out < cap \<Longrightarrow> cap \<le> cap'
    \<Longrightarrow> hcore_vslprintf ops cap' buf fmt args = Ret out"
proof (induction ops cap buf fmt args rule: hcore_vslprintf.induct)
  case (1 ops cap buf fmt args)
  have short: "length buf < cap" using vslprintf_prefix [OF 1(3)] 1(4) by auto
  from 1(3) show ?case
  proof (cases rule: vslprintf_cases)
    case (conv fmt' buf1 fmt1 args1)
    have "length buf1 < cap" using vslprintf_prefix [OF conv(4)] 1(4) by auto
    then have "conversion ops cap' buf fmt' args = Ret (buf1, fmt1, args1)" using conversion_room [OF conv(3)] 1(5) by blast
    moreover have "hcore_vslprintf ops cap' buf1 fmt1 args1 = Ret out" using 1(1) [OF conv(1) _ refl conv(3) refl refl] conv(2,4) 1(4,5) by simp
    ultimately show ?thesis using conv(1) short 1(5) by (subst hcore_vslprintf.simps) simp
  next
    case (plain c fmt')
    then show ?thesis using 1(2) [OF plain(1)] 1(4,5) by (subst hcore_vslprintf.simps) simp
  next
    case (stop c fmt')
    then show ?thesis using short by (subst hcore_vslprintf.simps) simp
  qed
qed

subsection \<open>The strings\<close>

abbreviation (input) HCORE_ASTRING_DEF_SIZE :: int where "HCORE_ASTRING_DEF_SIZE \<equiv> 64"

abbreviation (input) sizeof_hcore_astring_t :: int where "sizeof_hcore_astring_t \<equiv> 48"

text \<open>\<open>as_text\<close> is the \<open>len\<close> bytes in use; \<open>as_self\<close> is the block of the string itself, if it was created.\<close>

record astring =
  as_data :: int
  as_text :: "byte list"
  as_size :: int
  as_error :: bool
  as_created :: bool
  as_inited :: bool
  as_self :: int

definition astr_realloc :: "int \<Rightarrow> int \<Rightarrow> sysenv \<Rightarrow> int option \<times> sysenv" where
  "astr_realloc p n e = (case sys_call (Realloc p n) e of (r, err, e) \<Rightarrow> (if 0 < r then Some r else None, e))"

definition astr_free :: "int \<Rightarrow> sysenv \<Rightarrow> sysenv" where
  "astr_free p e = snd (snd (sys_call (Free p) e))"

lemma astr_realloc_shorter: "astr_realloc p n e = (Some q, e') \<Longrightarrow> length (s_answers e') < length (s_answers e)"
  by (auto simp: astr_realloc_def sys_call_def Let_def split: list.splits if_splits)

function asnprintf_loop :: "'d dblops \<Rightarrow> astring \<Rightarrow> byte list \<Rightarrow> 'd vararg list \<Rightarrow> sysenv \<Rightarrow> (int \<times> astring \<times> sysenv) run" where
  "asnprintf_loop ops astr fmt args e =
     (case hcore_vslprintf ops (nat (as_size astr)) (as_text astr) fmt args of
        Fault \<Rightarrow> Fault
      | Ret out \<Rightarrow>
          if int (length out) \<noteq> as_size astr then Ret (HCORE_OK, astr\<lparr>as_text := out\<rparr>, e)
          else
            let new_size = u64 (as_size astr * 2) in
            (case astr_realloc (as_data astr) new_size e of
               (None, e) \<Rightarrow> Ret (HCORE_ERROR, astr\<lparr>as_error := True\<rparr>, e)
             | (Some p, e) \<Rightarrow> asnprintf_loop ops (astr\<lparr>as_data := p, as_size := new_size\<rparr>) fmt args e))"
  by pat_completeness auto

termination
  by (relation "measure (\<lambda>(ops, astr, fmt, args, e). length (s_answers e))") (auto dest: astr_realloc_shorter [OF sym])

declare asnprintf_loop.simps [simp del]

definition hcore_asnprintf :: "'d dblops \<Rightarrow> astring option \<Rightarrow> byte list option \<Rightarrow> 'd vararg list \<Rightarrow> sysenv
    \<Rightarrow> (int \<times> astring option \<times> sysenv) run" where
  "hcore_asnprintf ops astr fmt args e = (case (astr, fmt) of
      (Some a, Some f) \<Rightarrow> bind_run (asnprintf_loop ops a f args e) (\<lambda>(r, a, e). Ret (r, Some a, e))
    | _ \<Rightarrow> Ret (HCORE_ERROR, astr, e))"

definition hcore_astrfmt_size :: "'d dblops \<Rightarrow> astring option \<Rightarrow> int \<Rightarrow> sysenv \<Rightarrow> (int \<times> astring option \<times> sysenv) run option" where
  "hcore_astrfmt_size ops astr sz e =
     map_option (\<lambda>(v, scale, pu).
       let r = sz AND (scale - 1); decimal = d_ratio_plus ops r scale v in
       if length size_units \<le> pu then Fault
       else case size_units ! pu of
              None \<Rightarrow> Fault
            | Some u \<Rightarrow> hcore_asnprintf ops astr (Some (bytes ''%.02f %s'' @ [0])) [VDbl decimal, VStr (u @ [0])] e)
     (fmt_size_loop sz 1 0)"

definition hcore_init_astring :: "astring option \<Rightarrow> int \<Rightarrow> sysenv \<Rightarrow> int \<times> astring option \<times> sysenv" where
  "hcore_init_astring astr sz e = (case astr of
      None \<Rightarrow> (HCORE_ERROR, None, e)
    | Some a \<Rightarrow>
        (let sz = (if sz = 0 then HCORE_ASTRING_DEF_SIZE else sz) in
         case astr_realloc 0 sz e of
           (None, e) \<Rightarrow> (HCORE_ERROR, Some a, e)
         | (Some d, e) \<Rightarrow>
             (HCORE_OK, Some (a\<lparr>as_data := d, as_text := [], as_size := sz, as_created := False, as_error := False, as_inited := True\<rparr>), e)))"

definition hcore_create_astring :: "int \<Rightarrow> sysenv \<Rightarrow> astring option \<times> sysenv" where
  "hcore_create_astring sz e =
     (case astr_realloc 0 sizeof_hcore_astring_t e of
        (None, e) \<Rightarrow> (None, e)
      | (Some p, e) \<Rightarrow>
          (case hcore_init_astring (Some \<lparr>as_data = 0, as_text = [], as_size = 0, as_error = False, as_created = False,
               as_inited = False, as_self = p\<rparr>) sz e of
             (r, a, e) \<Rightarrow>
               if r = HCORE_ERROR then (None, astr_free p e)
               else (map_option (\<lambda>a. a\<lparr>as_created := True\<rparr>) a, e)))"

definition hcore_destroy_astring :: "astring option \<Rightarrow> sysenv \<Rightarrow> sysenv" where
  "hcore_destroy_astring astr e = (case astr of
      None \<Rightarrow> e
    | Some a \<Rightarrow>
        if \<not> as_inited a then e
        else let e = astr_free (as_data a) e in if as_created a then astr_free (as_self a) e else e)"

subsection \<open>The output is complete\<close>

definition printed :: "'d dblops \<Rightarrow> astring \<Rightarrow> byte list \<Rightarrow> 'd vararg list \<Rightarrow> int \<Rightarrow> astring \<Rightarrow> bool" where
  "printed ops a fmt args r b =
     (if r = HCORE_OK then int (length (as_text b)) < as_size b
        \<and> (\<forall>cap. as_size b \<le> int cap \<longrightarrow> hcore_vslprintf ops cap (as_text a) fmt args = Ret (as_text b))
        \<and> (\<exists>x. as_text b = as_text a @ x)
      else r = HCORE_ERROR \<and> as_error b \<and> as_text b = as_text a)"

lemma asnprintf_loop_printed:
  "asnprintf_loop ops a fmt args e = Ret (r, b, e') \<Longrightarrow> int (length (as_text a)) < as_size a
    \<Longrightarrow> as_size a * 2 ^ length (s_answers e) < 18446744073709551616 \<Longrightarrow> printed ops a fmt args r b"
proof (induction ops a fmt args e rule: asnprintf_loop.induct)
  case (1 ops a fmt args e)
  obtain out where out: "hcore_vslprintf ops (nat (as_size a)) (as_text a) fmt args = Ret out"
    using 1(2) by (cases "hcore_vslprintf ops (nat (as_size a)) (as_text a) fmt args") (simp_all add: asnprintf_loop.simps [of ops a])
  have le: "int (length out) \<le> as_size a" using vslprintf_bound [OF out] 1(3) by linarith
  show ?case
  proof (cases "int (length out) = as_size a")
    case False
    then have "r = HCORE_OK" "b = a\<lparr>as_text := out\<rparr>" using 1(2) out by (simp_all add: asnprintf_loop.simps [of ops a])
    moreover have "length out < nat (as_size a)" using False le by linarith
    ultimately show ?thesis using False le vslprintf_room [OF out] vslprintf_prefix [OF out]
      by (auto simp: printed_def)
  next
    case True
    obtain q e1 where q: "astr_realloc (as_data a) (u64 (as_size a * 2)) e = (q, e1)" by (meson surj_pair)
    show ?thesis
    proof (cases q)
      case None
      then show ?thesis using 1(2) out True q by (auto simp: asnprintf_loop.simps [of ops a] printed_def Let_def)
    next
      case (Some p)
      then have "length (s_answers e1) < length (s_answers e)" using astr_realloc_shorter q by simp
      then obtain k where k: "length (s_answers e) = Suc (length (s_answers e1) + k)" using less_iff_Suc_add by blast
      have pos: "0 < as_size a" using 1(3) by simp
      have "as_size a * 2 * 2 ^ length (s_answers e1) \<le> as_size a * 2 ^ length (s_answers e)"
        unfolding k using pos by (simp add: power_add)
      then have small: "as_size a * 2 * 2 ^ length (s_answers e1) < 18446744073709551616" using 1(4) by linarith
      moreover have "as_size a * 2 \<le> as_size a * 2 * 2 ^ length (s_answers e1)" using pos by simp
      ultimately have u: "u64 (as_size a * 2) = as_size a * 2" using pos by (intro u64_id) linarith+
      have "asnprintf_loop ops (a\<lparr>as_data := p, as_size := as_size a * 2\<rparr>) fmt args e1 = Ret (r, b, e')"
        using 1(2) out True q Some u by (simp add: asnprintf_loop.simps [of ops a] Let_def)
      then have "printed ops (a\<lparr>as_data := p, as_size := as_size a * 2\<rparr>) fmt args r b"
        using 1(1) [OF out _ refl q [symmetric] Some] True u small 1(3) by simp
      then show ?thesis by (cases "r = 0") (simp_all add: printed_def)
    qed
  qed
qed

text \<open>C8: hcore_asnprintf appends the whole output or nothing. When it returns HCORE_OK the text is the old one followed by
  what hcore_vslprintf prints into any room that is large enough, it has been cut nowhere, and there is room for the
  terminator. When realloc fails the result is HCORE_ERROR, the error flag is set and the text is the old one.\<close>

theorem asnprintf_complete:
  assumes "hcore_asnprintf ops (Some a) (Some fmt) args e = Ret (r, Some b, e')" and "int (length (as_text a)) < as_size a"
    and "as_size a * 2 ^ length (s_answers e) < 18446744073709551616"
  shows "if r = HCORE_OK then int (length (as_text b)) < as_size b
        \<and> (\<forall>cap. as_size b \<le> int cap \<longrightarrow> hcore_vslprintf ops cap (as_text a) fmt args = Ret (as_text b))
        \<and> (\<exists>x. as_text b = as_text a @ x)
      else r = HCORE_ERROR \<and> as_error b \<and> as_text b = as_text a"
  using asnprintf_loop_printed [of ops a fmt args e r b e'] assms
  by (auto simp: hcore_asnprintf_def bind_run_Ret_iff printed_def)

definition sample_astring :: astring where
  "sample_astring = \<lparr>as_data = 4096, as_text = bytes ''ab'', as_size = 4, as_error = False, as_created = False,
     as_inited = True, as_self = 0\<rparr>"

definition sample_answers :: sysenv where
  "sample_answers = \<lparr>s_answers = [(8192, 0)], s_calls = []\<rparr>"

theorem asnprintf_complete_witness:
  "\<exists>b e'. hcore_asnprintf whole_ops (Some sample_astring) (Some (bytes ''cde'' @ [0])) [] sample_answers = Ret (HCORE_OK, Some b, e')
     \<and> int (length (as_text b)) < as_size b"
proof -
  have "asnprintf_loop whole_ops sample_astring (bytes ''cde'' @ [0]) [] sample_answers
      = Ret (0, sample_astring\<lparr>as_data := 8192, as_size := 8, as_text := bytes ''abcde''\<rparr>, \<lparr>s_answers = [], s_calls = [Realloc 4096 8]\<rparr>)"
    by (simp add: asnprintf_loop.simps hcore_vslprintf.simps sample_astring_def sample_answers_def astr_realloc_def sys_call_def
        bytes_def Let_def u64_id)
  then have "hcore_asnprintf whole_ops (Some sample_astring) (Some (bytes ''cde'' @ [0])) [] sample_answers
      = Ret (0, Some (sample_astring\<lparr>as_data := 8192, as_size := 8, as_text := bytes ''abcde''\<rparr>), \<lparr>s_answers = [], s_calls = [Realloc 4096 8]\<rparr>)"
    by (simp add: hcore_asnprintf_def)
  from this asnprintf_complete [OF this] show ?thesis by (auto simp: sample_astring_def sample_answers_def bytes_def)
qed

end
