(* ===== verification/HLog.thy ===== *)
theory HLog
  imports HAstring HTime HPool
begin

section \<open>Logs (src/hcore_log.c)\<close>

text \<open>
  The time, the process id, the text of an error number and localtime_r are parameters. The functions
  a log may have, for the time and for more text, are given by what they write. A line is built in an
  array of 2048 bytes and written with one call.
\<close>

subsection \<open>Levels\<close>

abbreviation (input) HCORE_LOG_STDERR :: int where "HCORE_LOG_STDERR \<equiv> 0"

abbreviation (input) HCORE_LOG_DEBUG :: int where "HCORE_LOG_DEBUG \<equiv> 8"

text \<open>Number, name and padding.\<close>

definition g_hcore_log_level :: "(int \<times> byte list \<times> byte list) list" where
  "g_hcore_log_level =
     [(0, bytes ''stderr'', bytes ''''), (1, bytes ''emerg'', bytes '' ''), (2, bytes ''alert'', bytes '' ''),
      (3, bytes ''crit'', bytes ''  ''), (4, bytes ''error'', bytes '' ''), (5, bytes ''warn'', bytes ''  ''),
      (6, bytes ''notice'', bytes ''''), (7, bytes ''info'', bytes ''  ''), (8, bytes ''debug'', bytes '' '')]"

definition hcore_log_parse_level :: "byte list option \<Rightarrow> int" where
  "hcore_log_parse_level log_str = (case log_str of
      None \<Rightarrow> HCORE_ERROR
    | Some str \<Rightarrow>
        if i32 (int (length str)) = 0 then HCORE_ERROR
        else (case find (\<lambda>(level, name, padding). int (length name) = i32 (int (length str)) \<and> name = take (length name) str)
                g_hcore_log_level of
                Some (level, name, padding) \<Rightarrow> level
              | None \<Rightarrow> HCORE_ERROR))"

subsection \<open>Opening and closing\<close>

record hlog =
  lg_level :: int
  lg_fd :: int
  lg_filename :: "byte list"
  lg_object :: "byte list option"
  lg_handler :: "(byte list \<Rightarrow> byte list) option"
  lg_get_time :: "(int \<Rightarrow> byte list) option"
  lg_internal :: bool

abbreviation (input) STDOUT_FILENO :: int where "STDOUT_FILENO \<equiv> 1"

abbreviation (input) STDERR_FILENO :: int where "STDERR_FILENO \<equiv> 2"

abbreviation (input) HCORE_LOG_FILE_STDOUT :: "byte list" where "HCORE_LOG_FILE_STDOUT \<equiv> bytes ''@STDOUT''"

abbreviation (input) HCORE_LOG_FILE_STDERR :: "byte list" where "HCORE_LOG_FILE_STDERR \<equiv> bytes ''@STDERR''"

text \<open>The result is \<open>None\<close> where the log is left as it was. The copy of a standard descriptor is not tested.\<close>

definition hcore_open_log :: "byte list \<Rightarrow> int \<Rightarrow> sysenv \<Rightarrow> int \<times> hlog option \<times> sysenv" where
  "hcore_open_log log_file level e =
     (if level < HCORE_LOG_STDERR \<or> HCORE_LOG_DEBUG < level then (HCORE_ERROR, None, e)
      else
        let make = (\<lambda>fd internal. \<lparr>lg_level = level, lg_fd = fd, lg_filename = log_file, lg_object = None,
              lg_handler = None, lg_get_time = None, lg_internal = internal\<rparr>)
        in if log_file = HCORE_LOG_FILE_STDOUT then
             (case sys_call (Dup STDOUT_FILENO) e of (fd, err, e) \<Rightarrow> (HCORE_OK, Some (make fd True), e))
           else if log_file = HCORE_LOG_FILE_STDERR then
             (case sys_call (Dup STDERR_FILENO) e of (fd, err, e) \<Rightarrow> (HCORE_OK, Some (make fd True), e))
           else
             (case sys_call (Open log_file) e of (fd, err, e) \<Rightarrow>
                if fd = -1 then (HCORE_ERROR, None, e) else (HCORE_OK, Some (make fd False), e)))"

definition hcore_destroy_log :: "hlog \<Rightarrow> sysenv \<Rightarrow> sysenv" where
  "hcore_destroy_log log e = snd (snd (sys_call (Close (lg_fd log)) e))"

text \<open>The log lives in the pool, and \<open>destroy_handler\<close> stands for hcore_destroy_log as the handler that the pool
  will run.\<close>

definition destroy_handler :: nat where
  "destroy_handler = 1"

definition set_first_cleanup :: "int \<Rightarrow> nat \<Rightarrow> hpool \<Rightarrow> hpool" where
  "set_first_cleanup d h pool = (case pool_cleanup pool of
      [] \<Rightarrow> pool
    | c # cs \<Rightarrow> pool\<lparr>pool_cleanup := c\<lparr>pc_data := Some d, pc_handler := Some h\<rparr> # cs\<rparr>)"

definition hcore_create_log :: "hpool \<Rightarrow> byte list \<Rightarrow> int \<Rightarrow> env \<Rightarrow> sysenv \<Rightarrow> (int \<times> hlog) option \<times> hpool \<times> env \<times> sysenv" where
  "hcore_create_log pool log_file level m e =
     (case hcore_pcalloc pool 64 m of
        (None, pool, m) \<Rightarrow> (None, pool, m, e)
      | (Some p, pool, m) \<Rightarrow>
          (case hcore_open_log log_file level e of
             (r, None, e) \<Rightarrow> (None, pool, m, e)
           | (r, Some log, e) \<Rightarrow>
               if r \<noteq> HCORE_OK then (None, pool, m, e)
               else (case hcore_pool_cleanup_add pool 0 m of
                       (None, pool, m) \<Rightarrow> (None, pool, m, e)
                     | (Some c, pool, m) \<Rightarrow> (Some (p, log), set_first_cleanup p destroy_handler pool, m, e))))"

subsection \<open>The time\<close>

abbreviation (input) HCORE_LOG_TIME_LENGTH :: nat where "HCORE_LOG_TIME_LENGTH \<equiv> 30"

definition tm_fields :: "hcore_tm \<Rightarrow> 'd vararg list" where
  "tm_fields tm = map VInt [tm_year tm, tm_mon tm, tm_mday tm, tm_hour tm, tm_min tm, tm_sec tm]"

definition hcore_log_get_time :: "'d dblops \<Rightarrow> int \<Rightarrow> byte list run" where
  "hcore_log_get_time ops now =
     hcore_snprintf ops HCORE_LOG_TIME_LENGTH (bytes ''%4d/%02d/%02d %02d:%02d:%02d +0000 GMT%Z'' @ [0]) (tm_fields (hcore_gmtime now))"

text \<open>\<open>gmtoff\<close> is the offset that localtime_r stores with the time, \<open>tzname\<close> the name of the standard time.\<close>

definition hcore_log_get_localtime :: "'d dblops \<Rightarrow> (int \<Rightarrow> hcore_tm) \<Rightarrow> (int \<Rightarrow> int) \<Rightarrow> byte list \<Rightarrow> int \<Rightarrow> byte list run" where
  "hcore_log_get_localtime ops localtime_r gmtoff tzname now =
     (let tm = hcore_localtime localtime_r now;
          gmtoff_m = i32 (cdiv (gmtoff now) 60)
      in hcore_snprintf ops HCORE_LOG_TIME_LENGTH (bytes ''%4d/%02d/%02d %02d:%02d:%02d %c%02d%02d %s%Z'' @ [0])
           (tm_fields tm @ [VInt (if 0 < gmtoff now then 43 else 45), VInt \<bar>cdiv gmtoff_m 60\<bar>,
              VInt \<bar>gmtoff_m - cdiv gmtoff_m 60 * 60\<bar>, VStr (tzname @ [0])]))"

subsection \<open>A line\<close>

abbreviation (input) HCORE_LOG_ERRSTR_LENGTH_MAX :: nat where "HCORE_LOG_ERRSTR_LENGTH_MAX \<equiv> 2048"

abbreviation (input) HCORE_LINEFEED_SIZE :: nat where "HCORE_LINEFEED_SIZE \<equiv> 1"

abbreviation (input) EINVAL :: int where "EINVAL \<equiv> 22"

abbreviation (input) ERANGE :: int where "ERANGE \<equiv> 34"

text \<open>strerror_r gives the text, or fails with an error number.\<close>

definition error_text :: "(int \<Rightarrow> int + byte list) \<Rightarrow> int \<Rightarrow> byte list" where
  "error_text strerror_r err = (case strerror_r err of
      Inr msg \<Rightarrow> msg
    | Inl errno \<Rightarrow> if errno = EINVAL then bytes ''parse error: INVAL'' else if errno = ERANGE then bytes ''parse error: RANGE''
        else bytes ''no parsed'')"

text \<open>The text so far, and what a format adds.\<close>

definition log_add :: "'d dblops \<Rightarrow> string \<Rightarrow> 'd vararg list \<Rightarrow> byte list run \<Rightarrow> byte list run" where
  "log_add ops fmt args p = bind_run p (\<lambda>p. hcore_vslprintf ops HCORE_LOG_ERRSTR_LENGTH_MAX p (bytes fmt @ [0]) args)"

record 'd log_world =
  w_ops :: "'d dblops"
  w_now :: int
  w_localtime_r :: "int \<Rightarrow> hcore_tm"
  w_gmtoff :: "int \<Rightarrow> int"
  w_tzname :: "byte list"
  w_pid :: int
  w_strerror_r :: "int \<Rightarrow> int + byte list"

definition log_head :: "'d log_world \<Rightarrow> int \<Rightarrow> hlog \<Rightarrow> int \<Rightarrow> byte list run" where
  "log_head w level log err =
     (let ops = w_ops w;
          (name, padding) = snd (g_hcore_log_level ! nat level)
      in bind_run (case lg_get_time log of
            Some f \<Rightarrow> Ret (f (w_now w))
          | None \<Rightarrow> hcore_log_get_localtime ops (w_localtime_r w) (w_gmtoff w) (w_tzname w) (w_now w)) (\<lambda>time.
         let p = log_add ops ''%s%Z'' [VStr time] (Ret []);
             p = log_add ops '' [%V%V]'' [VHstr padding (length padding), VHstr name (length name)] p;
             p = log_add ops '' %5P'' [VInt (w_pid w)] p;
             p = log_add ops '' %s:'' [VStr ((case lg_object log of Some t \<Rightarrow> t | None \<Rightarrow> bytes ''unknown'') @ [0])] p
         in if err \<noteq> 0 then log_add ops '' (%d: %s) '' [VInt err, VStr (error_text (w_strerror_r w) err @ [0])] p
            else log_add ops '' (%d) '' [VInt err] p))"

definition log_line :: "'d log_world \<Rightarrow> int \<Rightarrow> hlog \<Rightarrow> int \<Rightarrow> byte list \<Rightarrow> 'd vararg list \<Rightarrow> byte list run" where
  "log_line w level log err fmt args =
     bind_run (log_head w level log err) (\<lambda>p.
     bind_run (hcore_vslprintf (w_ops w) HCORE_LOG_ERRSTR_LENGTH_MAX p fmt args) (\<lambda>p.
       let p = (case lg_handler log of Some h \<Rightarrow> h p | None \<Rightarrow> p) in
       if HCORE_LOG_ERRSTR_LENGTH_MAX < length p then Fault
       else Ret (take (HCORE_LOG_ERRSTR_LENGTH_MAX - HCORE_LINEFEED_SIZE) p @ [10])))"

definition hcore_log_error_core :: "'d log_world \<Rightarrow> int \<Rightarrow> hlog \<Rightarrow> int \<Rightarrow> byte list \<Rightarrow> 'd vararg list \<Rightarrow> sysenv \<Rightarrow> sysenv run" where
  "hcore_log_error_core w level log err fmt args e =
     bind_run (log_line w level log err fmt args) (\<lambda>line. Ret (snd (snd (sys_call (Write (lg_fd log) line) e))))"

text \<open>The macro: the level of the log is unsigned.\<close>

definition hcore_log_error :: "'d log_world \<Rightarrow> int \<Rightarrow> hlog \<Rightarrow> int \<Rightarrow> byte list \<Rightarrow> 'd vararg list \<Rightarrow> sysenv \<Rightarrow> sysenv run" where
  "hcore_log_error w level log err fmt args e =
     (if level \<le> lg_level log then hcore_log_error_core w level log err fmt args e else Ret e)"

definition hcore_write_stderr :: "byte list \<Rightarrow> sysenv \<Rightarrow> sysenv" where
  "hcore_write_stderr t e = snd (snd (sys_call (Write STDERR_FILENO t) e))"

definition hcore_write_stdout :: "byte list \<Rightarrow> sysenv \<Rightarrow> sysenv" where
  "hcore_write_stdout t e = snd (snd (sys_call (Write STDOUT_FILENO t) e))"

subsection \<open>What the log keeps\<close>

lemma log_line_length: "log_line w level log err fmt args = Ret line \<Longrightarrow> length line \<le> HCORE_LOG_ERRSTR_LENGTH_MAX \<and> last line = 10"
  by (auto simp: log_line_def bind_run_Ret_iff Let_def split: if_splits)

lemma log_line_message:
  assumes "log_line w level log err fmt args = Ret line" and "lg_handler log = None"
  shows "\<exists>head msg. log_head w level log err = Ret head
    \<and> hcore_vslprintf (w_ops w) HCORE_LOG_ERRSTR_LENGTH_MAX head fmt args = Ret (head @ msg)
    \<and> line = take (HCORE_LOG_ERRSTR_LENGTH_MAX - HCORE_LINEFEED_SIZE) (head @ msg) @ [10]"
proof -
  obtain head out where h: "log_head w level log err = Ret head" "hcore_vslprintf (w_ops w) HCORE_LOG_ERRSTR_LENGTH_MAX head fmt args = Ret out"
    "line = take (HCORE_LOG_ERRSTR_LENGTH_MAX - HCORE_LINEFEED_SIZE) out @ [10]"
    using assms by (auto simp: log_line_def bind_run_Ret_iff Let_def split: if_splits)
  then show ?thesis using vslprintf_prefix [OF h(2)] by auto
qed

text \<open>C9: a message whose level is over that of the log writes nothing. Every other message makes one call of write, to the
  file of the log, of one line of at most 2048 bytes that ends in a line feed. Without a handler the line is the
  heading and the message; if they and the line feed fit, the message is all that the format gives, cut nowhere.\<close>

theorem log_error_writes_one_line:
  assumes "hcore_log_error w level log err fmt args e = Ret e'"
  shows "if lg_level log < level then e' = e
    else \<exists>line. s_calls e' = s_calls e @ [Write (lg_fd log) line] \<and> length line \<le> HCORE_LOG_ERRSTR_LENGTH_MAX \<and> last line = 10
      \<and> (lg_handler log = None \<longrightarrow> (\<exists>head msg. log_head w level log err = Ret head
          \<and> line = take (HCORE_LOG_ERRSTR_LENGTH_MAX - HCORE_LINEFEED_SIZE) (head @ msg) @ [10]
          \<and> (length (head @ msg) < HCORE_LOG_ERRSTR_LENGTH_MAX \<longrightarrow> line = head @ msg @ [10]
              \<and> (\<forall>cap \<ge> HCORE_LOG_ERRSTR_LENGTH_MAX. hcore_vslprintf (w_ops w) cap head fmt args = Ret (head @ msg)))))"
proof (cases "lg_level log < level")
  case False
  then obtain line where line: "log_line w level log err fmt args = Ret line" "e' = snd (snd (sys_call (Write (lg_fd log) line) e))"
    using assms by (auto simp: hcore_log_error_def hcore_log_error_core_def bind_run_Ret_iff)
  then have calls: "s_calls e' = s_calls e @ [Write (lg_fd log) line]"
    using sys_call_answers [of "Write (lg_fd log) line" e] by (metis prod.collapse)
  have "\<exists>head msg. log_head w level log err = Ret head
      \<and> line = take (HCORE_LOG_ERRSTR_LENGTH_MAX - HCORE_LINEFEED_SIZE) (head @ msg) @ [10]
      \<and> (length (head @ msg) < HCORE_LOG_ERRSTR_LENGTH_MAX \<longrightarrow> line = head @ msg @ [10]
          \<and> (\<forall>cap \<ge> HCORE_LOG_ERRSTR_LENGTH_MAX. hcore_vslprintf (w_ops w) cap head fmt args = Ret (head @ msg)))"
    if none: "lg_handler log = None"
  proof -
    obtain head msg where "log_head w level log err = Ret head"
      "hcore_vslprintf (w_ops w) HCORE_LOG_ERRSTR_LENGTH_MAX head fmt args = Ret (head @ msg)"
      "line = take (HCORE_LOG_ERRSTR_LENGTH_MAX - HCORE_LINEFEED_SIZE) (head @ msg) @ [10]"
      using log_line_message [OF line(1) none] by blast
    then show ?thesis using vslprintf_room [of "w_ops w" HCORE_LOG_ERRSTR_LENGTH_MAX head fmt args "head @ msg"]
      by (intro exI [of _ head] exI [of _ msg]) auto
  qed
  then show ?thesis using False calls log_line_length [OF line(1)] by auto
qed (use assms in \<open>auto simp: hcore_log_error_def\<close>)

definition sample_world :: "int log_world" where
  "sample_world = \<lparr>w_ops = whole_ops, w_now = 0, w_localtime_r = (\<lambda>_. hcore_gmtime 0), w_gmtoff = (\<lambda>_. 0), w_tzname = bytes ''UTC'',
     w_pid = 7, w_strerror_r = (\<lambda>_. Inl 0)\<rparr>"

definition sample_log :: hlog where
  "sample_log = \<lparr>lg_level = 4, lg_fd = 3, lg_filename = bytes ''log'', lg_object = None, lg_handler = None,
     lg_get_time = Some (\<lambda>_. bytes ''now'' @ [0]), lg_internal = False\<rparr>"

lemma copy_cstr_step: "0 < n \<Longrightarrow> copy_cstr n (c # p) = (if c \<noteq> 0 then bind_run (copy_cstr (n - 1) p) (\<lambda>cs. Ret (c # cs)) else Ret [])"
  by (cases n) simp_all

lemma digits_7_0: "num_digits 7 0 = [55]" "num_digits 0 0 = [48]"
  by (simp_all add: num_digits_def dec_loop.simps [of 7] dec_loop.simps [of 0] wrap_simps)

theorem log_error_writes_one_line_witness:
  "\<exists>e' line. hcore_log_error sample_world 3 sample_log 0 (bytes ''hi'' @ [0]) [] \<lparr>s_answers = [], s_calls = []\<rparr> = Ret e'
     \<and> s_calls e' = [Write 3 line] \<and> length line \<le> 2048 \<and> last line = 10"
proof -
  have "\<exists>e'. hcore_log_error sample_world 3 sample_log 0 (bytes ''hi'' @ [0]) [] \<lparr>s_answers = [], s_calls = []\<rparr> = Ret e'"
    by (simp add: hcore_log_error_def hcore_log_error_core_def log_line_def log_head_def log_add_def sample_world_def sample_log_def
        g_hcore_log_level_def bytes_def hcore_vslprintf.simps conversion_def is_digit_def convert_def conv_text_def conv_int_def
        fspec_init_def copy_bytes_def copy_cstr_step Let_def put_number_def hcore_sprintf_num_def digits_7_0 digit_val_def
        wrap_simps)
  then obtain e' where e: "hcore_log_error sample_world 3 sample_log 0 (bytes ''hi'' @ [0]) [] \<lparr>s_answers = [], s_calls = []\<rparr> = Ret e'"
    by blast
  from e log_error_writes_one_line [OF e] show ?thesis by (auto simp: sample_log_def)
qed

text \<open>The names of the levels are read back as the levels, and no other text is a level.\<close>

lemma log_parse_level_names: "(level, name, padding) \<in> set g_hcore_log_level \<Longrightarrow> hcore_log_parse_level (Some name) = level"
  unfolding g_hcore_log_level_def list.set insert_iff empty_iff
  by (elim disjE FalseE) (simp_all add: g_hcore_log_level_def hcore_log_parse_level_def bytes_def wrap_simps)

lemma log_parse_level_others:
  assumes "length str < 2147483648" and "\<forall>(level, name, padding) \<in> set g_hcore_log_level. str \<noteq> name"
  shows "hcore_log_parse_level (Some str) = HCORE_ERROR"
proof -
  have "find (\<lambda>(level, name, padding). int (length name) = i32 (int (length str)) \<and> name = take (length name) str) g_hcore_log_level = None"
    using assms i32_id [of "int (length str)"] by (fastforce simp: find_None_iff)
  then show ?thesis by (simp add: hcore_log_parse_level_def)
qed

text \<open>A name of the zone of five characters, as \<open>+0530\<close>, leaves no room for the terminator: the heading reads behind the
  array.\<close>

definition sample_time :: hcore_tm where
  "sample_time = \<lparr>tm_sec = 30, tm_min = 20, tm_hour = 10, tm_mday = 12, tm_mon = 7, tm_year = 122, tm_wday = 5\<rparr>"

lemma sample_digits:
  "num_digits 2022 0 = [50, 48, 50, 50]" "num_digits 8 0 = [56]" "num_digits 12 0 = [49, 50]" "num_digits 10 0 = [49, 48]"
  "num_digits 20 0 = [50, 48]" "num_digits 30 0 = [51, 48]" "num_digits 5 0 = [53]"
  by (simp_all add: num_digits_def wrap_simps dec_loop.simps [of 2022] dec_loop.simps [of 202] dec_loop.simps [of 20] dec_loop.simps [of 2]
      dec_loop.simps [of 8] dec_loop.simps [of 12] dec_loop.simps [of "Suc 0"] dec_loop.simps [of 10] dec_loop.simps [of 30]
      dec_loop.simps [of 3] dec_loop.simps [of 5])

lemma log_time_zone_name_cut:
  "hcore_log_get_localtime whole_ops (\<lambda>_. sample_time) (\<lambda>_. 19800) (bytes ''+0530'') 0
     = Ret (bytes ''2022/08/12 10:20:30 +0530 +053'')"
  by (simp add: hcore_log_get_localtime_def hcore_localtime_def sample_time_def tm_fields_def hcore_snprintf_def bytes_def cdiv_def
      hcore_vslprintf.simps conversion_def is_digit_def convert_def conv_text_def conv_int_def fspec_init_def copy_cstr_step
      Let_def put_number_def hcore_sprintf_num_def sample_digits digit_val_def wrap_simps)

lemma log_head_zone_name:
  assumes "lg_get_time log = None" and "w_ops w = whole_ops" and "w_localtime_r w = (\<lambda>_. sample_time)"
    and "w_gmtoff w = (\<lambda>_. 19800)" and "w_tzname w = bytes ''+0530''" and "w_now w = 0"
  shows "log_head w level log err = Fault"
proof -
  have cstr: "copy_cstr n p = Fault" if "0 \<notin> set p" "length p < n" for n and p :: "byte list"
    using that by (induction n p rule: copy_cstr.induct) auto
  have "copy_cstr 2048 (bytes ''2022/08/12 10:20:30 +0530 +053'') = Fault" by (rule cstr) (simp_all add: bytes_def)
  then have "log_add whole_ops ''%s%Z'' [VStr (bytes ''2022/08/12 10:20:30 +0530 +053'')] (Ret []) = Fault"
    by (simp add: log_add_def hcore_vslprintf.simps conversion_def is_digit_def convert_def conv_text_def fspec_init_def bytes_def)
  then show ?thesis using assms log_time_zone_name_cut by (simp add: log_head_def Let_def log_add_def split: prod.split)
qed

end
