(* ===== verification/HDebug.thy ===== *)
theory HDebug
  imports HLog HList
begin

section \<open>Memory debugging (src/hcore_debug.c, src/hcore_lib.c with _HCORE_DEBUG)\<close>

text \<open>
  In the debug build every block of hcore_malloc begins with a node: its name, its size and the stack of its
  allocation. The debug object counts what is allocated and freed and keeps the live nodes in a list of HList, in
  the order of their names. \<open>d_nodes\<close> is the nodes in memory, by their address, and \<open>d_db\<close> the global
  \<open>g_hcore_debug\<close>. The list has no pool, so its own memory comes from malloc itself. The stack of a call is an argument,
  the texts of its frames from the innermost on. \<open>Fault\<close> is also a failed assertion.
\<close>

subsection \<open>Data\<close>

abbreviation (input) HCORE_DEBUG_MAX_STACK_NUM :: int where "HCORE_DEBUG_MAX_STACK_NUM \<equiv> 64"

abbreviation (input) HCORE_DEBUG_MAGIC_NUM :: int where "HCORE_DEBUG_MAGIC_NUM \<equiv> 0x01030507090B0D0F"

abbreviation (input) sizeof_hcore_debug_t :: int where "sizeof_hcore_debug_t \<equiv> 64"

abbreviation (input) sizeof_hcore_debug_mnode_t :: int where "sizeof_hcore_debug_mnode_t \<equiv> 56"

record mnode =
  mn_name :: "byte list option"
  mn_size :: int
  mn_bt_num :: nat
  mn_magic :: int
  mn_bt_symbals :: "(int \<times> byte list list) option"
  mn_addr :: int
  mn_debug :: bool

record debug =
  db_pool :: hpool
  db_max_stack_num :: int
  db_mlist_addr :: int
  db_mlist :: "int hlist"
  db_alloced_num :: int
  db_free_num :: int
  db_total_alloced_size :: int
  db_total_free_size :: int

record dstate =
  d_db :: "debug option"
  d_nodes :: "int \<rightharpoonup> mnode"
  d_env :: env

subsection \<open>The order of the nodes\<close>

text \<open>strcasecmp on texts without their terminator.\<close>

definition lower :: "byte \<Rightarrow> byte" where
  "lower c = (if 65 \<le> c \<and> c \<le> 90 then c + 32 else c)"

fun strcasecmp :: "byte list \<Rightarrow> byte list \<Rightarrow> int" where
  "strcasecmp [] [] = 0"
| "strcasecmp [] (b # bs) = - uint (lower b)"
| "strcasecmp (a # as) [] = uint (lower a)"
| "strcasecmp (a # as) (b # bs) = (if lower a = lower b then strcasecmp as bs else uint (lower a) - uint (lower b))"

definition hcore_debug_mnode_cmp :: "(int \<rightharpoonup> mnode) \<Rightarrow> int \<Rightarrow> int \<Rightarrow> int" where
  "hcore_debug_mnode_cmp nodes p1 p2 =
     (case Option.bind (nodes p1) mn_name of
        None \<Rightarrow> -1
      | Some n1 \<Rightarrow> (case Option.bind (nodes p2) mn_name of None \<Rightarrow> 1 | Some n2 \<Rightarrow> strcasecmp n1 n2))"

subsection \<open>Nodes\<close>

definition hcore_debug_get_mnode_of_addr :: "int \<Rightarrow> int" where
  "hcore_debug_get_mnode_of_addr addr = addr - sizeof_hcore_debug_mnode_t"

definition free_symbals :: "mnode \<Rightarrow> env \<Rightarrow> env" where
  "free_symbals node e = (case mn_bt_symbals node of Some (a, fs) \<Rightarrow> hcore_free a e | None \<Rightarrow> e)"

definition hcore_debug_destroy_mnode :: "int \<Rightarrow> dstate \<Rightarrow> dstate run" where
  "hcore_debug_destroy_mnode p st =
     (case d_nodes st p of
        None \<Rightarrow> Fault
      | Some node \<Rightarrow>
          if mn_magic node \<noteq> HCORE_DEBUG_MAGIC_NUM then Fault
          else bind_run
            (if mn_debug node then
               (case d_db st of
                  None \<Rightarrow> Fault
                | Some db \<Rightarrow>
                    let db = db\<lparr>db_free_num := u64 (db_free_num db + 1),
                                db_total_free_size := u64 (db_total_free_size db + mn_size node)\<rparr>
                    in bind_run (hcore_list_delete (db_mlist db) (Some p) (db_pool db, free_symbals node (d_env st)))
                         (\<lambda>(rc, l, s). Ret (st\<lparr>d_db := Some (db\<lparr>db_mlist := l\<rparr>), d_env := snd s\<rparr>)))
             else Ret st)
            (\<lambda>st. Ret (st\<lparr>d_nodes := (d_nodes st)(p := None), d_env := hcore_free p (d_env st)\<rparr>)))"

text \<open>backtrace gives at most as many frames as asked for; backtrace_symbols their texts, in a block of malloc.\<close>

definition hcore_debug_create_mnode :: "int sortlib \<Rightarrow> byte list list \<Rightarrow> byte list option \<Rightarrow> int \<Rightarrow> dstate
    \<Rightarrow> (int option \<times> dstate) run" where
  "hcore_debug_create_mnode lib stack name sz st =
     (if sz = 0 then Fault
      else case hcore_malloc (u64 (sizeof_hcore_debug_mnode_t + sz)) (d_env st) of
        (None, e) \<Rightarrow> Ret (None, st\<lparr>d_env := e\<rparr>)
      | (Some p, e) \<Rightarrow>
          let node = \<lparr>mn_name = name, mn_size = sz, mn_bt_num = 0, mn_magic = HCORE_DEBUG_MAGIC_NUM,
                mn_bt_symbals = None, mn_addr = 0, mn_debug = False\<rparr>
          in (case d_db st of
                None \<Rightarrow> Ret (Some p, st\<lparr>d_env := e, d_nodes := (d_nodes st)(p \<mapsto> node\<lparr>mn_addr := p + sizeof_hcore_debug_mnode_t\<rparr>)\<rparr>)
              | Some db \<Rightarrow>
                  let max_num = min (db_max_stack_num db) HCORE_DEBUG_MAX_STACK_NUM;
                      num = min (length stack) (nat max_num);
                      (b, e) = next_answer e;
                      node = node\<lparr>mn_bt_num := num - 1, mn_bt_symbals := map_option (\<lambda>a. (a, take num stack)) b\<rparr>
                  in if num \<le> 1 then Fault
                     else bind_run (hcore_list_insert lib (Some (hcore_debug_mnode_cmp ((d_nodes st)(p \<mapsto> node))))
                              (db_mlist db) (Some p) (db_pool db, e)) (\<lambda>(rc, l, s).
                       if rc \<noteq> HCORE_OK then
                         Ret (None, st\<lparr>d_db := Some (db\<lparr>db_mlist := l\<rparr>), d_env := hcore_free p (free_symbals node (snd s))\<rparr>)
                       else
                         let db = db\<lparr>db_mlist := l, db_alloced_num := u64 (db_alloced_num db + 1),
                               db_total_alloced_size := u64 (db_total_alloced_size db + sz)\<rparr>;
                             node = node\<lparr>mn_debug := True, mn_addr := p + sizeof_hcore_debug_mnode_t\<rparr>
                         in Ret (Some p, st\<lparr>d_db := Some db, d_nodes := (d_nodes st)(p \<mapsto> node), d_env := snd s\<rparr>))))"

subsection \<open>The debug object\<close>

definition hcore_set_debug :: "debug option \<Rightarrow> dstate \<Rightarrow> dstate" where
  "hcore_set_debug db st = st\<lparr>d_db := db\<rparr>"

definition hcore_get_debug :: "dstate \<Rightarrow> debug option" where
  "hcore_get_debug st = d_db st"

text \<open>The log, the object and its list; where one of them fails the pool stays.\<close>

definition hcore_create_debug :: "int \<Rightarrow> int \<Rightarrow> env \<Rightarrow> debug option \<times> env" where
  "hcore_create_debug sys max_stack_num e =
     (case hcore_create_pool sys 16384 e of
        (None, e) \<Rightarrow> (None, e)
      | (Some pool, e) \<Rightarrow>
          (case hcore_pnalloc pool 64 e of
             (None, pool, e) \<Rightarrow> (None, e)
           | (Some new_log, pool, e) \<Rightarrow>
               (case hcore_pnalloc pool sizeof_hcore_debug_t e of
                  (None, pool, e) \<Rightarrow> (None, e)
                | (Some d, pool, e) \<Rightarrow>
                    (case hcore_create_list False (pool, e) of
                       (None, pool, e) \<Rightarrow> (None, e)
                     | (Some (a, l), pool, e) \<Rightarrow>
                         (Some \<lparr>db_pool = pool, db_max_stack_num = max_stack_num, db_mlist_addr = a, db_mlist = l,
                            db_alloced_num = 0, db_free_num = 0, db_total_alloced_size = 0, db_total_free_size = 0\<rparr>, e)))))"

definition hcore_init_debug :: "int \<Rightarrow> dstate \<Rightarrow> dstate" where
  "hcore_init_debug sys st = (case hcore_create_debug sys 16 (d_env st) of (db, e) \<Rightarrow> hcore_set_debug db (st\<lparr>d_env := e\<rparr>))"

text \<open>The loop of hcore_destroy_debug, for the object that is the global one: the nodes delete themselves from its list.\<close>

partial_function (option) destroy_nodes :: "int \<Rightarrow> dstate \<Rightarrow> dstate run option" where
  "destroy_nodes i st =
     (case d_db st of
        None \<Rightarrow> Some Fault
      | Some db \<Rightarrow>
          if i < l_num (db_mlist db) then
            (case bind_run (list_read (db_mlist db) i) (\<lambda>p. hcore_debug_destroy_mnode p st) of
               Fault \<Rightarrow> Some Fault
             | Ret st \<Rightarrow> destroy_nodes (i + 1) st)
          else Some (Ret st))"

definition hcore_destroy_debug :: "dstate \<Rightarrow> dstate run option" where
  "hcore_destroy_debug st =
     map_option (\<lambda>r. bind_run r (\<lambda>st. case d_db st of
         None \<Rightarrow> Fault
       | Some db \<Rightarrow> Ret (st\<lparr>d_env := hcore_destroy_pool (db_pool db) (hcore_destroy_list (db_mlist_addr db) (db_mlist db) (d_env st))\<rparr>)))
     (destroy_nodes 0 st)"

definition hcore_deinit_debug :: "dstate \<Rightarrow> dstate run option" where
  "hcore_deinit_debug st = hcore_destroy_debug st"

subsection \<open>The allocators of hcore_lib.c\<close>

definition node_addr :: "(int option \<times> dstate) run \<Rightarrow> (int option \<times> dstate) run" where
  "node_addr r = bind_run r (\<lambda>(p, st). Ret (map_option (\<lambda>p. mn_addr (the (d_nodes st p))) p, st))"

definition debug_malloc :: "int sortlib \<Rightarrow> byte list list \<Rightarrow> int \<Rightarrow> dstate \<Rightarrow> (int option \<times> dstate) run" where
  "debug_malloc lib stack sz st = node_addr (hcore_debug_create_mnode lib stack (Some (bytes ''hcore_malloc'')) sz st)"

definition debug_calloc :: "int sortlib \<Rightarrow> byte list list \<Rightarrow> int \<Rightarrow> int \<Rightarrow> dstate \<Rightarrow> (int option \<times> dstate) run" where
  "debug_calloc lib stack n sz st =
     bind_run (node_addr (hcore_debug_create_mnode lib stack (Some (bytes ''hcore_calloc'')) (u64 (n * sz)) st)) (\<lambda>(a, st).
       Ret (a, case a of None \<Rightarrow> st | Some a \<Rightarrow> st\<lparr>d_env := hcore_memzero a (u64 (n * sz)) (d_env st)\<rparr>))"

definition debug_free :: "int \<Rightarrow> dstate \<Rightarrow> dstate run" where
  "debug_free ptr st = hcore_debug_destroy_mnode (hcore_debug_get_mnode_of_addr ptr) st"

definition debug_realloc :: "int sortlib \<Rightarrow> byte list list \<Rightarrow> int option \<Rightarrow> int \<Rightarrow> dstate \<Rightarrow> (int option \<times> dstate) run" where
  "debug_realloc lib stack ptr sz st =
     bind_run (hcore_debug_create_mnode lib stack (Some (bytes ''hcore_realloc'')) sz st) (\<lambda>(new, st).
       case (new, ptr) of
         (Some p, Some a) \<Rightarrow>
           (case d_nodes st (hcore_debug_get_mnode_of_addr a) of
              None \<Rightarrow> Fault
            | Some old \<Rightarrow>
                let copy_size = min (mn_size (the (d_nodes st p))) (mn_size old);
                    e = hcore_memcpy (p + sizeof_hcore_debug_mnode_t) a copy_size (d_env st)
                in bind_run (hcore_debug_destroy_mnode (hcore_debug_get_mnode_of_addr a) (st\<lparr>d_env := e\<rparr>)) (\<lambda>st.
                     node_addr (Ret (Some p, st))))
       | _ \<Rightarrow> node_addr (Ret (new, st)))"

definition debug_memalign :: "int sortlib \<Rightarrow> byte list list \<Rightarrow> int \<Rightarrow> int \<Rightarrow> dstate \<Rightarrow> (int option \<times> dstate) run" where
  "debug_memalign lib stack alignment sz st =
     node_addr (hcore_debug_create_mnode lib stack (Some (bytes ''hcore_memalign'')) sz st)"

subsection \<open>The leak information\<close>

text \<open>What the two functions print, in order: formatted text, sizes with their unit, and reads that fail.\<close>

datatype 'd piece = Text "byte list" "'d vararg list" | Amount int | Crash

definition text_line :: "string \<Rightarrow> 'd vararg list \<Rightarrow> 'd piece" where
  "text_line t args = Text (bytes t @ [10, 0]) args"

definition frame_piece :: "mnode \<Rightarrow> nat \<Rightarrow> 'd piece" where
  "frame_piece node j = (case mn_bt_symbals node of
      None \<Rightarrow> Crash
    | Some (a, fs) \<Rightarrow> if j < length fs then text_line ''    [%i] %s'' [VInt (int j), VStr (fs ! j @ [0])] else Crash)"

definition node_pieces :: "dstate \<Rightarrow> int run \<Rightarrow> 'd piece list" where
  "node_pieces st r = (case r of
      Fault \<Rightarrow> [Crash]
    | Ret p \<Rightarrow>
        (case d_nodes st p of
           None \<Rightarrow> [Crash]
         | Some node \<Rightarrow>
             if mn_magic node \<noteq> HCORE_DEBUG_MAGIC_NUM then [Crash]
             else [text_line ''Name: %s'' [VStr (case mn_name node of None \<Rightarrow> [] | Some t \<Rightarrow> t @ [0])],
                   text_line ''Size: %uz B'' [VInt (mn_size node)]]
                  @ map (frame_piece node) [0..<mn_bt_num node]))"

definition leak_pieces :: "'d piece list \<Rightarrow> dstate \<Rightarrow> debug \<Rightarrow> 'd piece list" where
  "leak_pieces warning st db =
     (let num = l_num (db_mlist db); blank = Text [10, 0] [] in
      (if db_alloced_num db \<noteq> db_free_num db then warning else [])
      @ [Text (10 # bytes ''##### Memory Leak Information #####'' @ [10, 0]) [], text_line ''#'' [],
         text_line ''# Leak Node Number       : %ud'' [VInt num],
         Text (bytes ''# Leak Memory Size       : '' @ [0]) [], Amount (i64 (db_total_alloced_size db - db_total_free_size db)), blank,
         text_line ''#'' [], text_line ''# Allocated Node Number  : %uL'' [VInt (db_alloced_num db)],
         Text (bytes ''# Allocated Memory Size  : '' @ [0]) [], Amount (i64 (db_total_alloced_size db)), blank,
         text_line ''# Free Node Number       : %uL'' [VInt (db_free_num db)],
         Text (bytes ''# Free Memory Size       : '' @ [0]) [], Amount (i64 (db_total_free_size db)), blank,
         text_line ''#'' [], text_line ''##################################'' []]
      @ concat (map (\<lambda>i. node_pieces st (list_read (db_mlist db) (int i))) [0..<nat num]))"

abbreviation (input) leak_warning :: "'d piece" where
  "leak_warning \<equiv> text_line ''Have a memory leak!!!'' []"

abbreviation (input) leak_warning_nl :: "'d piece" where
  "leak_warning_nl \<equiv> Text (10 # bytes ''Have a memory leak!!!'' @ [10, 0]) []"

primrec print_pieces :: "'d dblops \<Rightarrow> nat \<Rightarrow> 'd piece list \<Rightarrow> byte list \<Rightarrow> byte list run option" where
  "print_pieces ops len [] p = Some (Ret p)"
| "print_pieces ops len (x # xs) p =
     (case (case x of
              Text fmt args \<Rightarrow> Some (hcore_vslprintf ops len p fmt args)
            | Amount n \<Rightarrow> map_option (\<lambda>r. bind_run r (\<lambda>t. Ret (p @ t))) (hcore_strlfmt_size ops n (len - length p))
            | Crash \<Rightarrow> Some Fault) of
        None \<Rightarrow> None
      | Some Fault \<Rightarrow> Some Fault
      | Some (Ret p) \<Rightarrow> print_pieces ops len xs p)"

definition hcore_debug_get_memory_leak_info :: "'d dblops \<Rightarrow> nat \<Rightarrow> dstate \<Rightarrow> byte list run option" where
  "hcore_debug_get_memory_leak_info ops len st =
     (case hcore_get_debug st of
        None \<Rightarrow> Some Fault
      | Some db \<Rightarrow> print_pieces ops len (leak_pieces [leak_warning_nl, leak_warning, leak_warning] st db) [])"

primrec aprint_pieces :: "'d dblops \<Rightarrow> 'd piece list \<Rightarrow> astring option \<Rightarrow> sysenv \<Rightarrow> (astring option \<times> sysenv) run option" where
  "aprint_pieces ops [] a e = Some (Ret (a, e))"
| "aprint_pieces ops (x # xs) a e =
     (case (case x of
              Text fmt args \<Rightarrow> Some (hcore_asnprintf ops a (Some fmt) args e)
            | Amount n \<Rightarrow> hcore_astrfmt_size ops a n e
            | Crash \<Rightarrow> Some Fault) of
        None \<Rightarrow> None
      | Some Fault \<Rightarrow> Some Fault
      | Some (Ret (r, a, e)) \<Rightarrow> aprint_pieces ops xs a e)"

definition log_text :: "'d log_world \<Rightarrow> hlog \<Rightarrow> byte list \<Rightarrow> sysenv \<Rightarrow> sysenv run" where
  "log_text w log t e = hcore_log_error w HCORE_LOG_DEBUG log 0 (bytes ''%*s'' @ [0]) [VInt (int (length t)), VStr t] e"

definition hcore_debug_dump_memory_leak_info :: "'d log_world \<Rightarrow> hlog \<Rightarrow> dstate \<Rightarrow> sysenv \<Rightarrow> sysenv run option" where
  "hcore_debug_dump_memory_leak_info w log st e =
     (case hcore_get_debug st of
        None \<Rightarrow> Some Fault
      | Some db \<Rightarrow>
          (case hcore_create_astring 65536 e of
             (None, e) \<Rightarrow> Some (Ret e)
           | (Some a, e) \<Rightarrow>
               map_option (\<lambda>r. bind_run r (\<lambda>(a, e). case a of
                   None \<Rightarrow> Fault
                 | Some a \<Rightarrow> bind_run (log_text w log (as_text a) e) (\<lambda>e. Ret (hcore_destroy_astring (Some a) e))))
               (aprint_pieces (w_ops w) (leak_pieces [leak_warning_nl, leak_warning_nl, leak_warning_nl] st db) (Some a) e)))"

definition hcore_debug_log_memory_leak_info :: "'d log_world \<Rightarrow> hlog \<Rightarrow> dstate \<Rightarrow> sysenv \<Rightarrow> sysenv run option" where
  "hcore_debug_log_memory_leak_info w log st e =
     map_option (\<lambda>r. bind_run r (\<lambda>info. if info = [] then Ret e else log_text w log info e))
       (hcore_debug_get_memory_leak_info (w_ops w) HCORE_LOG_ERRSTR_LENGTH_MAX st)"

subsection \<open>What the counters say\<close>

definition live_nodes :: "dstate \<Rightarrow> int set" where
  "live_nodes st = {p. \<exists>node. d_nodes st p = Some node \<and> mn_debug node}"

definition node_size :: "(int \<rightharpoonup> mnode) \<Rightarrow> int \<Rightarrow> int" where
  "node_size nodes p = mn_size (the (nodes p))"

definition mlist_inv :: "int hlist \<Rightarrow> bool" where
  "mlist_inv l \<longleftrightarrow> \<not> l_pool l \<and> l_sorted l \<and> l_num l = int (length (list_items l)) \<and> 32 \<le> l_reserved l \<and> (l_p l \<noteq> None \<longrightarrow> list_ok l)
     \<and> length (list_items l) < 1073741824 \<and> distinct (list_items l)"

definition counters :: "debug \<Rightarrow> int \<times> int" where
  "counters db = (u64 (db_alloced_num db - db_free_num db), u64 (db_total_alloced_size db - db_total_free_size db))"

definition debug_inv :: "debug \<Rightarrow> dstate \<Rightarrow> bool" where
  "debug_inv db st \<longleftrightarrow> mlist_inv (db_mlist db) \<and> set (list_items (db_mlist db)) = live_nodes st
     \<and> db_alloced_num db \<in> {0..<18446744073709551616} \<and> db_free_num db \<in> {0..<18446744073709551616}
     \<and> counters db = (int (length (list_items (db_mlist db))),
          u64 (sum_list (map (node_size (d_nodes st)) (list_items (db_mlist db)))))"

lemma u64_counts:
  "u64 (u64 (a + k) - f) = u64 (u64 (a - f) + k)" "u64 (a - u64 (f + k)) = u64 (u64 (a - f) - k)"
  "u64 (u64 a + b) = u64 (a + b)" "u64 (b + u64 a) = u64 (b + a)" "u64 (u64 a - b) = u64 (a - b)"
  by (simp_all add: u64_def mod_simps algebra_simps)

text \<open>Inserting: the list has room, or it gets it.\<close>

lemma list_shift_up_null: "l_p l = None \<Longrightarrow> list_shift_up l i pos = Ret l' \<Longrightarrow> l' = l"
  by (simp add: list_shift_up.simps [of l] list_read_def split: if_splits)

lemma insert_Ret_block:
  assumes "mlist_inv l" and "hcore_list_insert lib (Some c) l (Some x) s = Ret (rc, l', s')"
  shows "l_p l \<noteq> None"
proof
  assume none: "l_p l = None"
  have l: "l_sorted l" "0 \<le> l_num l" "32 \<le> l_reserved l" using assms(1) of_nat_0_le_iff [of "length (list_items l)"]
    by (simp_all only: mlist_inv_def)
  show False
  proof (cases "l_num l = 0")
    case True
    then have "list_make_room l s = (False, l\<lparr>l_num := 1\<rparr>, s)" using l by (simp add: list_make_room_def u32_def)
    then show False using assms(2) none True l
      by (simp add: hcore_list_insert_def list_position.simps [of c l x 0] list_write_def)
  next
    case False
    then show False using assms(2) none l
      by (simp add: hcore_list_insert_def list_position.simps [of c l x 0] list_read_def Let_def)
  qed
qed

lemma insert_Ret_room:
  assumes "list_ok l" and "l_sorted l" and "l_reserved l < 536870912"
    and run: "hcore_list_insert lib (Some c) l (Some x) s = Ret (rc, l', s')"
  shows "list_can_grow l s"
proof (rule ccontr)
  assume no: "\<not> list_can_grow l s"
  obtain full l1 s1 where grow: "list_make_room l s = (full, l1, s1)" by (metis surj_pair)
  have num: "u32 (l_num l + 1) = l_num l + 1" "l_reserved l < l_num l + 1" "l_p (fst (list_resize (u32 (l_reserved l * 2)) l s)) = None"
    using no assms(1,3) by (auto simp: list_can_grow_def list_ok_def u32_id)
  have "l_p l1 = l_p (fst (list_resize (u32 (l_reserved l * 2)) l s))"
    using grow num(1,2) by (auto simp: list_make_room_def list_resize_def split: prod.splits)
  then have none: "l_p l1 = None" using num(3) by simp
  obtain pos where "list_position c l x 0 (l_num l - 1) = Ret pos" 
    "bind_run (if 2 \<le> l_num l1 then list_shift_up l1 (l_num l1 - 2) pos else Ret l1) (\<lambda>l. bind_run (list_write l pos x) (\<lambda>l. Ret (HCORE_OK, l, s1))) = Ret (rc, l', s')"
    using run assms(2) grow by (auto simp: hcore_list_insert_def bind_run_Ret_iff)
  then obtain l2 where "l_p l2 = None" "bind_run (list_write l2 pos x) (\<lambda>l. Ret (HCORE_OK, l, s1)) = Ret (rc, l', s')"
    using none list_shift_up_null [OF none] by (auto simp: bind_run_Ret_iff split: if_splits)
  then show False by (simp add: list_write_def)
qed

lemma mlist_insert:
  assumes inv: "mlist_inv l" and "l_reserved l < 536870912" and new: "x \<notin> set (list_items l)"
    and run: "hcore_list_insert lib (Some c) l (Some x) s = Ret (rc, l', s')"
  shows "rc = HCORE_OK \<and> mlist_inv l' \<and> mset (list_items l') = add_mset x (mset (list_items l))"
proof -
  have l: "list_ok l" "l_sorted l" using inv insert_Ret_block [OF inv run] by (auto simp: mlist_inv_def)
  obtain full l1 s1 where grow: "list_make_room l s = (full, l1, s1)" by (metis surj_pair)
  obtain p where p: "list_position c l x 0 (l_num l - 1) = Ret (int p)" "int p \<le> l_num l"
    using list_position_range [OF l(1), of 0 "l_num l - 1" c x] l(1) by (auto simp: list_ok_def)
  note room = insert_Ret_room [OF l assms(2) run]
  obtain l2 where l2: "hcore_list_insert lib (Some c) l (Some x) s = Ret (HCORE_OK, l2, s1)"
    "list_ok l2" "l_sorted l2" "l_pool l2 = l_pool l1" "list_items l2 = take p (list_items l) @ x # drop p (list_items l)"
    by (rule list_insert_at [OF l room grow p, of lib])
  have "mset (us @ x # vs) = add_mset x (mset (us @ vs))" for us vs by simp
  from this [of "take p (list_items l)" "drop p (list_items l)"] l2(5)
  have "mset (list_items l2) = add_mset x (mset (take p (list_items l) @ drop p (list_items l)))" by (simp only:)
  then have items: "mset (list_items l2) = add_mset x (mset (list_items l))" unfolding append_take_drop_id .
  then have "distinct (list_items l2)" using inv new mset_eq_imp_distinct_iff [of "list_items l2" "x # list_items l"]
    by (simp add: mlist_inv_def)
  moreover have "int (length (list_items l2)) < 1073741824" using list_items_length [OF l2(2)] l2(2) by (simp add: list_ok_def)
  moreover have "l_pool l1 = l_pool l"
    using grow by (auto simp: list_make_room_def list_resize_def Let_def split: if_splits prod.splits)
  moreover have "rc = HCORE_OK" "l' = l2" using run l2(1) by simp_all
  ultimately show ?thesis using inv l2(2-4) items list_items_length [OF l2(2)] by (simp add: mlist_inv_def list_ok_def)
qed

lemma mlist_delete:
  assumes inv: "mlist_inv l" and old: "x \<in> set (list_items l)" and run: "hcore_list_delete l (Some x) s = Ret (rc, l', s')"
  shows "mlist_inv l' \<and> list_items l' = remove1 x (list_items l)"
proof -
  have "l_p l \<noteq> None"
  proof
    assume none: "l_p l = None"
    have "0 < l_num l" using old inv by (cases "l_num l = 0") (auto simp: mlist_inv_def list_items_def)
    then show False using run none by (simp add: hcore_list_delete_def list_index.simps [of l x 0] list_read_def)
  qed
  then have "list_ok l" using inv by (simp add: mlist_inv_def)
  from list_delete_steps [OF this, of x s] old run
  have l': "list_items l' = remove1 x (list_items l)" "l_sorted l' = l_sorted l" "l_p l' \<noteq> None \<longrightarrow> list_ok l'"
    "l_num l' = int (length (list_items l'))" "32 \<le> l_reserved l'" "l_pool l' = l_pool l" by auto
  then show ?thesis using inv length_remove1 [of x "list_items l"] by (auto simp: mlist_inv_def)
qed

lemma sum_sizes: "mset ys = add_mset x (mset xs) \<Longrightarrow> sum_list (map f ys) = (f x :: int) + sum_list (map f xs)"
  by (simp flip: sum_mset_sum_list)

lemma sizes_upd: "p \<notin> set xs \<Longrightarrow> sum_list (map (node_size (nodes(p := v))) xs) = sum_list (map (node_size nodes) xs)"
  by (rule arg_cong [of _ _ sum_list]) (auto simp: node_size_def)

definition fresh_malloc :: "dstate \<Rightarrow> bool" where
  "fresh_malloc st \<longleftrightarrow> (\<forall>p. fst (next_answer (d_env st)) = Some p \<longrightarrow> d_nodes st p = None)"

lemma create_Ret:
  assumes "d_db st = Some db" and "hcore_debug_create_mnode lib stack name sz st = Ret (r, st')"
  obtains (none) e where "r = None" "st' = st\<lparr>d_env := e\<rparr>"
  | (node) p e e1 c node rc l s where "next_answer (d_env st) = (Some p, e)"
      and "hcore_list_insert lib (Some c) (db_mlist db) (Some p) (db_pool db, e1) = Ret (rc, l, s)"
      and "mn_size node = sz" "mn_debug node" "mn_addr node = p + sizeof_hcore_debug_mnode_t"
      and "rc = HCORE_OK \<Longrightarrow> r = Some p \<and> st' = st\<lparr>d_db := Some (db\<lparr>db_mlist := l, db_alloced_num := u64 (db_alloced_num db + 1),
            db_total_alloced_size := u64 (db_total_alloced_size db + sz)\<rparr>), d_nodes := (d_nodes st)(p \<mapsto> node), d_env := snd s\<rparr>"
proof (cases "next_answer (d_env st)")
  case (Pair r1 e)
  show thesis
  proof (cases r1)
    case None
    then show thesis using assms Pair none by (auto simp: hcore_debug_create_mnode_def hcore_malloc_def split: if_splits)
  next
    case (Some p)
    obtain b e1 where b: "next_answer e = (b, e1)" by (meson surj_pair)
    define num where "num = min (length stack) (nat (min (db_max_stack_num db) 64))"
    define nd where "nd = \<lparr>mn_name = name, mn_size = sz, mn_bt_num = num - 1, mn_magic = HCORE_DEBUG_MAGIC_NUM,
      mn_bt_symbals = map_option (\<lambda>a. (a, take num stack)) b, mn_addr = 0, mn_debug = False\<rparr>"
    obtain rc l s where ins: "hcore_list_insert lib (Some (hcore_debug_mnode_cmp ((d_nodes st)(p \<mapsto> nd)))) (db_mlist db) (Some p) (db_pool db, e1)
        = Ret (rc, l, s)"
      and rest: "rc = HCORE_OK \<Longrightarrow> r = Some p \<and> st' = st\<lparr>d_db := Some (db\<lparr>db_mlist := l, db_alloced_num := u64 (db_alloced_num db + 1),
            db_total_alloced_size := u64 (db_total_alloced_size db + sz)\<rparr>),
            d_nodes := (d_nodes st)(p \<mapsto> nd\<lparr>mn_debug := True, mn_addr := p + 56\<rparr>), d_env := snd s\<rparr>"
      using assms Pair Some b
      by (auto simp: hcore_debug_create_mnode_def hcore_malloc_def Let_def bind_run_Ret_iff nd_def num_def [symmetric] split: if_splits)
    show thesis using node [OF _ ins _ _ _ rest] Pair Some by (simp add: nd_def)
  qed
qed

lemma create_inv:
  assumes inv: "debug_inv db st" "d_db st = Some db" and small: "l_reserved (db_mlist db) < 536870912" and fresh: "fresh_malloc st"
    and run: "hcore_debug_create_mnode lib stack name sz st = Ret (r, st')"
  shows "\<exists>db'. d_db st' = Some db' \<and> debug_inv db' st'"
  using inv(2) run
proof (cases rule: create_Ret)
  case (none e)
  then show ?thesis using inv by (auto simp: debug_inv_def live_nodes_def)
next
  case (node p e e1 c nd rc l s)
  let ?xs = "list_items (db_mlist db)"
  have dead: "d_nodes st p = None" using fresh node(1) by (simp add: fresh_malloc_def)
  then have new: "p \<notin> set ?xs" using inv(1) by (auto simp: debug_inv_def live_nodes_def)
  have "mlist_inv (db_mlist db)" using inv(1) by (simp add: debug_inv_def)
  from mlist_insert [OF this small new node(2)]
  have l: "rc = HCORE_OK" "mlist_inv l" "mset (list_items l) = add_mset p (mset ?xs)" by auto
  define db1 where "db1 = db\<lparr>db_mlist := l, db_alloced_num := u64 (db_alloced_num db + 1),
    db_total_alloced_size := u64 (db_total_alloced_size db + sz)\<rparr>"
  have st': "st' = st\<lparr>d_db := Some db1, d_nodes := (d_nodes st)(p \<mapsto> nd), d_env := snd s\<rparr>" using node(6) [OF l(1)] by (simp add: db1_def)
  have live: "set (list_items l) = live_nodes st'"
    using inv(1) mset_eq_setD [of "list_items l" "p # ?xs"] l(3) node(4) dead by (auto simp: debug_inv_def live_nodes_def st')
  have sizes: "sum_list (map (node_size (d_nodes st')) (list_items l)) = sz + sum_list (map (node_size (d_nodes st)) ?xs)"
    using sum_sizes [OF l(3)] sizes_upd [OF new] node(3) by (simp add: st' node_size_def)
  have len: "length (list_items l) = Suc (length ?xs)" using mset_eq_length [of "list_items l" "p # ?xs"] l(3) by simp
  have "counters db1 = (u64 (fst (counters db) + 1), u64 (snd (counters db) + sz))"
    by (simp add: counters_def db1_def u64_counts) (simp add: algebra_simps)
  also have "\<dots> = (int (length (list_items l)), u64 (sum_list (map (node_size (d_nodes st')) (list_items l))))"
    using inv(1) l(2) len by (simp add: debug_inv_def u64_counts sizes mlist_inv_def u64_id add.commute)
  finally have "counters db1 = \<dots>" .
  then have "debug_inv db1 st'" using inv(1) l(2) live u64_range by (simp add: debug_inv_def db1_def)
  then show ?thesis by (auto simp: st')
qed

lemma destroy_inv:
  assumes inv: "debug_inv db st" "d_db st = Some db" and run: "hcore_debug_destroy_mnode p st = Ret st'"
  shows "\<exists>db'. d_db st' = Some db' \<and> debug_inv db' st' \<and> list_items (db_mlist db') = remove1 p (list_items (db_mlist db))"
proof -
  let ?xs = "list_items (db_mlist db)"
  obtain nd where nd: "d_nodes st p = Some nd" using run by (auto simp: hcore_debug_destroy_mnode_def split: option.splits)
  show ?thesis
  proof (cases "mn_debug nd")
    case False
    then have st': "st' = st\<lparr>d_nodes := (d_nodes st)(p := None), d_env := hcore_free p (d_env st)\<rparr>"
      using run nd by (simp add: hcore_debug_destroy_mnode_def split: if_splits)
    have "p \<notin> set ?xs" using inv(1) nd False by (auto simp: debug_inv_def live_nodes_def)
    then show ?thesis using inv nd False sizes_upd [of p ?xs "d_nodes st" None]
      by (auto simp: debug_inv_def live_nodes_def st' remove1_idem)
  next
    case True
    define db1 where "db1 = db\<lparr>db_free_num := u64 (db_free_num db + 1), db_total_free_size := u64 (db_total_free_size db + mn_size nd)\<rparr>"
    obtain rc l s where del: "hcore_list_delete (db_mlist db) (Some p) (db_pool db, free_symbals nd (d_env st)) = Ret (rc, l, s)"
      and st': "st' = st\<lparr>d_db := Some (db1\<lparr>db_mlist := l\<rparr>), d_nodes := (d_nodes st)(p := None), d_env := hcore_free p (snd s)\<rparr>"
      using run nd True inv(2) by (auto simp: hcore_debug_destroy_mnode_def db1_def bind_run_Ret_iff Let_def split: if_splits)
    have old: "p \<in> set ?xs" using inv(1) nd True by (auto simp: debug_inv_def live_nodes_def)
    have mi: "mlist_inv (db_mlist db)" using inv(1) by (simp add: debug_inv_def)
    have l: "mlist_inv l" "list_items l = remove1 p ?xs" using mlist_delete [OF mi old del] by simp_all
    have gone: "set (list_items l) = set ?xs - {p}" "p \<notin> set (list_items l)" using mi l(2) by (auto simp: mlist_inv_def)
    have live: "set (list_items l) = live_nodes st'" using inv(1) gone(1) by (auto simp: debug_inv_def live_nodes_def st')
    have sizes: "sum_list (map (node_size (d_nodes st')) (list_items l)) = sum_list (map (node_size (d_nodes st)) ?xs) - mn_size nd"
      using sum_list_map_remove1 [OF old, of "node_size (d_nodes st)"] sizes_upd [OF gone(2)] nd by (simp add: st' l(2) node_size_def)
    have "0 < length ?xs" "length (list_items l) = length ?xs - 1"
      using length_pos_if_in_set [OF old] old by (simp_all add: l(2) length_remove1)
    then have len: "int (length (list_items l)) = int (length ?xs) - 1" "0 < length ?xs" by linarith+
    have "counters (db1\<lparr>db_mlist := l\<rparr>) = (u64 (fst (counters db) - 1), u64 (snd (counters db) - mn_size nd))"
      by (simp add: counters_def db1_def u64_counts)
    also have "\<dots> = (int (length (list_items l)), u64 (sum_list (map (node_size (d_nodes st')) (list_items l))))"
      using inv(1) l(1) len by (simp add: debug_inv_def u64_counts sizes mlist_inv_def u64_id)
    finally have "counters (db1\<lparr>db_mlist := l\<rparr>) = \<dots>" .
    then have "debug_inv (db1\<lparr>db_mlist := l\<rparr>) st'" using inv(1) l(1) live u64_range by (simp add: debug_inv_def db1_def)
    then show ?thesis by (auto simp: st' l(2))
  qed
qed

subsection \<open>The order of the list\<close>

text \<open>On the nodes with a name the callback is an order by names without case. Nodes without one have none: each is before the
  other.\<close>

lemma strcasecmp_swap: "0 \<notin> set s \<Longrightarrow> 0 \<notin> set t \<Longrightarrow> strcasecmp s t < 0 \<longleftrightarrow> 0 < strcasecmp t s"
  by (induction s t rule: strcasecmp.induct) (auto simp: lower_def)

lemma lower_ne: "c \<noteq> 0 \<Longrightarrow> 0 < uint (lower c)"
proof -
  assume "c \<noteq> 0"
  then have "lower c \<noteq> 0" by (auto simp: lower_def word_le_def uint_word_ariths simp flip: uint_0_iff) 
  then show ?thesis using uint_0_iff [of "lower c"] uint_ge_0 [of "lower c"] by linarith
qed

lemma strcasecmp_Nil [simp]: "strcasecmp [] u \<le> 0"
  by (cases u) simp_all

lemma strcasecmp_trans:
  "0 \<notin> set s \<Longrightarrow> 0 \<notin> set t \<Longrightarrow> 0 \<notin> set u \<Longrightarrow> strcasecmp s t \<le> 0 \<Longrightarrow> strcasecmp t u \<le> 0 \<Longrightarrow> strcasecmp s u \<le> 0"
proof (induction s t arbitrary: u rule: strcasecmp.induct)
  case (4 a as b bs)
  then obtain c cs where u: "u = c # cs" using lower_ne [of b] by (cases u) auto
  show ?case
  proof (cases "lower a = lower b \<and> lower b = lower c")
    case True
    then show ?thesis using 4 u by simp
  next
    case False
    then show ?thesis using 4(5,6) u by (auto simp: word_uint_eq_iff split: if_splits)
  qed
qed (auto split: list.splits dest!: lower_ne)

definition named :: "(int \<rightharpoonup> mnode) \<Rightarrow> int set" where
  "named nodes = {p. \<exists>t. Option.bind (nodes p) mn_name = Some t \<and> 0 \<notin> set t}"

interpretation debug_order: comparator "hcore_debug_mnode_cmp nodes" "named nodes" for nodes
proof
  fix p q assume "p \<in> named nodes" "q \<in> named nodes"
  then show "hcore_debug_mnode_cmp nodes p q < 0 \<longleftrightarrow> 0 < hcore_debug_mnode_cmp nodes q p"
    by (auto simp: hcore_debug_mnode_cmp_def named_def strcasecmp_swap)
next
  fix p q r assume "p \<in> named nodes" "q \<in> named nodes" "r \<in> named nodes"
    and "hcore_debug_mnode_cmp nodes p q \<le> 0" "hcore_debug_mnode_cmp nodes q r \<le> 0"
  then show "hcore_debug_mnode_cmp nodes p r \<le> 0"
    by (auto simp: hcore_debug_mnode_cmp_def named_def elim!: strcasecmp_trans [rotated -2])
qed

lemma debug_insert_in_order:
  assumes "list_ok l" "l_sorted l" "list_can_grow l s" and names: "set (list_items l) \<union> {p} \<subseteq> named nodes"
    and "sorted_cmp (hcore_debug_mnode_cmp nodes) (list_items l)"
  shows "\<exists>l' s'. hcore_list_insert lib (Some (hcore_debug_mnode_cmp nodes)) l (Some p) s = Ret (HCORE_OK, l', s')
    \<and> sorted_cmp (hcore_debug_mnode_cmp nodes) (list_items l')"
proof -
  let ?c = "hcore_debug_mnode_cmp nodes"
  obtain full l1 s1 where grow: "list_make_room l s = (full, l1, s1)" by (metis surj_pair)
  have cmp: "comparator ?c (set (list_items l) \<union> {p})"
    using names by unfold_locales (blast intro: debug_order.cmp_swap [THEN iffD1] debug_order.cmp_swap [THEN iffD2] debug_order.cmp_trans)+
  obtain k l' where r: "hcore_list_insert lib (Some ?c) l (Some p) s = Ret (HCORE_OK, l', s1)"
    "list_items l' = take k (list_items l) @ p # drop k (list_items l)"
    "\<forall>j<k. ?c (list_items l ! j) p \<le> 0" "\<forall>j. k \<le> j \<and> int j < l_num l \<longrightarrow> ?c p (list_items l ! j) \<le> 0"
    by (rule list_insert_steps [OF assms(1-3) grow cmp assms(5), of lib])
  then show ?thesis using sorted_cmp_inserted [OF assms(5) r(3)] list_items_length [OF assms(1)] by simp
qed

subsection \<open>Leaks\<close>

text \<open>From a new object on, any calls in any order. A block that malloc gives is not in use, and fewer than 2^29 words are
  reserved in the list.\<close>

definition debug_start :: "dstate \<Rightarrow> bool" where
  "debug_start st \<longleftrightarrow> (\<exists>db. d_db st = Some db \<and> list_ok (db_mlist db) \<and> \<not> l_pool (db_mlist db) \<and> l_sorted (db_mlist db)
     \<and> l_num (db_mlist db) = 0 \<and> db_alloced_num db = 0 \<and> db_free_num db = 0 \<and> db_total_alloced_size db = 0
     \<and> db_total_free_size db = 0) \<and> live_nodes st = {}"

inductive debug_reach :: "int sortlib \<Rightarrow> dstate \<Rightarrow> bool" for lib where
  start: "debug_start st \<Longrightarrow> debug_reach lib st"
| create: "debug_reach lib st \<Longrightarrow> fresh_malloc st \<Longrightarrow> \<forall>db. d_db st = Some db \<longrightarrow> l_reserved (db_mlist db) < 536870912
    \<Longrightarrow> hcore_debug_create_mnode lib stack name sz st = Ret (r, st') \<Longrightarrow> debug_reach lib st'"
| destroy: "debug_reach lib st \<Longrightarrow> hcore_debug_destroy_mnode p st = Ret st' \<Longrightarrow> debug_reach lib st'"

lemma debug_start_inv: "debug_start st \<Longrightarrow> \<exists>db. d_db st = Some db \<and> debug_inv db st"
  by (auto simp: debug_start_def debug_inv_def mlist_inv_def list_items_def list_ok_def counters_def u64_def)

lemma debug_reach_inv: "debug_reach lib st \<Longrightarrow> \<exists>db. d_db st = Some db \<and> debug_inv db st"
proof (induction rule: debug_reach.induct)
  case (start st)
  then show ?case by (rule debug_start_inv)
next
  case (create st stack name sz r st')
  then show ?case using create_inv by blast
next
  case (destroy st p st')
  then show ?case using destroy_inv by blast
qed

lemma u64_diff_zero: "a \<in> {0..<18446744073709551616} \<Longrightarrow> b \<in> {0..<18446744073709551616} \<Longrightarrow> u64 (a - b) = 0 \<longleftrightarrow> a = b"
proof -
  assume *: "a \<in> {0..<18446744073709551616}" "b \<in> {0..<18446744073709551616}"
  have "u64 (a - b) = 0 \<longleftrightarrow> a mod 18446744073709551616 = b mod 18446744073709551616"
    unfolding u64_def by (simp add: mod_eq_dvd_iff dvd_eq_mod_eq_0)
  then show ?thesis using * by simp
qed


definition sample_dstate :: dstate where
  "sample_dstate = \<lparr>d_db = Some \<lparr>db_pool = sample_pool, db_max_stack_num = 16, db_mlist_addr = 16,
       db_mlist = \<lparr>l_pool = False, l_num = 0, l_reserved = 32, l_p = Some 64, l_vec = replicate 32 0, l_sorted = True\<rparr>,
       db_alloced_num = 0, db_free_num = 0, db_total_alloced_size = 0, db_total_free_size = 0\<rparr>,
     d_nodes = Map.empty, d_env = \<lparr>answers = [Some 4096, Some 8192], trace = [], mem = \<lambda>_. 0\<rparr>\<rparr>"

lemma sample_create:
  "\<exists>st db. hcore_debug_create_mnode ref_sortlib [bytes ''create'', bytes ''main''] (Some (bytes ''a'')) 8 sample_dstate = Ret (Some 4096, st)
     \<and> d_db st = Some db \<and> db_alloced_num db = 1 \<and> db_free_num db = 0 \<and> live_nodes st = {4096}"
  by (simp add: hcore_debug_create_mnode_def sample_dstate_def hcore_malloc_def next_answer_def hcore_list_insert_def Let_def
      list_position.simps [of _ _ _ 0] list_make_room_def u32_def u64_def list_write_def live_nodes_def)


subsection \<open>What goes wrong\<close>

text \<open>A list without a pool cannot be created (HList), so there is never a debug object; the pool made for it is not destroyed.\<close>

lemma create_debug_fails: "fst (hcore_create_debug sys n e) = None"
  by (auto simp: hcore_create_debug_def hcore_create_list_def hcore_init_list_def Let_def split: prod.splits option.splits)

lemma init_debug_is_off: "d_db (hcore_init_debug sys st) = None"
  using create_debug_fails [of sys 16 "d_env st"] by (auto simp: hcore_init_debug_def hcore_set_debug_def split: prod.splits)

text \<open>The loop of hcore_destroy_debug goes on to the next index when the nodes behind have moved down: it frees every
  other node and leaves half of them.\<close>

lemma destroy_nodes_skips:
  assumes "debug_inv db st" and "d_db st = Some db" and "i \<le> length (list_items (db_mlist db))"
    and "destroy_nodes (int i) st = Some (Ret st')"
  shows "\<exists>db'. d_db st' = Some db' \<and> debug_inv db' st'
    \<and> 2 * length (list_items (db_mlist db')) \<in> {length (list_items (db_mlist db)) + i, length (list_items (db_mlist db)) + i - 1}"
  using assms
proof (induction "length (list_items (db_mlist db)) - i" arbitrary: db st i rule: less_induct)
  case less
  let ?n = "length (list_items (db_mlist db))"
  have num: "l_num (db_mlist db) = int ?n" using less.prems(1) by (simp add: debug_inv_def mlist_inv_def)
  show ?case
  proof (cases "i < ?n")
    case False
    then have "st' = st" using less.prems num by (simp add: destroy_nodes.simps)
    then show ?thesis using less.prems False by auto
  next
    case True
    let ?r = "bind_run (list_read (db_mlist db) (int i)) (\<lambda>p. hcore_debug_destroy_mnode p st)"
    have step: "(case ?r of Fault \<Rightarrow> Some Fault | Ret st \<Rightarrow> destroy_nodes (int i + 1) st) = Some (Ret st')"
      using less.prems(4) True num unfolding destroy_nodes.simps [of "int i" st] less.prems(2) by simp
    then obtain st1 where r: "?r = Ret st1" by (cases ?r) auto
    then obtain p where p: "list_read (db_mlist db) (int i) = Ret p" "hcore_debug_destroy_mnode p st = Ret st1"
      "destroy_nodes (int (Suc i)) st1 = Some (Ret st')"
      using r [unfolded bind_run_Ret_iff] step [unfolded r] by (auto simp: add.commute)
    have "list_ok (db_mlist db)" using less.prems(1) p(1) by (auto simp: debug_inv_def mlist_inv_def list_read_def)
    then have "p = list_items (db_mlist db) ! i"
      using list_read_item [of "db_mlist db" "int i"] p(1) num True by (simp del: list_items_length)
    then have old: "p \<in> set (list_items (db_mlist db))" using True by simp
    obtain db1 where db1: "d_db st1 = Some db1" "debug_inv db1 st1" "list_items (db_mlist db1) = remove1 p (list_items (db_mlist db))"
      using destroy_inv [OF less.prems(1,2) p(2)] by blast
    then have len: "length (list_items (db_mlist db1)) = ?n - 1" using old by (simp add: length_remove1)
    show ?thesis
    proof (cases "Suc i \<le> ?n - 1")
      case le: True
      have sums: "length (list_items (db_mlist db1)) + Suc i = ?n + i" using len True by simp
      have "length (list_items (db_mlist db1)) - Suc i < ?n - i" "Suc i \<le> length (list_items (db_mlist db1))" using len le True by simp_all
      from less.hyps [OF this(1) db1(2,1) this(2) p(3)] show ?thesis unfolding sums .
    next
      case False
      then have "st' = st1" using p(3) db1 len by (simp add: destroy_nodes.simps debug_inv_def mlist_inv_def)
      then show ?thesis using db1 len False True by auto
    qed
  qed
qed

text \<open>The first frame is not skipped: only the number of frames is made smaller, so a node prints the frame of
  hcore_debug_create_mnode and not the outermost one.\<close>

lemma node_prints_own_frame:
  assumes "mn_bt_symbals node = Some (a, take n stack)" and "1 < n" and "n \<le> length stack"
  shows "frame_piece node 0 = text_line ''    [%i] %s'' [VInt 0, VStr (hd stack @ [0])]"
  using assms by (auto simp: frame_piece_def hd_conv_nth)

text \<open>The information never leaves the buffer.\<close>

lemma print_pieces_bound:
  "print_pieces ops len xs p = Some (Ret t) \<Longrightarrow> length p \<le> len \<Longrightarrow> length t \<le> len"
proof (induction xs arbitrary: p)
  case (Cons x xs)
  have "\<exists>q. print_pieces ops len xs q = Some (Ret t) \<and> length q \<le> len"
  proof (cases x)
    case (Text fmt args)
    then show ?thesis using Cons.prems vslprintf_bound [of ops len p fmt args] by (cases "hcore_vslprintf ops len p fmt args") auto
  next
    case (Amount n)
    then obtain r where r: "hcore_strlfmt_size ops n (len - length p) = Some (Ret r)" "print_pieces ops len xs (p @ r) = Some (Ret t)"
      using Cons.prems(1) by (cases "hcore_strlfmt_size ops n (len - length p)" rule: option.exhaust)
        (auto split: option.splits run.splits simp: bind_run_Ret_iff)
    have "length r \<le> len - length p"
      using r(1) vslprintf_bound [of ops "len - length p" "[]" _ _ r]
      by (auto simp: hcore_strlfmt_size_def hcore_slprintf_def Let_def split: if_splits option.splits)
    then show ?thesis using r(2) Cons.prems(2) by (intro exI [of _ "p @ r"]) auto
  next
    case Crash
    then show ?thesis using Cons.prems(1) by simp
  qed
  then show ?case using Cons.IH by blast
qed simp

lemma leak_info_fits: "hcore_debug_get_memory_leak_info ops len st = Some (Ret t) \<Longrightarrow> length t \<le> len"
  by (cases "d_db st") (simp_all add: hcore_debug_get_memory_leak_info_def hcore_get_debug_def print_pieces_bound [of ops len _ "[]" t])

end
