(* ===== verification/HProcess.thy ===== *)
theory HProcess
  imports HInet HPool
begin

section \<open>Paths and pid files (src/hcore_path.c, src/hcore_pid.c)\<close>

text \<open>
  Texts are given with or without their terminator as in HFormat. The file system of the pid files is a map from names to
  contents, with the names that fopen refuses and the processes that answer to signal 0; \<open>fprintf\<close> and \<open>fscanf\<close> of
  one \<open>%d\<close> are written out. \<open>None\<close> is a null pointer.
\<close>

subsection \<open>Full paths\<close>

abbreviation (input) HCORE_ABSPATH_SEP :: byte where "HCORE_ABSPATH_SEP \<equiv> 47"

text \<open>\<open>hcore_is_abspath\<close> reads the first byte, which is the terminator of an empty text.\<close>

definition hcore_is_abspath :: "byte list \<Rightarrow> bool" where
  "hcore_is_abspath path = (hd (path @ [0]) = HCORE_ABSPATH_SEP)"

text \<open>A path: the address of its bytes, \<open>len\<close>, and what was printed to them.\<close>

definition hcore_get_full_path :: "'d dblops \<Rightarrow> byte list option \<Rightarrow> byte list \<Rightarrow> hpool \<Rightarrow> env
    \<Rightarrow> ((int \<times> int \<times> byte list) option \<times> hpool \<times> env) run" where
  "hcore_get_full_path ops src def_path pool e =
     (case src of
        None \<Rightarrow> Fault
      | Some src \<Rightarrow>
          let prefix = (if hcore_is_abspath src \<or> length def_path = 0 then [] else def_path) in
          (case hcore_pnalloc pool 16 e of
             (None, pool, e) \<Rightarrow> Ret (None, pool, e)
           | (Some dst, pool, e) \<Rightarrow>
               let len = u64 (int (length def_path) + 1 + int (length src)) in
               (case hcore_pnalloc pool (u64 (len + 1)) e of
                  (None, pool, e) \<Rightarrow> Ret (None, pool, e)
                | (Some d, pool, e) \<Rightarrow>
                    bind_run (if prefix \<noteq> [] then
                        hcore_snprintf ops (nat (u64 (len + 1))) (bytes ''%V/%s%Z'' @ [0]) [VHstr prefix (length prefix), VStr (src @ [0])]
                      else hcore_snprintf ops (nat (u64 (len + 1))) (bytes ''%s%Z'' @ [0]) [VStr (src @ [0])])
                      (\<lambda>t. Ret (Some (d, len, t), pool, e)))))"

lemma copy_cstr_text: "0 \<notin> set t \<Longrightarrow> length t \<le> n \<Longrightarrow> copy_cstr n (t @ [0]) = Ret t"
proof (induction t arbitrary: n)
  case Nil
  then show ?case by (cases n) simp_all
next
  case (Cons c t)
  then obtain m where "n = Suc m" by (cases n) auto
  then show ?case using Cons by auto
qed

lemma vslprintf_s:
  assumes "0 \<notin> set t" and "length buf + length t \<le> cap" and "length buf < cap"
  shows "hcore_vslprintf ops cap buf (37 # 115 # fmt) (VStr (t @ [0]) # args) = hcore_vslprintf ops cap (buf @ t) fmt args"
proof -
  have "copy_cstr (cap - length buf) (t @ [0]) = Ret t" using assms by (intro copy_cstr_text) auto
  then show ?thesis using assms(3)
    by (simp add: hcore_vslprintf.simps [of _ _ _ "37 # 115 # fmt"] conversion_def is_digit_def convert_def conv_text_def fspec_init_def)
qed

lemma vslprintf_V:
  assumes "length buf + length t \<le> cap" and "length buf < cap"
  shows "hcore_vslprintf ops cap buf (37 # 86 # fmt) (VHstr t (length t) # args) = hcore_vslprintf ops cap (buf @ t) fmt args"
  using assms by (simp add: hcore_vslprintf.simps [of _ _ _ "37 # 86 # fmt"] conversion_def is_digit_def convert_def
      conv_text_def fspec_init_def copy_bytes_def min_def)

lemma vslprintf_Z:
  assumes "length buf < cap"
  shows "hcore_vslprintf ops cap buf [37, 90, 0] args = Ret (buf @ [0])"
  using assms by (simp add: hcore_vslprintf.simps [of _ _ _ "[37, 90, 0]"] conversion_def is_digit_def convert_def
      conv_text_def fspec_init_def vslprintf_stop)

text \<open>A relative path is joined to the default one, and both length and terminator are right. For an absolute path the text
  is the path itself, but the length still counts the default path.\<close>

lemma full_path_relative:
  assumes "0 \<notin> set src" and "\<not> hcore_is_abspath src" and "dir \<noteq> []" and "int (length dir) + int (length src) + 2 < 18446744073709551616"
    and "hcore_get_full_path ops (Some src) dir pool e = Ret (Some (d, len, t), pool', e')"
  shows "t = dir @ [HCORE_ABSPATH_SEP] @ src @ [0] \<and> len = int (length t) - 1"
proof -
  define cap where "cap = length dir + length src + 2"
  have len: "u64 (int (length dir) + 1 + int (length src)) = int (length dir) + 1 + int (length src)"
    "nat (u64 (int (length dir) + 1 + int (length src) + 1)) = cap"
    using assms(4) by (simp_all add: u64_id cap_def)
  have fmt: "bytes ''%V/%s%Z'' @ [0] = [37, 86, 47, 37, 115, 37, 90, 0]" by (simp add: bytes_def of_char_def)
  have "hcore_snprintf ops cap (bytes ''%V/%s%Z'' @ [0]) [VHstr dir (length dir), VStr (src @ [0])] = Ret (dir @ [47] @ src @ [0])"
    using assms(1) unfolding fmt hcore_snprintf_def
    by (subst vslprintf_V, simp_all add: cap_def, subst vslprintf_plain, simp_all, subst vslprintf_s, simp_all add: vslprintf_Z)
  then show ?thesis using assms(2,3,5) len
    by (auto simp: hcore_get_full_path_def Let_def split: prod.splits option.splits)
qed

lemma full_path_absolute:
  assumes "0 \<notin> set src" and "hcore_is_abspath src" and "int (length dir) + int (length src) + 2 < 18446744073709551616"
    and "hcore_get_full_path ops (Some src) dir pool e = Ret (Some (d, len, t), pool', e')"
  shows "t = src @ [0] \<and> len = int (length dir) + int (length t)"
proof -
  define cap where "cap = length dir + length src + 2"
  have len: "u64 (int (length dir) + 1 + int (length src)) = int (length dir) + 1 + int (length src)"
    "nat (u64 (int (length dir) + 1 + int (length src) + 1)) = cap"
    using assms(3) by (simp_all add: u64_id cap_def)
  have fmt: "bytes ''%s%Z'' @ [0] = [37, 115, 37, 90, 0]" by (simp add: bytes_def of_char_def)
  have "hcore_snprintf ops cap (bytes ''%s%Z'' @ [0]) [VStr (src @ [0])] = Ret (src @ [0])"
    using assms(1) unfolding fmt hcore_snprintf_def by (subst vslprintf_s, simp_all add: cap_def vslprintf_Z)
  then show ?thesis using assms(2,4) len
    by (auto simp: hcore_get_full_path_def Let_def split: prod.splits option.splits)
qed

subsection \<open>Pid files\<close>

record fsys =
  fs_files :: "byte list \<rightharpoonup> byte list"
  fs_refused :: "byte list set"
  fs_alive :: "int set"

definition dec_text :: "int \<Rightarrow> byte list" where
  "dec_text n = (if n < 0 then 45 # num_digits (- n) 0 else num_digits n 0)"

definition is_space :: "byte \<Rightarrow> bool" where
  "is_space c \<longleftrightarrow> c = 32 \<or> 9 \<le> c \<and> c \<le> 13"

text \<open>\<open>fscanf\<close> of one \<open>%d\<close>: white space, a sign, and digits.\<close>

definition scan_int :: "byte list \<Rightarrow> int option" where
  "scan_int t =
     (let t = dropWhile is_space t;
          (neg, t) = (case t of c # cs \<Rightarrow> if c = 45 then (True, cs) else if c = 43 then (False, cs) else (False, t) | [] \<Rightarrow> (False, t));
          ds = takeWhile is_digit t
      in if ds = [] then None
         else map_option (\<lambda>v. i32 (if neg then - v else v)) (value_of dec_digit 10 0 ds))"

definition hcore_create_pidfile :: "byte list option \<Rightarrow> int \<Rightarrow> fsys \<Rightarrow> int \<times> fsys" where
  "hcore_create_pidfile pidfile pid fs = (case pidfile of
      None \<Rightarrow> (HCORE_ERROR, fs)
    | Some f \<Rightarrow>
        if f \<in> fs_refused fs then (HCORE_ERROR, fs)
        else (pid, fs\<lparr>fs_files := (fs_files fs)(f \<mapsto> dec_text pid)\<rparr>))"

definition hcore_get_pid :: "byte list option \<Rightarrow> fsys \<Rightarrow> int" where
  "hcore_get_pid pidfile fs = (case pidfile of
      None \<Rightarrow> HCORE_ERROR
    | Some f \<Rightarrow>
        if f \<in> fs_refused fs then HCORE_ERROR
        else (case fs_files fs f of
                None \<Rightarrow> HCORE_ERROR
              | Some t \<Rightarrow> (case scan_int t of None \<Rightarrow> HCORE_ERROR | Some pid \<Rightarrow> pid)))"

definition hcore_proc_is_running :: "byte list option \<Rightarrow> fsys \<Rightarrow> bool" where
  "hcore_proc_is_running pidfile fs = (case pidfile of
      None \<Rightarrow> False
    | Some f \<Rightarrow>
        if fs_files fs f \<noteq> None then
          (let pid = hcore_get_pid pidfile fs in if pid = HCORE_ERROR then False else pid \<in> fs_alive fs)
        else False)"

text \<open>\<open>unlink\<close>\<close>

definition hcore_destroy_pidfile :: "byte list \<Rightarrow> fsys \<Rightarrow> fsys" where
  "hcore_destroy_pidfile f fs = fs\<lparr>fs_files := (fs_files fs)(f := None)\<rparr>"

lemma scan_digits:
  assumes "0 \<le> n" and "n \<le> 2147483647"
  shows "scan_int (num_digits n 0) = Some n"
proof -
  obtain c cs where ds: "num_digits n 0 = c # cs" using num_digits_length(2) [of n 0] assms by (cases "num_digits n 0") auto
  have digits: "\<forall>x \<in> set (num_digits n 0). is_digit x" using digits_chars [OF assms(1)] by blast
  then have c: "is_digit c" by (simp add: ds)
  then have "\<not> is_space c" "c \<noteq> 45" "c \<noteq> 43" by (auto simp: is_space_def is_digit_def word_le_def)
  moreover have "takeWhile is_digit (num_digits n 0) = num_digits n 0" using digits by simp
  ultimately show ?thesis using num_digits_value(1) [OF assms(1)] assms ds
    by (simp add: scan_int_def i32_id)
qed

text \<open>The pid that was written is the one read, and its process is looked for.\<close>

lemma pidfile_roundtrip:
  assumes "0 \<le> pid" and "pid \<le> 2147483647" and "f \<notin> fs_refused fs" and "hcore_create_pidfile (Some f) pid fs = (r, fs')"
  shows "r = pid \<and> hcore_get_pid (Some f) fs' = pid \<and> (hcore_proc_is_running (Some f) fs' \<longleftrightarrow> pid \<in> fs_alive fs)"
proof -
  have "scan_int (dec_text pid) = Some pid" using scan_digits [OF assms(1,2)] assms(1) by (simp add: dec_text_def)
  then show ?thesis using assms by (auto simp: hcore_create_pidfile_def hcore_get_pid_def hcore_proc_is_running_def)
qed

lemma pidfile_removed: "\<not> hcore_proc_is_running (Some f) (hcore_destroy_pidfile f fs)"
  by (simp add: hcore_proc_is_running_def hcore_destroy_pidfile_def)

end
