(* ===== verification/Spec2Isabelle.thy ===== *)
theory Spec2Isabelle
  imports HCrc32 HQueue HMap HBuf HFormat HTime HInet HList HSupply HPackGet HRbNext HHtb HShpool HConnection HDebug HProcess
begin

section \<open>hcore: a verified model\<close>

text \<open>
  hcore is a C library for network services on Linux x86_64: memory pools and the containers over them, text,
  time and address helpers, serialised packs, red-black trees for timers, logs, connections, and shared memory with
  its lock and slab allocator. These theories are a shallow embedding of its code (src/src and src/include): each C
  function is a function of the same name over explicit state, and each loop a recursion.

  \<^bold>\<open>Conventions\<close> (HPrelude).
  Bit patterns are words; numbers are \<open>int\<close> with \<open>i32\<close>, \<open>u32\<close>, \<open>i64\<close>, \<open>u64\<close> written where the C type can be left
  (hcore_int_t and hcore_uint_t have 32 bits). A C struct is a record with a prefix of its own. Memory that the code
  addresses is a map from addresses, and a null pointer \<open>None\<close> or 0. \<open>run\<close> is the outcome of code that can
  leave its object: \<open>Ret\<close> or \<open>Fault\<close>. Return codes (HCORE_OK, HCORE_ERROR) are values. A loop whose end is not
  certain is a \<^theory_text>\<open>partial_function (option)\<close>, where \<open>None\<close> is not returning, so every theorem that gives
  \<open>Some\<close> also says that the loop ends; the others end by a measure. There is no fuel.

  \<^bold>\<open>The outside.\<close>
  malloc and posix_memalign are a list of answers (HPool, \<open>env\<close>), the kernel is another one (HSys, \<open>sysenv\<close>;
  HConnection adds the bytes that went over a wire). A call takes the next answer and is recorded; at the end of the
  list it fails, so that the loops over interrupted calls end. Floating point operations, localtime_r, inet_ntop,
  strerror_r, qsort, bsearch, backtrace, the hash and comparison callbacks are arguments.

  \<^bold>\<open>Where the code is modelled.\<close>

  \<^item> HBase: hcore_base.c, hcore_count.c, hcore_hash.c. Cached page and slab sizes (\<open>gvars\<close>), alignment, overflow tests.
  \<^item> HCrc32: hcore_crc32.c. Both table algorithms equal the bitwise one, and updates compose.
  \<^item> HOrder: the contract of comparison callbacks (locale \<open>comparator\<close>) and insertion into sorted lists.
  \<^item> HQueue: hcore_queue.c and the macros of hcore_queue.h, on a heap of two links. Rings of nodes, the middle, the stable sort.
  \<^item> HPool: hcore_pool.c and the allocators of hcore_lib.c. Blocks, large blocks, cleanup handlers; the locale
    \<open>region_alloc\<close> says what clients of an allocator rely on, and \<open>pool_region\<close> proves it of hcore_pnalloc.
    HSupply adds how much memory is still granted, for clients that allocate many times.
  \<^item> HArray, HMap, HBuf: hcore_array.c, hcore_map.c, hcore_buf.c, clients of the pool. Growth keeps the elements, a
    bitmap is a set of positions, freed links are used again.
  \<^item> HString: the parsers and text helpers of hcore_string.c. Three digit readers are interpretations of \<open>digit_reader\<close>.
  \<^item> HFormat: hcore_vslprintf and hcore_strlfmt_size (hcore_string.c). Output stays inside its room, and numbers printed are read back.
  \<^item> HTime: hcore_time.c. hcore_gmtime against the calendar; interval parsing.
  \<^item> HInet: hcore_inet.c. Addresses, URLs, ports, masks and MAC addresses with their round trips.
  \<^item> HList: hcore_list.c. Bisection keeps the order of a \<open>comparator\<close>; the locale \<open>sort_library\<close> says what qsort and bsearch promise.
  \<^item> HPack, HPackRound, HPackGet: hcore_pack.c. Elements in a HList, their wire format, writing and reading in
    pieces (state machine \<open>pk_phase\<close>), finding elements; the comparison is an interpretation of \<open>comparator\<close> and \<open>sort_library\<close>.
  \<^item> HRbtree, HRbZip, HRbInsert, HRbDelete, HRbNext: hcore_rbtree.c on a heap of nodes. A tree of HOL-Library.Tree is its
    abstraction, a zipper the position of the balancing loops, and their right-hand halves the mirrored left-hand ones.
    Insertion by value and by timer are interpretations of \<open>key_order\<close>.
  \<^item> HHtb: hcore_htb.c, tables in common or shared memory; the probe is an option because it may not end.
  \<^item> HShmtx: hcore_shmtx.c and the atomic operations of hcore_base.h, as interleaved steps of processes that can die.
  \<^item> HSlab, HSlabRun, HShpool: hcore_shpool.c. The slab allocator by addresses, its runs of pages as a list (first fit),
    and the pool over it with its lock.
  \<^item> HConnection: hcore_connection.c, hcore_io.c, with the structures of hcore_connection.h and hcore_event.h. Sending and
    receiving against the answers of the kernel, and chains of HBuf through writev.
  \<^item> HAstring: hcore_astring.c, strings that grow while HFormat prints to them.
  \<^item> HLog: hcore_log.c, from the level to the bytes of the one write of a line.
  \<^item> HDebug: hcore_debug.c and the debug branches of hcore_lib.c. The counts of nodes and the leak information.
  \<^item> HProcess: hcore_path.c and hcore_pid.c.

  \<^bold>\<open>What the lemmas show.\<close>
  Each theory has the invariant of its state (\<open>pool_wf\<close>, \<open>array_ok\<close>, \<open>list_ok\<close>, \<open>pack_ok\<close>, \<open>rb_tree\<close>, \<open>free_runs\<close>,
  \<open>mtx_inv\<close>, \<open>debug_inv\<close>), that the operations keep it, and what they compute. The properties are numbered C1, C2, \<dots>
  in the order of their importance: allocations are disjoint, the tree operations refine sorted lists, packs and
  texts survive a round trip, the lock excludes, chains are sent in order. Where the code does not do what it means to,
  a lemma shows it on the model (names such as \<open>free_next_to_free_loses\<close>, \<open>htb_probe_empty\<close>,
  \<open>destroy_nodes_skips\<close>), and the properties of that component are about what does hold.

  \<^bold>\<open>Bounds.\<close>
  Lists and packs have fewer than 2^30 items and arrays fewer than 2^31 elements, so that the code's \<open>int\<close> indices
  do not wrap; chains and strings are shorter than 2^64 bytes. Timers are compared in a window of 2^31.
  Every process of the lock has a positive id of its own.

  \<^bold>\<open>Not modelled.\<close>
  What functions print on the standard error output; hcore_shpool_dump and hcore_fopen, which only print or
  call fopen; the bytes a receive stores; event loops (hcore_event.c and hcore_ipc.c are without code); types and
  constants by themselves; tests and examples. In the debug build the addresses that pools get from hcore_memalign are
  answers like those of the release build.
\<close>

section \<open>Properties across components\<close>

subsection \<open>Logs and pools\<close>

text \<open>A log made in a pool is closed when the pool is destroyed: hcore_create_log leaves a cleanup of its own, which
  hcore_destroy_pool runs with the address of the log.\<close>

lemma create_log_cleanup:
  assumes "hcore_create_log pool f level m e = (Some (p, log), pool', m', e')"
  shows "\<exists>c \<in> set (pool_cleanup pool'). pc_handler c = Some destroy_handler \<and> pc_data c = Some p"
proof -
  obtain c pool1 m1 pool2 where add: "hcore_pool_cleanup_add pool1 0 m1 = (Some c, pool2, m')"
    "pool' = set_first_cleanup p destroy_handler pool2"
    using assms by (auto simp: hcore_create_log_def split: prod.splits option.splits if_splits)
  then show ?thesis
    by (auto simp: hcore_pool_cleanup_add_def set_first_cleanup_def split: prod.splits option.splits)
qed

lemma pool_destroy_closes_log:
  assumes "hcore_create_log pool f level m e = (Some (p, log), pool', m', e')"
  shows "ECleanup destroy_handler (Some p) \<in> set (trace (hcore_destroy_pool pool' m1))"
proof -
  obtain c where c: "c \<in> set (pool_cleanup pool')" "pc_handler c = Some destroy_handler" "pc_data c = Some p"
    using create_log_cleanup [OF assms] by blast
  then have "ECleanup destroy_handler (Some p) \<in> set (trace (run_cleanups (pool_cleanup pool') m1))"
    unfolding run_cleanups_trace by (auto intro!: rev_image_eqI [of c])
  then show ?thesis by (simp add: hcore_destroy_pool_def Let_def log_event_def free_blocks_trace free_large_trace)
qed

end
